(* ===== verification/Prelude.thy ===== *)
theory Prelude
  imports Main "HOL-Library.Word" "HOL-Library.List_Lexorder"
begin

section \<open>Prelude: machine integers, panics, strings and shared hints\<close>

text \<open>
  What every component of the model shares:
  \<^item> \<open>u64\<close>, \<open>u16\<close> as machine words, and the additions of the source, whose overflow
    behaviour depends on the build profile (\<^verbatim>\<open>Cargo.toml\<close> leaves
    \<^verbatim>\<open>overflow-checks\<close> at its default: on for a debug build, off for a release build);
  \<^item> operations that may panic, as functions from a state to an outcome and the state that
    is left behind (the state lives behind an \<^verbatim>\<open>Arc<RwLock<_>>\<close>, so it survives a panic);
  \<^item> Rust strings as lists of Unicode scalar values, \<^verbatim>\<open>str::trim\<close>, decimal formatting and
    integer parsing of the standard library;
  \<^item> pointwise joins of optional values, the algebra behind every merge of the source.
\<close>

named_theorems view_simps \<open>how each operation changes the abstract view of a state\<close>
named_theorems model_defs \<open>definitions unfolded together when a small operation is evaluated\<close>

subsection \<open>Integers and the build profile\<close>

type_synonym u16 = "16 word"
type_synonym u64 = "64 word"

datatype build = Debug | Release

datatype panic = ArithmeticOverflow

text \<open>The built-in \<open>+\<close> of an unsigned type: it panics on overflow in a debug build and wraps
  around in a release build.\<close>

definition add_unsigned :: "build \<Rightarrow> 'a::len word \<Rightarrow> 'a word \<Rightarrow> panic + 'a word" where
  "add_unsigned b x y =
     (if 2 ^ LENGTH('a) \<le> unat x + unat y
      then (case b of Debug \<Rightarrow> Inl ArithmeticOverflow | Release \<Rightarrow> Inr (x + y))
      else Inr (x + y))"

lemma add_unsigned_fits:
  fixes x y :: "'a::len word"
  assumes "unat x + unat y < 2 ^ LENGTH('a)"
  shows "add_unsigned b x y = Inr (x + y)" "unat (x + y) = unat x + unat y"
  using assms by (simp_all add: add_unsigned_def unat_word_ariths)

lemma add_unsigned_Release: "add_unsigned Release x y = Inr (x + y)"
  by (simp add: add_unsigned_def)

lemma add_unsigned_Debug_Inr:
  fixes x y :: "'a::len word"
  assumes "add_unsigned Debug x y = Inr z"
  shows "z = x + y" "unat z = unat x + unat y"
  using assms by (auto simp: add_unsigned_def unat_word_ariths split: if_splits)

lemma unat_overflow_one: "2 ^ LENGTH('a) \<le> unat (x :: 'a::len word) + 1 \<longleftrightarrow> x = - 1"
proof
  assume "2 ^ LENGTH('a) \<le> unat x + 1"
  moreover have "unat x < 2 ^ LENGTH('a)" by (rule unsigned_less)
  ultimately have "unat x = 2 ^ LENGTH('a) - 1" by linarith
  then show "x = - 1" by (simp add: word_unat_eq_iff unsigned_minus_1_eq_mask mask_eq_exp_minus_1)
qed (simp add: unsigned_minus_1_eq_mask mask_eq_exp_minus_1)

lemma add_unsigned_one:
  "add_unsigned b (x :: 'a::len word) 1 =
     (if b = Debug \<and> x = - 1 then Inl ArithmeticOverflow else Inr (x + 1))"
  by (cases b) (simp_all add: add_unsigned_def unat_overflow_one [simplified])

lemma unat_succ: "x \<noteq> - 1 \<Longrightarrow> unat (x + 1 :: 'a::len word) = unat x + 1"
  using add_unsigned_fits(2) [of x 1] unat_overflow_one [of x] by (simp add: not_le)

lemma word_less_succ: "x \<noteq> - 1 \<Longrightarrow> x < (x + 1 :: 'a::len word)"
  by (simp add: word_less_nat_alt unat_succ)

lemma unat_less_u64 [simp]: "unat (x :: u64) < 18446744073709551616"
  using unsigned_less [of x] by simp

lemma not_u64_le_unat [simp]: "\<not> 18446744073709551616 \<le> unat (x :: u64)"
  by (simp add: not_le)

lemma unat_max: "unat (max x y) = max (unat x) (unat (y :: 'a::len word))"
  by (auto simp: max_def word_le_nat_alt)

subsection \<open>Operations that may panic\<close>

type_synonym ('s, 'a) run = "'s \<Rightarrow> (panic + 'a) \<times> 's"

definition and_then :: "('s, 'a) run \<Rightarrow> ('a \<Rightarrow> ('s, 'b) run) \<Rightarrow> ('s, 'b) run" where
  "and_then m f s = (case m s of (Inl e, s') \<Rightarrow> (Inl e, s') | (Inr a, s') \<Rightarrow> f a s')"

lemma and_then_Inl [simp]: "m s = (Inl e, s') \<Longrightarrow> and_then m f s = (Inl e, s')"
  by (simp add: and_then_def)

lemma and_then_Inr [simp]: "m s = (Inr a, s') \<Longrightarrow> and_then m f s = f a s'"
  by (simp add: and_then_def)

subsection \<open>Strings\<close>

text \<open>
  A Rust \<^verbatim>\<open>String\<close> is a sequence of Unicode scalar values; \<open>rust_string\<close> lists them as
  numbers. The derived order of Rust compares UTF-8 bytes, which is the lexicographic order of
  the scalar values, the order of \<^theory_text>\<open>HOL-Library.List_Lexorder\<close>.
\<close>

type_synonym rust_string = "nat list"

definition lit :: "string \<Rightarrow> rust_string" where
  [model_defs]: "lit s = map of_char s"

text \<open>\<^verbatim>\<open>char::is_whitespace\<close>: the code points with the Unicode property White_Space.\<close>

definition is_whitespace :: "nat \<Rightarrow> bool" where
  "is_whitespace c \<longleftrightarrow>
     9 \<le> c \<and> c \<le> 13 \<or> c = 32 \<or> c = 133 \<or> c = 160 \<or> c = 5760 \<or>
     8192 \<le> c \<and> c \<le> 8202 \<or> c = 8232 \<or> c = 8233 \<or> c = 8239 \<or> c = 8287 \<or> c = 12288"

definition trim :: "rust_string \<Rightarrow> rust_string" where
  "trim s = rev (dropWhile is_whitespace (rev (dropWhile is_whitespace s)))"

lemma dropWhile_eq_Nil_iff: "dropWhile P xs = [] \<longleftrightarrow> (\<forall>x\<in>set xs. P x)"
  by (induction xs) auto

lemma trim_eq_Nil_iff: "trim s = [] \<longleftrightarrow> (\<forall>c\<in>set s. is_whitespace c)"
proof -
  have "trim s = [] \<longleftrightarrow> (\<forall>c\<in>set (dropWhile is_whitespace s). is_whitespace c)"
    by (simp add: trim_def dropWhile_eq_Nil_iff)
  also have "\<dots> \<longleftrightarrow> (\<forall>c\<in>set s. is_whitespace c)"
    by (induction s) auto
  finally show ?thesis .
qed

definition is_ascii_digit :: "nat \<Rightarrow> bool" where
  "is_ascii_digit c \<longleftrightarrow> 48 \<le> c \<and> c \<le> 57"

text \<open>Decimal formatting, as \<^verbatim>\<open>format!("{}", n)\<close> prints an unsigned integer.\<close>

fun dec_digits :: "nat \<Rightarrow> rust_string" where
  "dec_digits n = (if n < 10 then [48 + n] else dec_digits (n div 10) @ [48 + n mod 10])"

declare dec_digits.simps [simp del]

text \<open>
  \<^verbatim>\<open>str::parse\<close> for an unsigned type with largest value \<open>mx\<close>: an optional \<open>+\<close>, then at least
  one digit and nothing else; a value above \<open>mx\<close> is an error.
\<close>

fun parse_digits :: "nat \<Rightarrow> nat \<Rightarrow> rust_string \<Rightarrow> nat option" where
  "parse_digits mx acc [] = Some acc"
| "parse_digits mx acc (c # cs) =
     (if is_ascii_digit c \<and> acc * 10 + (c - 48) \<le> mx
      then parse_digits mx (acc * 10 + (c - 48)) cs else None)"

fun parse_uint :: "nat \<Rightarrow> rust_string \<Rightarrow> nat option" where
  "parse_uint mx [] = None"
| "parse_uint mx [c] = (if c = 43 \<or> c = 45 then None else parse_digits mx 0 [c])"
| "parse_uint mx (c # d # cs) =
     (if c = 43 then parse_digits mx 0 (d # cs) else parse_digits mx 0 (c # d # cs))"

lemma dec_digits_nonempty [simp]: "dec_digits n \<noteq> []"
  by (subst dec_digits.simps) simp

lemma dec_digits_digits: "c \<in> set (dec_digits n) \<Longrightarrow> is_ascii_digit c"
proof (induction n rule: dec_digits.induct)
  case (1 n)
  then show ?case
    by (subst (asm) (2) dec_digits.simps) (auto simp: is_ascii_digit_def split: if_splits)
qed

lemma parse_digits_append:
  "parse_digits mx acc (xs @ ys) =
     (case parse_digits mx acc xs of None \<Rightarrow> None | Some a \<Rightarrow> parse_digits mx a ys)"
  by (induction xs arbitrary: acc) auto

lemma parse_digits_dec: "n \<le> mx \<Longrightarrow> parse_digits mx 0 (dec_digits n) = Some n"
proof (induction n rule: dec_digits.induct)
  case (1 n)
  show ?case
  proof (cases "n < 10")
    case True
    with "1.prems" show ?thesis
      by (subst dec_digits.simps) (simp add: is_ascii_digit_def)
  next
    case False
    with "1" have "parse_digits mx 0 (dec_digits (n div 10)) = Some (n div 10)" by simp
    with False "1.prems" show ?thesis
      by (subst dec_digits.simps) (simp add: parse_digits_append is_ascii_digit_def)
  qed
qed

lemma parse_uint_dec: "n \<le> mx \<Longrightarrow> parse_uint mx (dec_digits n) = Some n"
proof -
  assume n: "n \<le> mx"
  obtain c cs where d: "dec_digits n = c # cs"
    using dec_digits_nonempty [of n] by (cases "dec_digits n") auto
  then have "is_ascii_digit c" using dec_digits_digits [of c n] by simp
  then have "parse_uint mx (c # cs) = parse_digits mx 0 (c # cs)"
    by (cases cs) (auto simp: is_ascii_digit_def)
  with d n show ?thesis using parse_digits_dec [of n mx] by simp
qed

lemma dec_digits_inject [simp]: "dec_digits m = dec_digits n \<longleftrightarrow> m = n"
proof
  assume "dec_digits m = dec_digits n"
  then have "parse_uint (max m n) (dec_digits m) = parse_uint (max m n) (dec_digits n)" by simp
  then show "m = n" by (simp add: parse_uint_dec)
qed simp

subsection \<open>Joins of optional values\<close>

text \<open>The value of a key after two maps have been merged: a key missing on one side takes the
  other side's value, a key on both sides combines them.\<close>

fun opt_join :: "('v \<Rightarrow> 'v \<Rightarrow> 'v) \<Rightarrow> 'v option \<Rightarrow> 'v option \<Rightarrow> 'v option" where
  "opt_join f None y = y"
| "opt_join f x None = x"
| "opt_join f (Some a) (Some b) = Some (f a b)"

lemma opt_join_None2 [simp]: "opt_join f x None = x"
  by (cases x) auto

lemma opt_join_eq_None [simp]: "opt_join f x y = None \<longleftrightarrow> x = None \<and> y = None"
  by (cases x; cases y) auto

lemma opt_join_Some: "(\<exists>v. opt_join f x y = Some v) \<longleftrightarrow> x \<noteq> None \<or> y \<noteq> None"
  by (cases x; cases y) auto

lemma opt_join_comm:
  "(\<And>a b. x = Some a \<Longrightarrow> y = Some b \<Longrightarrow> f a b = f b a) \<Longrightarrow> opt_join f x y = opt_join f y x"
  by (cases x; cases y) auto

lemma opt_join_max_laws:
  fixes x y z :: "'v::linorder option"
  shows "opt_join max x y = opt_join max y x"
    and "opt_join max (opt_join max x y) z = opt_join max x (opt_join max y z)"
    and "opt_join max x x = x"
  by (cases x; cases y; cases z; simp add: ac_simps)+

lemma opt_join_or_laws:
  "opt_join (\<or>) x y = opt_join (\<or>) y x"
  "opt_join (\<or>) (opt_join (\<or>) x y) z = opt_join (\<or>) x (opt_join (\<or>) y z)"
  "opt_join (\<or>) x x = x"
  by (cases x; cases y; cases z; auto)+

text \<open>Keeping the first value of two: a join only where the two agree.\<close>

lemma opt_join_first_laws:
  "(\<And>a b. x = Some a \<Longrightarrow> y = Some b \<Longrightarrow> a = b) \<Longrightarrow>
     opt_join (\<lambda>a b. a) x y = opt_join (\<lambda>a b. a) y x"
  "opt_join (\<lambda>a b. a) (opt_join (\<lambda>a b. a) x y) z = opt_join (\<lambda>a b. a) x (opt_join (\<lambda>a b. a) y z)"
  "opt_join (\<lambda>a b. a) x x = x"
  by (cases x; cases y; cases z; auto)+

lemma dom_opt_join: "dom (\<lambda>i. opt_join f (g i) (h i)) = dom g \<union> dom h"
  by (auto simp: dom_def)

text \<open>A join that differs from its left argument has a new key or a new value under an old one.\<close>

lemma opt_join_grows:
  assumes "(\<lambda>i. opt_join f (g i) (h i)) \<noteq> g"
  shows "dom g \<subset> dom (\<lambda>i. opt_join f (g i) (h i)) \<or> (\<exists>i a b. g i = Some a \<and> h i = Some b \<and> f a b \<noteq> a)"
proof -
  obtain i where i: "opt_join f (g i) (h i) \<noteq> g i" using assms by auto
  show ?thesis
  proof (cases "g i")
    case None
    then have "i \<in> dom h" "i \<notin> dom g" using i by (cases "h i"; auto)+
    then show ?thesis unfolding dom_opt_join by blast
  next
    case (Some a)
    then show ?thesis using i by (cases "h i") auto
  qed
qed

subsection \<open>Joins make larger\<close>

text \<open>The sizes by which the states of the program grow: the number of elements of a set, and the number of
  entries of a map of counters together with their sum.\<close>

lemma card_set_grows:
  assumes "finite A" "finite B"
  shows "card A + (if A \<union> B = A then 0 else 1) \<le> card (A \<union> B)"
proof (cases "A \<union> B = A")
  case False
  then have "card A < card (A \<union> B)" using assms by (intro psubset_card_mono) auto
  with False show ?thesis by simp
qed simp

definition count_of :: "(u64 \<Rightarrow> u64 option) \<Rightarrow> u64 \<Rightarrow> nat" where
  "count_of g r = (case g r of None \<Rightarrow> 0 | Some n \<Rightarrow> unat n)"

definition total_of :: "(u64 \<Rightarrow> u64 option) \<Rightarrow> nat" where
  "total_of g = (\<Sum>r\<in>UNIV. count_of g r)"

lemma counts_grow:
  fixes g h :: "u64 \<Rightarrow> u64 option"
  defines "j \<equiv> \<lambda>i. opt_join max (g i) (h i)"
  shows "card (dom g) + total_of g + (if j = g then 0 else 1)
    \<le> card (dom j) + total_of j"
proof -
  have dom: "dom j = dom g \<union> dom h" unfolding j_def by (rule dom_opt_join)
  have counts: "count_of g r \<le> count_of j r" for r
    by (cases "g r"; cases "h r") (auto simp: count_of_def j_def unat_max)
  have le: "card (dom g) \<le> card (dom j)" "total_of g \<le> total_of j"
    using counts by (auto simp: dom total_of_def intro: card_mono sum_mono)
  show ?thesis
  proof (cases "j = g")
    case False
    then consider "dom g \<subset> dom j" | i a b where "g i = Some a" "h i = Some b" "max a b \<noteq> a"
      using opt_join_grows [of max g h] by (auto simp: j_def)
    then show ?thesis
    proof cases
      case 1
      then have "card (dom g) < card (dom j)" by (intro psubset_card_mono) auto
      with le False show ?thesis by simp
    next
      case (2 i a b)
      then have "a < max a b" by (simp add: max_def split: if_splits)
      then have "count_of g i < count_of j i"
        using 2 by (simp add: count_of_def j_def word_less_nat_alt)
      then have "total_of g < total_of j"
        unfolding total_of_def using counts by (intro sum_strict_mono_ex1) auto
      with le False show ?thesis by simp
    qed
  qed (use le in simp)
qed

end
