(* ===== verification/Collections.thy ===== *)
theory Collections
  imports Prelude "HOL-Library.DAList" "HOL-Library.Dlist"
begin

section \<open>HashMap and HashSet of the standard library\<close>

text \<open>
  \<^verbatim>\<open>std::collections::HashMap\<close> is modelled by the type of association lists with distinct keys
  (\<^theory_text>\<open>HOL-Library.DAList\<close>): the list is the order in which iteration visits the entries,
  which the standard library leaves unspecified. \<open>hm_get\<close> is the view that operations are specified
  by; the derived \<open>==\<close> (\<open>hm_eq\<close>, written as the standard library implements it) compares
  exactly that view, so nothing stated up to \<open>==\<close> depends on the order. \<^verbatim>\<open>HashSet\<close> is
  modelled by distinct lists (\<^theory_text>\<open>HOL-Library.Dlist\<close>) in the same way.
\<close>

subsection \<open>HashMap\<close>

type_synonym ('k, 'v) hash_map = "('k, 'v) alist"

definition hm_new :: "('k, 'v) hash_map" where
  "hm_new = DAList.empty"

definition hm_get :: "('k, 'v) hash_map \<Rightarrow> 'k \<Rightarrow> 'v option" where
  "hm_get m k = DAList.lookup m k"

definition hm_insert :: "'k \<Rightarrow> 'v \<Rightarrow> ('k, 'v) hash_map \<Rightarrow> ('k, 'v) hash_map" where
  "hm_insert k v m = DAList.update k v m"

definition hm_iter :: "('k, 'v) hash_map \<Rightarrow> ('k \<times> 'v) list" where
  "hm_iter m = alist.impl_of m"

definition hm_keys :: "('k, 'v) hash_map \<Rightarrow> 'k list" where
  "hm_keys m = map fst (hm_iter m)"

definition hm_values :: "('k, 'v) hash_map \<Rightarrow> 'v list" where
  "hm_values m = map snd (hm_iter m)"

definition hm_len :: "('k, 'v) hash_map \<Rightarrow> nat" where
  "hm_len m = length (hm_iter m)"

text \<open>\<^verbatim>\<open>*m.entry(k).or_insert(d)\<close>, read and then written through the reference with \<open>f\<close>.\<close>

definition hm_entry :: "'k \<Rightarrow> 'v \<Rightarrow> ('v \<Rightarrow> 'v) \<Rightarrow> ('k, 'v) hash_map \<Rightarrow> ('k, 'v) hash_map" where
  "hm_entry k d f m = hm_insert k (f (case hm_get m k of None \<Rightarrow> d | Some v \<Rightarrow> v)) m"

text \<open>\<^verbatim>\<open>m.entry(k).or_insert(d)\<close> on its own: the value under the key, and the map it is now in.\<close>

definition hm_or_insert :: "'k \<Rightarrow> 'v \<Rightarrow> ('k, 'v) hash_map \<Rightarrow> 'v \<times> ('k, 'v) hash_map" where
  "hm_or_insert k d m = (case hm_get m k of None \<Rightarrow> (d, hm_insert k d m) | Some v \<Rightarrow> (v, m))"

text \<open>\<^verbatim>\<open>PartialEq for HashMap\<close>: equal lengths, and every entry of the one is in the other.\<close>

definition hm_eq :: "('k, 'v) hash_map \<Rightarrow> ('k, 'v) hash_map \<Rightarrow> bool" where
  "hm_eq m n \<longleftrightarrow> hm_len m = hm_len n \<and> list_all (\<lambda>(k, v). hm_get n k = Some v) (hm_iter m)"

lemma hm_get_map_of: "hm_get m = map_of (hm_iter m)"
  by (auto simp: hm_get_def hm_iter_def lookup.rep_eq)

lemma hm_iter_distinct [simp]: "distinct (map fst (hm_iter m))"
  by (simp add: hm_iter_def)

lemma hm_keys_distinct [simp]: "distinct (hm_keys m)"
  by (simp add: hm_keys_def)

lemma hm_iter_iff: "(k, v) \<in> set (hm_iter m) \<longleftrightarrow> hm_get m k = Some v"
  by (simp add: hm_get_map_of map_of_eq_Some_iff)

lemma hm_get_new [view_simps]: "hm_get hm_new = Map.empty"
  by (auto simp: hm_get_def hm_new_def)

lemma hm_get_insert [view_simps]: "hm_get (hm_insert k v m) = (hm_get m)(k \<mapsto> v)"
  by (auto simp: hm_get_def hm_insert_def)

lemma hm_get_entry [view_simps]:
  "hm_get (hm_entry k d f m) =
     (hm_get m)(k \<mapsto> f (case hm_get m k of None \<Rightarrow> d | Some v \<Rightarrow> v))"
  by (simp add: hm_entry_def view_simps)

lemma hm_or_insert_eq:
  "fst (hm_or_insert k d m) = (case hm_get m k of None \<Rightarrow> d | Some v \<Rightarrow> v)"
  "hm_get (snd (hm_or_insert k d m)) = (hm_get m)(k \<mapsto> (case hm_get m k of None \<Rightarrow> d | Some v \<Rightarrow> v))"
  by (auto simp: hm_or_insert_def view_simps split: option.split)

lemma set_hm_keys: "set (hm_keys m) = dom (hm_get m)"
  by (simp add: hm_keys_def hm_get_map_of dom_map_of_conv_image_fst)

lemma finite_dom_hm_get [simp]: "finite (dom (hm_get m))"
  by (simp flip: set_hm_keys)

lemma hm_len_card: "hm_len m = card (dom (hm_get m))"
  by (metis distinct_card hm_keys_def hm_keys_distinct hm_len_def length_map set_hm_keys)

lemma hm_len_0_iff: "hm_len m = 0 \<longleftrightarrow> hm_get m = Map.empty"
  by (simp add: hm_len_def hm_get_map_of)

lemma hm_eq_lookups:
  "hm_eq m n \<longleftrightarrow>
     hm_len m = hm_len n \<and> (\<forall>k v. hm_get m k = Some v \<longrightarrow> hm_get n k = Some v)"
  unfolding hm_eq_def list_all_iff by (fastforce simp: hm_iter_iff)

lemma hm_eq_iff: "hm_eq m n \<longleftrightarrow> hm_get m = hm_get n"
proof
  assume eq: "hm_eq m n"
  then have le: "hm_get m \<subseteq>\<^sub>m hm_get n"
    by (auto simp: hm_eq_lookups map_le_def)
  then have "dom (hm_get m) = dom (hm_get n)"
    using eq by (intro card_subset_eq) (auto simp: hm_eq_lookups hm_len_card dest: map_le_implies_dom_le)
  with le have "hm_get n \<subseteq>\<^sub>m hm_get m" by (simp add: map_le_def)
  with le show "hm_get m = hm_get n" by (rule map_le_antisym)
next
  assume "hm_get m = hm_get n"
  then show "hm_eq m n"
    by (simp add: hm_eq_lookups hm_len_card)
qed

subsection \<open>Loops over the entries of another map\<close>

text \<open>
  Every merge of the source walks over the entries of the other map and writes each key of its
  own map once. \<open>pointwise_loop\<close> is the contract of such a loop's body; the result of the loop
  does not depend on the order of the walk, as the lemma shows.
\<close>

locale pointwise_loop =
  fixes body :: "'k \<times> 'v \<Rightarrow> ('k, 'w) hash_map \<Rightarrow> ('k, 'w) hash_map"
    and upd :: "'v \<Rightarrow> 'w option \<Rightarrow> 'w option"
  assumes get_body: "hm_get (body (k, v) m) j = (if j = k then upd v (hm_get m k) else hm_get m j)"
begin

lemma get_fold_list:
  "distinct (map fst es) \<Longrightarrow>
   hm_get (fold body es m) j =
     (case map_of es j of None \<Rightarrow> hm_get m j | Some v \<Rightarrow> upd v (hm_get m j))"
proof (induction es arbitrary: m)
  case Nil
  then show ?case by simp
next
  case (Cons e es)
  obtain k v where e: "e = (k, v)" by (cases e)
  with Cons.prems have "map_of es k = None"
    by (auto simp: map_of_eq_None_iff)
  with Cons e show ?case by (auto simp: get_body split: option.split)
qed

lemma get_fold:
  "hm_get (fold body (hm_iter n) m) j =
     (case hm_get n j of None \<Rightarrow> hm_get m j | Some v \<Rightarrow> upd v (hm_get m j))"
  by (simp add: get_fold_list flip: hm_get_map_of)

text \<open>The order of the walk is irrelevant: any list of the same entries gives an equal map.\<close>

lemma fold_any_order:
  "distinct (map fst es) \<Longrightarrow> set es = set (hm_iter n) \<Longrightarrow>
   hm_eq (fold body es m) (fold body (hm_iter n) m)"
  by (simp add: hm_eq_iff get_fold_list get_fold hm_get_map_of [of n] fun_eq_iff
      map_of_inject_set [THEN iffD2, of es "hm_iter n"])

end

subsection \<open>HashSet\<close>

type_synonym 'a hash_set = "'a dlist"

definition hs_new :: "'a hash_set" where
  "hs_new = Dlist.empty"

definition hs_contains :: "'a hash_set \<Rightarrow> 'a \<Rightarrow> bool" where
  "hs_contains s x = Dlist.member s x"

text \<open>\<^verbatim>\<open>HashSet::insert\<close> returns whether the value was newly inserted.\<close>

definition hs_insert :: "'a \<Rightarrow> 'a hash_set \<Rightarrow> bool \<times> 'a hash_set" where
  "hs_insert x s = (\<not> hs_contains s x, Dlist.insert x s)"

definition hs_iter :: "'a hash_set \<Rightarrow> 'a list" where
  "hs_iter s = list_of_dlist s"

definition hs_len :: "'a hash_set \<Rightarrow> nat" where
  "hs_len s = length (hs_iter s)"

definition hs_extend :: "'a list \<Rightarrow> 'a hash_set \<Rightarrow> 'a hash_set" where
  "hs_extend xs s = fold (\<lambda>x s. snd (hs_insert x s)) xs s"

text \<open>\<^verbatim>\<open>PartialEq for HashSet\<close>: equal lengths, and every element of the one is in the other.\<close>

definition hs_eq :: "'a hash_set \<Rightarrow> 'a hash_set \<Rightarrow> bool" where
  "hs_eq s t \<longleftrightarrow> hs_len s = hs_len t \<and> list_all (hs_contains t) (hs_iter s)"

definition hs_set :: "'a hash_set \<Rightarrow> 'a set" where
  "hs_set s = set (hs_iter s)"

lemma hs_iter_distinct [simp]: "distinct (hs_iter s)"
  by (simp add: hs_iter_def)

lemma set_hs_iter: "set (hs_iter s) = hs_set s"
  by (simp add: hs_set_def)

lemma hs_contains_iff: "hs_contains s x \<longleftrightarrow> x \<in> hs_set s"
  by (simp add: hs_contains_def hs_set_def hs_iter_def Dlist.member_def)

lemma hs_set_new [view_simps]: "hs_set hs_new = {}"
  by (simp add: hs_new_def hs_set_def hs_iter_def)

lemma hs_set_insert [view_simps]: "hs_set (snd (hs_insert x s)) = insert x (hs_set s)"
  by (simp add: hs_insert_def hs_set_def hs_iter_def)

lemma hs_insert_new: "fst (hs_insert x s) \<longleftrightarrow> x \<notin> hs_set s"
  by (simp add: hs_insert_def hs_contains_iff)

lemma hs_set_extend [view_simps]: "hs_set (hs_extend xs s) = hs_set s \<union> set xs"
  unfolding hs_extend_def by (induction xs arbitrary: s) (auto simp: view_simps)

lemma hs_len_card: "hs_len s = card (hs_set s)"
  by (simp add: hs_len_def hs_set_def distinct_card)

lemma finite_hs_set [simp]: "finite (hs_set s)"
  by (simp add: hs_set_def)

lemma hs_eq_iff: "hs_eq s t \<longleftrightarrow> hs_set s = hs_set t"
proof
  assume "hs_eq s t"
  then have "hs_set s \<subseteq> hs_set t" "card (hs_set s) = card (hs_set t)"
    by (auto simp: hs_eq_def hs_len_card list_all_iff hs_contains_iff hs_set_def)
  then show "hs_set s = hs_set t" by (intro card_subset_eq) auto
next
  assume "hs_set s = hs_set t"
  then show "hs_eq s t"
    by (auto simp: hs_eq_def hs_len_card list_all_iff hs_contains_iff hs_set_def)
qed

end
