(* ===== verification/CvRDT.thy ===== *)
theory CvRDT
  imports Prelude
begin

section \<open>The trait CvRDT and what follows from its laws\<close>

text \<open>
  \<^verbatim>\<open>crates/crdt-core/src/traits.rs\<close> declares the trait with one method, \<^verbatim>\<open>merge\<close>, which is
  to take the least upper bound of two states. The locale \<open>cvrdt\<close> states that contract: \<open>valid\<close> are
  the states it is promised for, \<open>eqv\<close> is the \<open>==\<close> of the implementing type (the property tests
  of the crate compare with it), and merge is commutative, associative and idempotent up to
  \<open>eqv\<close>. Inside the locale the laws yield the order of states, the least upper bound property
  the trait's comment promises, and the convergence of replicas: folding the same set of received states, in
  any order and with any repetition, ends in equal states, and after any schedule of pushes
  a node holds the join of exactly the initial states it has heard of. Every implementor of the
  trait interprets the locale in its own theory.
\<close>

text \<open>\<open>s\<close> is below \<open>t\<close> when merging it into \<open>t\<close>'s information changes nothing.\<close>

definition merge_le :: "('s \<Rightarrow> 's \<Rightarrow> bool) \<Rightarrow> ('s \<Rightarrow> 's \<Rightarrow> 's) \<Rightarrow> 's \<Rightarrow> 's \<Rightarrow> bool" where
  "merge_le eqv merge s t \<longleftrightarrow> eqv (merge s t) t"

text \<open>\<open>u\<close> is the least upper bound of the states \<open>X\<close> among the states \<open>valid\<close>.\<close>

definition is_join ::
  "('s \<Rightarrow> bool) \<Rightarrow> ('s \<Rightarrow> 's \<Rightarrow> bool) \<Rightarrow> ('s \<Rightarrow> 's \<Rightarrow> 's) \<Rightarrow> 's set \<Rightarrow> 's \<Rightarrow> bool" where
  "is_join valid eqv merge X u \<longleftrightarrow>
     valid u \<and> (\<forall>x\<in>X. merge_le eqv merge x u) \<and>
     (\<forall>v. valid v \<longrightarrow> (\<forall>x\<in>X. merge_le eqv merge x v) \<longrightarrow> merge_le eqv merge u v)"

text \<open>A replica that merges a list of received states into its own, one after the other.\<close>

definition absorb :: "('s \<Rightarrow> 's \<Rightarrow> 's) \<Rightarrow> 's \<Rightarrow> 's list \<Rightarrow> 's" where
  "absorb merge s xs = foldl merge s xs"

text \<open>
  A schedule of pushes \<open>(i, j)\<close>: node \<open>i\<close> sends its current state, node \<open>j\<close> merges it.
  \<open>heard\<close> records which initial states a node's state has been made of.
\<close>

fun gossip :: "('s \<Rightarrow> 's \<Rightarrow> 's) \<Rightarrow> ('n \<times> 'n) list \<Rightarrow> ('n \<Rightarrow> 's) \<Rightarrow> 'n \<Rightarrow> 's" where
  "gossip merge [] f = f"
| "gossip merge ((i, j) # es) f = gossip merge es (f(j := merge (f j) (f i)))"

fun heard :: "('n \<times> 'n) list \<Rightarrow> ('n \<Rightarrow> 'n set) \<Rightarrow> 'n \<Rightarrow> 'n set" where
  "heard [] K = K"
| "heard ((i, j) # es) K = heard es (K(j := K j \<union> K i))"

lemma heard_mono: "K j \<subseteq> heard es K j"
proof (induction es arbitrary: K)
  case (Cons e es)
  obtain i k where e: "e = (i, k)" by (cases e)
  have "K j \<subseteq> (K(k := K k \<union> K i)) j" by simp
  also have "\<dots> \<subseteq> heard es (K(k := K k \<union> K i)) j" by (rule Cons.IH)
  finally show ?case by (simp add: e)
qed simp

lemma heard_direct:
  "x \<in> K i \<Longrightarrow> (i, j) \<in> set es \<Longrightarrow> x \<in> heard es K j"
proof (induction es arbitrary: K)
  case (Cons e es)
  obtain k l where e: "e = (k, l)" by (cases e)
  let ?K = "K(l := K l \<union> K k)"
  show ?case
  proof (cases "(k, l) = (i, j)")
    case True
    then have "x \<in> ?K j" using Cons.prems(1) by simp
    then show ?thesis using heard_mono [of ?K j es] by (auto simp: e)
  next
    case False
    moreover have "x \<in> ?K i" using Cons.prems(1) by auto
    ultimately show ?thesis using Cons e by (auto simp del: fun_upd_apply)
  qed
qed simp

lemma heard_append: "heard (es @ fs) K = heard fs (heard es K)"
  by (induction es K rule: heard.induct) (simp_all del: fun_upd_apply)

text \<open>A round is a list of pushes that is gone through again and again; after \<open>r\<close> rounds a node has heard
  of every node that reaches it along at most \<open>r\<close> of the edges, in whatever order the round takes them.\<close>

definition rounds :: "nat \<Rightarrow> 'a list \<Rightarrow> 'a list" where
  "rounds r es = concat (replicate r es)"

lemma set_rounds: "set (rounds r es) \<subseteq> set es"
  by (induction r) (auto simp: rounds_def)

lemma length_rounds [simp]: "length (rounds r es) = r * length es"
  by (induction r) (simp_all add: rounds_def)

lemma heard_rounds:
  "k \<le> r \<Longrightarrow> (i, j) \<in> set es ^^ k \<Longrightarrow> x \<in> K i \<Longrightarrow> x \<in> heard (rounds r es) K j"
proof (induction r arbitrary: k i K)
  case 0
  then show ?case by (simp add: rounds_def)
next
  case (Suc r)
  have split: "heard (rounds (Suc r) es) K = heard (rounds r es) (heard es K)"
    by (simp add: rounds_def heard_append)
  show ?case
  proof (cases k)
    case 0
    then have "x \<in> heard es K j" using Suc.prems heard_mono [of K j es] by auto
    then show ?thesis unfolding split using heard_mono [of "heard es K" j "rounds r es"] by blast
  next
    case (Suc k')
    then obtain m where "(i, m) \<in> set es" "(m, j) \<in> set es ^^ k'"
      using Suc.prems(2) by (metis relpow_Suc_D2)
    moreover from this Suc.prems(3) have "x \<in> heard es K m" by (intro heard_direct)
    ultimately show ?thesis unfolding split using Suc Suc.prems(1) by (intro Suc.IH) auto
  qed
qed

lemma heard_within:
  "\<forall>(i, j)\<in>set es. i \<in> V \<Longrightarrow> \<forall>n\<in>V. K n \<subseteq> V \<Longrightarrow> j \<in> V \<Longrightarrow> heard es K j \<subseteq> V"
proof (induction es arbitrary: K)
  case (Cons e es)
  obtain k l where e: "e = (k, l)" by (cases e)
  have "\<forall>n\<in>V. (K(l := K l \<union> K k)) n \<subseteq> V" using Cons.prems e by auto
  then show ?case using Cons e by auto
qed simp

text \<open>When every node of \<open>V\<close> reaches every other along at most \<open>r\<close> edges, all of them have heard of the
  same states after \<open>r\<close> rounds.\<close>

lemma heard_all:
  assumes "\<forall>(i, j)\<in>set es. i \<in> V" "\<forall>i\<in>V. \<forall>j\<in>V. \<exists>k\<le>r. (i, j) \<in> set es ^^ k" "j \<in> V"
  shows "heard (rounds r es) (\<lambda>n. {n}) j = V"
proof
  show "heard (rounds r es) (\<lambda>n. {n}) j \<subseteq> V"
    using assms set_rounds [of r es] by (intro heard_within) auto
  show "V \<subseteq> heard (rounds r es) (\<lambda>n. {n}) j"
  proof
    fix i assume "i \<in> V"
    then obtain k where "k \<le> r" "(i, j) \<in> set es ^^ k" using assms by blast
    then show "i \<in> heard (rounds r es) (\<lambda>n. {n}) j" by (rule heard_rounds) simp
  qed
qed

text \<open>A part of the state that merge unites: a node has the union over the states it has heard of.\<close>

lemma gossip_union:
  assumes part: "\<And>s t. part (merge s t) = part s \<union> part t"
  shows "\<forall>n. part (f n) = (\<Union>k\<in>K n. A k) \<Longrightarrow> part (gossip merge es f n) = (\<Union>k\<in>heard es K n. A k)"
proof (induction es arbitrary: f K)
  case (Cons e es)
  obtain i j where e: "e = (i, j)" by (cases e)
  have "\<forall>n. part ((f(j := merge (f j) (f i))) n) = (\<Union>k\<in>(K(j := K j \<union> K i)) n. A k)"
    using Cons.prems by (simp add: part UN_Un)
  then show ?case using Cons.IH by (simp add: e)
qed simp

locale cvrdt =
  fixes valid :: "'s \<Rightarrow> bool"
    and eqv :: "'s \<Rightarrow> 's \<Rightarrow> bool"
    and merge :: "'s \<Rightarrow> 's \<Rightarrow> 's"
  assumes eqv_refl: "eqv s s"
    and eqv_sym: "eqv s t \<Longrightarrow> eqv t s"
    and eqv_trans [trans]: "eqv s t \<Longrightarrow> eqv t u \<Longrightarrow> eqv s u"
    and merge_valid: "valid s \<Longrightarrow> valid t \<Longrightarrow> valid (merge s t)"
    and merge_cong: "valid s \<Longrightarrow> valid s' \<Longrightarrow> valid t \<Longrightarrow> valid t' \<Longrightarrow> eqv s s' \<Longrightarrow> eqv t t' \<Longrightarrow>
          eqv (merge s t) (merge s' t')"
    and merge_comm: "valid s \<Longrightarrow> valid t \<Longrightarrow> eqv (merge s t) (merge t s)"
    and merge_assoc: "valid s \<Longrightarrow> valid t \<Longrightarrow> valid u \<Longrightarrow> eqv (merge (merge s t) u) (merge s (merge t u))"
    and merge_idem: "valid s \<Longrightarrow> eqv (merge s s) s"
begin

abbreviation le where "le \<equiv> merge_le eqv merge"

abbreviation join_of where "join_of \<equiv> is_join valid eqv merge"

lemma cong1: "valid s \<Longrightarrow> valid s' \<Longrightarrow> valid t \<Longrightarrow> eqv s s' \<Longrightarrow> eqv (merge s t) (merge s' t)"
  by (rule merge_cong) (simp_all add: eqv_refl)

lemma cong2: "valid s \<Longrightarrow> valid t \<Longrightarrow> valid t' \<Longrightarrow> eqv t t' \<Longrightarrow> eqv (merge s t) (merge s t')"
  by (rule merge_cong) (simp_all add: eqv_refl)

lemma le_of_eqv:
  assumes valid: "valid s" "valid t" and "eqv s t"
  shows "le s t"
proof -
  have "eqv (merge s t) (merge t t)" using assms by (simp add: cong1)
  also have "eqv (merge t t) t" using valid by (simp add: merge_idem)
  finally show ?thesis by (simp add: merge_le_def)
qed

lemma le_refl: "valid s \<Longrightarrow> le s s"
  by (simp add: merge_le_def merge_idem)

lemma le_trans:
  assumes valid: "valid s" "valid t" "valid u" and st: "le s t" and tu: "le t u"
  shows "le s u"
proof -
  have "eqv (merge s u) (merge s (merge t u))"
    using valid tu by (simp add: merge_le_def cong2 eqv_sym merge_valid)
  also have "eqv (merge s (merge t u)) (merge (merge s t) u)"
    using valid by (simp add: merge_assoc eqv_sym)
  also have "eqv (merge (merge s t) u) (merge t u)"
    using valid st by (simp add: merge_le_def cong1 merge_valid)
  also have "eqv (merge t u) u" using tu by (simp add: merge_le_def)
  finally show ?thesis by (simp add: merge_le_def)
qed

lemma le_antisym:
  assumes valid: "valid s" "valid t" and st: "le s t" and ts: "le t s"
  shows "eqv s t"
proof -
  have "eqv s (merge t s)" using ts by (simp add: merge_le_def eqv_sym)
  also have "eqv (merge t s) (merge s t)" using valid by (simp add: merge_comm)
  also have "eqv (merge s t) t" using st by (simp add: merge_le_def)
  finally show ?thesis .
qed

lemma merge_ub1:
  assumes valid: "valid s" "valid t"
  shows "le s (merge s t)"
proof -
  have "eqv (merge s (merge s t)) (merge (merge s s) t)"
    using valid by (simp add: merge_assoc eqv_sym)
  also have "eqv (merge (merge s s) t) (merge s t)"
    using valid by (simp add: cong1 merge_valid merge_idem)
  finally show ?thesis by (simp add: merge_le_def)
qed

lemma merge_ub2:
  assumes valid: "valid s" "valid t"
  shows "le t (merge s t)"
proof (rule le_trans)
  show "le t (merge t s)" using valid by (simp add: merge_ub1)
  show "le (merge t s) (merge s t)" using valid by (simp add: le_of_eqv merge_valid merge_comm)
qed (use valid in \<open>simp_all add: merge_valid\<close>)

lemma merge_least:
  assumes valid: "valid s" "valid t" "valid u" and le: "le s u" "le t u"
  shows "le (merge s t) u"
proof -
  have "eqv (merge (merge s t) u) (merge s (merge t u))" using valid by (rule merge_assoc)
  also have "eqv (merge s (merge t u)) (merge s u)"
    using valid le by (simp add: merge_le_def cong2 merge_valid)
  also have "eqv (merge s u) u" using le by (simp add: merge_le_def)
  finally show ?thesis by (simp add: merge_le_def)
qed

lemma merge_absorbs:
  assumes valid: "valid s" "valid t" and "le t s"
  shows "eqv (merge s t) s"
proof -
  have "eqv (merge s t) (merge t s)" using valid by (rule merge_comm)
  also have "eqv (merge t s) s" using assms by (simp add: merge_le_def)
  finally show ?thesis .
qed

lemma join_unique:
  "join_of X u \<Longrightarrow> join_of X v \<Longrightarrow> eqv u v"
  unfolding is_join_def by (blast intro: le_antisym)

lemma join_singleton: "valid s \<Longrightarrow> join_of {s} s"
  by (simp add: is_join_def le_refl)

lemma join_merge:
  assumes "join_of X u" "join_of Y v" "\<forall>x\<in>X \<union> Y. valid x"
  shows "join_of (X \<union> Y) (merge u v)"
proof -
  have valid: "valid u" "valid v" and ub: "\<forall>x\<in>X. le x u" "\<forall>y\<in>Y. le y v"
    using assms by (simp_all add: is_join_def)
  have "le x (merge u v)" if "x \<in> X \<union> Y" for x
  proof -
    have "valid x" "valid (merge u v)" using that assms(3) valid by (auto intro: merge_valid)
    then show ?thesis
      using that ub valid le_trans [of x u "merge u v"] le_trans [of x v "merge u v"]
        merge_ub1 [of u v] merge_ub2 [of u v] by auto
  qed
  moreover have "le (merge u v) w" if "valid w" "\<forall>x\<in>X \<union> Y. le x w" for w
    using that assms valid by (simp add: is_join_def merge_least)
  ultimately show ?thesis using valid by (simp add: is_join_def merge_valid)
qed

lemma absorb_join:
  "valid s \<Longrightarrow> \<forall>x\<in>set xs. valid x \<Longrightarrow> join_of (insert s (set xs)) (absorb merge s xs)"
proof (induction xs rule: rev_induct)
  case Nil
  then show ?case by (simp add: absorb_def join_singleton)
next
  case (snoc x xs)
  then have "join_of (insert s (set xs) \<union> {x}) (merge (absorb merge s xs) x)"
    by (intro join_merge) (auto simp: join_singleton)
  moreover have "insert s (set xs) \<union> {x} = insert s (set (xs @ [x]))" by auto
  ultimately show ?case by (simp add: absorb_def)
qed

lemma absorb_valid: "valid s \<Longrightarrow> \<forall>x\<in>set xs. valid x \<Longrightarrow> valid (absorb merge s xs)"
  using absorb_join by (auto simp: is_join_def)

text \<open>Convergence of two replicas that have seen the same states, in whatever order and however
  often each of them was delivered.\<close>

lemma absorb_converge:
  assumes "valid s" "valid t" "\<forall>x\<in>set xs. valid x" "\<forall>y\<in>set ys. valid y"
    and "insert s (set xs) = insert t (set ys)"
  shows "eqv (absorb merge s xs) (absorb merge t ys)"
  using absorb_join [of s xs] absorb_join [of t ys] assms by (simp add: join_unique)

lemma gossip_join:
  "\<forall>n. valid (f n) \<and> join_of (g ` K n) (f n) \<Longrightarrow> \<forall>n. valid (g n) \<Longrightarrow>
   join_of (g ` heard es K n) (gossip merge es f n)"
proof (induction es arbitrary: f K)
  case Nil
  then show ?case by simp
next
  case (Cons e es)
  obtain i j where e: "e = (i, j)" by (cases e)
  have "join_of (g ` K j \<union> g ` K i) (merge (f j) (f i))"
    using Cons.prems by (intro join_merge) auto
  then have "\<forall>n. valid ((f(j := merge (f j) (f i))) n) \<and>
      join_of (g ` (K(j := K j \<union> K i)) n) ((f(j := merge (f j) (f i))) n)"
    using Cons.prems by (auto simp: image_Un merge_valid)
  with Cons.IH Cons.prems(2) e show ?case by simp
qed

text \<open>After any schedule of pushes, two nodes that have heard of the same initial states are equal.\<close>

lemma gossip_converge:
  assumes "\<forall>n. valid (f n)" "heard es (\<lambda>n. {n}) i = heard es (\<lambda>n. {n}) j"
  shows "eqv (gossip merge es f i) (gossip merge es f j)"
proof -
  have "join_of (f ` heard es (\<lambda>n. {n}) n) (gossip merge es f n)" for n
    using assms(1) by (intro gossip_join) (auto simp: join_singleton)
  then show ?thesis using assms(2) join_unique by metis
qed

end

text \<open>
  The usual way to meet the contract: a view of the state (the lookup function of a map, the
  contents of a set), on which merge acts as a join. \<open>eqv\<close> compares views.
\<close>

locale cvrdt_view =
  fixes valid :: "'s \<Rightarrow> bool"
    and view :: "'s \<Rightarrow> 'a"
    and merge :: "'s \<Rightarrow> 's \<Rightarrow> 's"
    and join :: "'a \<Rightarrow> 'a \<Rightarrow> 'a"
  assumes view_merge: "valid s \<Longrightarrow> valid t \<Longrightarrow> view (merge s t) = join (view s) (view t)"
    and valid_merge: "valid s \<Longrightarrow> valid t \<Longrightarrow> valid (merge s t)"
    and join_comm: "valid s \<Longrightarrow> valid t \<Longrightarrow> join (view s) (view t) = join (view t) (view s)"
    and join_assoc: "valid s \<Longrightarrow> valid t \<Longrightarrow> valid u \<Longrightarrow>
          join (join (view s) (view t)) (view u) = join (view s) (join (view t) (view u))"
    and join_idem: "valid s \<Longrightarrow> join (view s) (view s) = view s"

sublocale cvrdt_view \<subseteq> cvrdt valid "\<lambda>s t. view s = view t" merge
  by unfold_locales
    (simp_all add: view_merge valid_merge join_idem, simp_all add: join_comm join_assoc)

subsection \<open>Merging settles\<close>

text \<open>
  How often a replica changes while it merges a list of states. When the states have a size that every
  change makes larger, the number of changes is bounded by the size of any upper bound of what is merged: merging
  the states of a group that is not edited any more comes to an end, however long they are exchanged.
\<close>

fun changes :: "('s \<Rightarrow> 's \<Rightarrow> bool) \<Rightarrow> ('s \<Rightarrow> 's \<Rightarrow> 's) \<Rightarrow> 's \<Rightarrow> 's list \<Rightarrow> nat" where
  "changes eqv merge s [] = 0"
| "changes eqv merge s (x # xs) =
     (if eqv (merge s x) s then 0 else 1) + changes eqv merge (merge s x) xs"

locale cvrdt_sized = cvrdt valid eqv merge
  for valid :: "'s \<Rightarrow> bool" and eqv :: "'s \<Rightarrow> 's \<Rightarrow> bool" and merge :: "'s \<Rightarrow> 's \<Rightarrow> 's" +
  fixes extent :: "'s \<Rightarrow> nat"
  assumes extent_eqv: "eqv s t \<Longrightarrow> extent s = extent t"
    and extent_grows: "valid s \<Longrightarrow> valid t \<Longrightarrow> \<not> eqv (merge s t) s \<Longrightarrow> extent s < extent (merge s t)"
begin

lemma extent_merge: "valid s \<Longrightarrow> valid t \<Longrightarrow> extent s \<le> extent (merge s t)"
  using extent_eqv extent_grows by (metis order.strict_implies_order order_refl)

lemma extent_mono: "valid s \<Longrightarrow> valid u \<Longrightarrow> le s u \<Longrightarrow> extent s \<le> extent u"
  using extent_merge [of s u] extent_eqv by (simp add: merge_le_def)

lemma changes_extent:
  "valid s \<Longrightarrow> \<forall>x\<in>set xs. valid x \<Longrightarrow>
   extent s + changes eqv merge s xs \<le> extent (absorb merge s xs)"
proof (induction xs arbitrary: s)
  case (Cons x xs)
  have "extent (merge s x) + changes eqv merge (merge s x) xs \<le> extent (absorb merge (merge s x) xs)"
    using Cons.prems by (intro Cons.IH) (auto intro: merge_valid)
  moreover have "extent s + (if eqv (merge s x) s then 0 else 1) \<le> extent (merge s x)"
    using Cons.prems extent_grows [of s x] extent_merge [of s x] by auto
  ultimately show ?case by (simp add: absorb_def)
qed (simp add: absorb_def)

lemma changes_bounded:
  assumes "valid s" "\<forall>x\<in>set xs. valid x" "valid u" "le s u" "\<forall>x\<in>set xs. le x u"
  shows "changes eqv merge s xs \<le> extent u"
proof -
  have join: "join_of (insert s (set xs)) (absorb merge s xs)" using assms(1,2) by (rule absorb_join)
  then have "le (absorb merge s xs) u" using assms unfolding is_join_def by blast
  moreover have "valid (absorb merge s xs)" using join by (simp add: is_join_def)
  ultimately have "extent (absorb merge s xs) \<le> extent u" using assms(3) by (intro extent_mono)
  then show ?thesis using changes_extent [OF assms(1,2)] by simp
qed

end

end
