(* ===== verification/Clock.thy ===== *)
theory Clock
  imports Prelude
begin

section \<open>Clock primitives\<close>

text \<open>
  \<^verbatim>\<open>crates/crdt-core/src/clock.rs\<close>: replica identifiers and dots. \<^verbatim>\<open>Dot\<close> derives \<^verbatim>\<open>Ord\<close>, which
  compares the fields in the order they are declared: first the counter, then the replica.
\<close>

type_synonym replica_id = u64

datatype dot = Dot (dot_counter: u64) (dot_replica: replica_id)

definition dot_new :: "replica_id \<Rightarrow> u64 \<Rightarrow> dot" where
  "dot_new replica counter = Dot counter replica"

text \<open>The derived \<^verbatim>\<open>PartialOrd\<close> and \<^verbatim>\<open>Ord\<close> compare the fields in the order of their declaration: the counter
  first, then the replica.\<close>

definition dot_le :: "dot \<Rightarrow> dot \<Rightarrow> bool" where
  "dot_le d e \<longleftrightarrow> dot_counter d < dot_counter e \<or>
     dot_counter d = dot_counter e \<and> dot_replica d \<le> dot_replica e"

definition dot_lt :: "dot \<Rightarrow> dot \<Rightarrow> bool" where
  "dot_lt d e \<longleftrightarrow> dot_counter d < dot_counter e \<or>
     dot_counter d = dot_counter e \<and> dot_replica d < dot_replica e"

instantiation dot :: linorder
begin

definition less_eq_dot :: "dot \<Rightarrow> dot \<Rightarrow> bool" where
  "less_eq_dot = dot_le"

definition less_dot :: "dot \<Rightarrow> dot \<Rightarrow> bool" where
  "less_dot = dot_lt"

instance
  by standard (auto simp: less_eq_dot_def less_dot_def dot_le_def dot_lt_def intro: dot.expand)

end

text \<open>Two dots of different replicas are never equal, whatever their counters; dots of one
  replica are ordered by their counters.\<close>

lemma dot_new_inject [simp]: "dot_new r c = dot_new r' c' \<longleftrightarrow> r = r' \<and> c = c'"
  by (auto simp: dot_new_def)

lemma dot_new_less: "dot_new r c < dot_new r' c' \<longleftrightarrow> c < c' \<or> c = c' \<and> r < r'"
  by (simp add: dot_new_def less_dot_def dot_lt_def)

end
