(* ===== verification/GCounter.thy ===== *)
theory GCounter
  imports Collections CvRDT Clock
begin

section \<open>The grow-only counter\<close>

text \<open>
  \<^verbatim>\<open>crates/crdt-core/src/counter.rs\<close>. A counter is a map from replicas to their own counts. Adding to
  a count and summing the counts are checked for overflow in a debug build and wrap in a release
  build, so both are modelled with their panics. \<open>gc_total\<close> is the specification of the value:
  the sum of all counts as a natural number.
\<close>

record gcounter =
  counts :: "(replica_id, u64) hash_map"

definition gc_new :: gcounter where
  "gc_new = \<lparr>counts = hm_new\<rparr>"

definition gc_increment :: "build \<Rightarrow> replica_id \<Rightarrow> u64 \<Rightarrow> (gcounter, unit) run" where
  "gc_increment b replica n c =
     (let (entry, m) = hm_or_insert replica 0 (counts c)
      in case add_unsigned b entry n of
           Inl e \<Rightarrow> (Inl e, c\<lparr>counts := m\<rparr>)
         | Inr v \<Rightarrow> (Inr (), c\<lparr>counts := hm_insert replica v m\<rparr>))"

text \<open>\<^verbatim>\<open>Iterator::sum\<close> over \<^verbatim>\<open>u64\<close>: additions from left to right, starting at zero.\<close>

fun sum_u64 :: "build \<Rightarrow> u64 \<Rightarrow> u64 list \<Rightarrow> panic + u64" where
  "sum_u64 b acc [] = Inr acc"
| "sum_u64 b acc (x # xs) =
     (case add_unsigned b acc x of Inl e \<Rightarrow> Inl e | Inr acc' \<Rightarrow> sum_u64 b acc' xs)"

definition gc_value :: "build \<Rightarrow> gcounter \<Rightarrow> panic + u64" where
  "gc_value b c = sum_u64 b 0 (hm_values (counts c))"

definition gc_replica_count :: "gcounter \<Rightarrow> nat" where
  "gc_replica_count c = hm_len (counts c)"

definition gc_merge_entry ::
  "replica_id \<times> u64 \<Rightarrow> (replica_id, u64) hash_map \<Rightarrow> (replica_id, u64) hash_map" where
  "gc_merge_entry e m = (case e of (replica, count) \<Rightarrow> hm_entry replica 0 (\<lambda>v. max v count) m)"

definition gc_merge :: "gcounter \<Rightarrow> gcounter \<Rightarrow> gcounter" where
  "gc_merge self other = self\<lparr>counts := fold gc_merge_entry (hm_iter (counts other)) (counts self)\<rparr>"

text \<open>The derived \<open>==\<close>.\<close>

definition gc_eq :: "gcounter \<Rightarrow> gcounter \<Rightarrow> bool" where
  "gc_eq a b \<longleftrightarrow> hm_eq (counts a) (counts b)"

text \<open>The helper \<^verbatim>\<open>build\<close> of the crate's property tests: a counter from a list of increments.\<close>

fun gc_apply :: "build \<Rightarrow> (replica_id \<times> u64) list \<Rightarrow> (gcounter, unit) run" where
  "gc_apply b [] c = (Inr (), c)"
| "gc_apply b ((r, n) # ops) c = and_then (gc_increment b r n) (\<lambda>_. gc_apply b ops) c"

definition gc_build :: "build \<Rightarrow> (replica_id \<times> u64) list \<Rightarrow> (panic + unit) \<times> gcounter" where
  "gc_build b ops = gc_apply b ops gc_new"

subsection \<open>The view of a counter and its total\<close>

definition gc_view :: "gcounter \<Rightarrow> replica_id \<Rightarrow> u64 option" where
  "gc_view c = hm_get (counts c)"

definition gc_count :: "gcounter \<Rightarrow> replica_id \<Rightarrow> nat" where
  "gc_count c r = (case gc_view c r of None \<Rightarrow> 0 | Some n \<Rightarrow> unat n)"

definition gc_total :: "gcounter \<Rightarrow> nat" where
  "gc_total c = (\<Sum>r\<in>UNIV. gc_count c r)"

lemma gc_view_new [view_simps]: "gc_view gc_new = Map.empty"
  by (simp add: gc_view_def gc_new_def view_simps)

interpretation gc_loop: pointwise_loop gc_merge_entry
    "\<lambda>n v. Some (max (case v of None \<Rightarrow> 0 | Some v \<Rightarrow> v) n)"
  by unfold_locales (auto simp: gc_merge_entry_def view_simps)

lemma gc_view_merge [view_simps]: "gc_view (gc_merge s t) r = opt_join max (gc_view s r) (gc_view t r)"
  by (auto simp: gc_view_def gc_merge_def gc_loop.get_fold max_def split: option.split)

lemma gc_count_merge: "gc_count (gc_merge s t) r = max (gc_count s r) (gc_count t r)"
  by (auto simp: gc_count_def view_simps unat_max split: option.split)

lemma gc_eq_view: "gc_eq a b \<longleftrightarrow> gc_view a = gc_view b"
  by (simp add: gc_eq_def gc_view_def hm_eq_iff)

interpretation gc_viewed: cvrdt_view "\<lambda>_. True" gc_view gc_merge
    "\<lambda>f g r. opt_join max (f r) (g r)"
  by unfold_locales (auto simp: fun_eq_iff view_simps opt_join_max_laws(2,3) intro: opt_join_max_laws(1))

interpretation gc: cvrdt "\<lambda>_. True" gc_eq gc_merge
  unfolding gc_eq_view [abs_def] by (rule gc_viewed.cvrdt_axioms)

definition gc_extent :: "gcounter \<Rightarrow> nat" where
  "gc_extent c = card (dom (gc_view c)) + total_of (gc_view c)"

lemma gc_extent_merge:
  "gc_extent s + (if gc_eq (gc_merge s t) s then 0 else 1) \<le> gc_extent (gc_merge s t)"
proof -
  have "gc_view (gc_merge s t) = (\<lambda>r. opt_join max (gc_view s r) (gc_view t r))"
    by (simp add: fun_eq_iff view_simps)
  then show ?thesis
    using counts_grow [of "gc_view s" "gc_view t"] by (simp add: gc_extent_def gc_eq_view)
qed

interpretation gc_sized: cvrdt_sized "\<lambda>_. True" gc_eq gc_merge gc_extent
proof
  fix s t
  show "gc_eq s t \<Longrightarrow> gc_extent s = gc_extent t" by (simp add: gc_eq_view gc_extent_def)
  show "\<not> gc_eq (gc_merge s t) s \<Longrightarrow> gc_extent s < gc_extent (gc_merge s t)"
    using gc_extent_merge [of s t] by simp
qed

subsection \<open>Increment\<close>

lemma gc_count_zero_total: "gc_total gc_new = 0"
  by (simp add: gc_total_def gc_count_def view_simps)

lemma gc_count_upd:
  "gc_view c' = (gc_view c)(r \<mapsto> v) \<Longrightarrow> gc_count c' = (gc_count c)(r := unat v)"
  by (auto simp: gc_count_def fun_eq_iff)

lemma gc_increment_cases:
  "(fst (gc_increment b r n c) = Inr () \<and>
      gc_view (snd (gc_increment b r n c)) =
        (gc_view c)(r \<mapsto> (case gc_view c r of None \<Rightarrow> 0 | Some v \<Rightarrow> v) + n) \<and>
      (gc_count c r + unat n < 2 ^ 64 \<or> b = Release)) \<or>
   (gc_increment b r n c = (Inl ArithmeticOverflow, c) \<and>
      b = Debug \<and> 2 ^ 64 \<le> gc_count c r + unat n)"
proof (cases "gc_view c r")
  case None
  then show ?thesis
    by (simp add: gc_increment_def hm_or_insert_def add_unsigned_def gc_view_def gc_count_def view_simps)
next
  case (Some v)
  then show ?thesis
    by (cases b) (auto simp: gc_increment_def hm_or_insert_def add_unsigned_def gc_view_def gc_count_def view_simps)
qed

lemma gc_increment_fits:
  assumes "gc_count c r + unat n < 2 ^ 64"
  shows "fst (gc_increment b r n c) = Inr ()"
    and "gc_count (snd (gc_increment b r n c)) = (gc_count c)(r := gc_count c r + unat n)"
proof -
  have ok: "fst (gc_increment b r n c) = Inr ()"
    and view: "gc_view (snd (gc_increment b r n c)) =
        (gc_view c)(r \<mapsto> (case gc_view c r of None \<Rightarrow> 0 | Some v \<Rightarrow> v) + n)"
    using gc_increment_cases [of b r n c] assms by auto
  show "fst (gc_increment b r n c) = Inr ()" by (rule ok)
  have "unat ((case gc_view c r of None \<Rightarrow> 0 | Some v \<Rightarrow> v) + n) = gc_count c r + unat n"
    using assms by (auto simp: gc_count_def unat_word_ariths split: option.splits)
  with gc_count_upd [OF view]
  show "gc_count (snd (gc_increment b r n c)) = (gc_count c)(r := gc_count c r + unat n)" by simp
qed

lemma sum_fun_upd:
  fixes f :: "replica_id \<Rightarrow> nat"
  shows "(\<Sum>r\<in>UNIV. (f(k := v)) r) + f k = (\<Sum>r\<in>UNIV. f r) + v"
proof -
  have "(\<Sum>r\<in>UNIV - {k}. (f(k := v)) r) = (\<Sum>r\<in>UNIV - {k}. f r)"
    by (intro sum.cong) auto
  then show ?thesis
    using sum.remove [of UNIV k f] sum.remove [of UNIV k "f(k := v)"] by simp
qed

lemma gc_increment_total:
  assumes "gc_count c r + unat n < 2 ^ 64"
  shows "gc_total (snd (gc_increment b r n c)) = gc_total c + unat n"
  using sum_fun_upd [of "gc_count c" r "gc_count c r + unat n"]
  by (simp add: gc_total_def gc_increment_fits(2) [OF assms])

subsection \<open>The value\<close>

lemma sum_u64_spec:
  "sum_u64 b acc xs =
     (if unat acc + sum_list (map unat xs) < 2 ^ 64 \<or> b = Release
      then Inr (of_nat (unat acc + sum_list (map unat xs))) else Inl ArithmeticOverflow)"
proof (induction xs arbitrary: acc)
  case Nil
  then show ?case by simp
next
  case (Cons x xs)
  have sum: "unat acc + sum_list (map unat (x # xs)) = unat acc + unat x + sum_list (map unat xs)"
    by simp
  show ?case
  proof (cases "unat acc + unat x < 2 ^ 64")
    case True
    then have "sum_u64 b acc (x # xs) = sum_u64 b (acc + x) xs"
      by (simp add: add_unsigned_def)
    moreover have "unat (acc + x) = unat acc + unat x"
      using True add_unsigned_fits(2) [of acc x] by simp
    ultimately show ?thesis unfolding sum by (simp only: Cons.IH)
  next
    case False
    show ?thesis
    proof (cases b)
      case Debug
      with False show ?thesis by (simp add: add_unsigned_def)
    next
      case Release
      then have "add_unsigned b acc x = Inr (acc + x)" by (simp add: add_unsigned_Release)
      then have "sum_u64 b acc (x # xs) = sum_u64 b (acc + x) xs" by simp
      also have "\<dots> = Inr (of_nat (unat (acc + x) + sum_list (map unat xs)))"
        unfolding Cons.IH using Release by simp
      also have "\<dots> = Inr (of_nat (unat acc + sum_list (map unat (x # xs))))" by simp
      finally show ?thesis using Release by simp
    qed
  qed
qed

lemma sum_list_values: "sum_list (map unat (hm_values (counts c))) = gc_total c"
proof -
  have "gc_total c = (\<Sum>r\<in>dom (gc_view c). gc_count c r)"
    unfolding gc_total_def
    by (intro sum.mono_neutral_right) (auto simp: gc_count_def split: option.splits)
  also have "\<dots> = (\<Sum>r\<in>set (hm_keys (counts c)). gc_count c r)"
    by (simp add: set_hm_keys gc_view_def)
  also have "\<dots> = sum_list (map (gc_count c) (hm_keys (counts c)))"
    by (simp add: sum_list_distinct_conv_sum_set)
  also have "\<dots> = sum_list (map unat (hm_values (counts c)))"
    unfolding hm_keys_def hm_values_def map_map
    by (intro arg_cong [where f = sum_list] map_cong)
      (auto simp: gc_count_def gc_view_def hm_iter_iff)
  finally show ?thesis ..
qed

lemma gc_value_eq:
  "gc_value b c =
     (if gc_total c < 2 ^ 64 \<or> b = Release then Inr (of_nat (gc_total c)) else Inl ArithmeticOverflow)"
  by (simp add: gc_value_def sum_u64_spec sum_list_values)

subsection \<open>Runs of increments\<close>

definition ops_sum :: "(replica_id \<times> u64) list \<Rightarrow> nat" where
  "ops_sum ops = sum_list (map (unat \<circ> snd) ops)"

definition ops_at :: "replica_id \<Rightarrow> (replica_id \<times> u64) list \<Rightarrow> nat" where
  "ops_at r ops = ops_sum (filter (\<lambda>e. fst e = r) ops)"

lemma gc_count_le_total: "gc_count c r \<le> gc_total c"
  unfolding gc_total_def by (rule member_le_sum) auto

lemma gc_apply_fits:
  "gc_total c + ops_sum ops < 2 ^ 64 \<Longrightarrow>
     fst (gc_apply b ops c) = Inr () \<and>
     gc_total (snd (gc_apply b ops c)) = gc_total c + ops_sum ops \<and>
     (\<forall>r. gc_count (snd (gc_apply b ops c)) r = gc_count c r + ops_at r ops)"
proof (induction ops arbitrary: c)
  case Nil
  then show ?case by (simp add: ops_sum_def ops_at_def)
next
  case (Cons e ops)
  obtain r n where e: "e = (r, n)" by (cases e)
  have fits: "gc_count c r + unat n < 2 ^ 64"
    using Cons.prems gc_count_le_total [of c r] by (simp add: e ops_sum_def)
  obtain c' where c': "gc_increment b r n c = (Inr (), c')"
    using gc_increment_fits(1) [OF fits, of b] by (cases "gc_increment b r n c") auto
  have "gc_total c' = gc_total c + unat n" and "gc_count c' = (gc_count c)(r := gc_count c r + unat n)"
    using gc_increment_total [OF fits, of b] gc_increment_fits(2) [OF fits, of b] by (simp_all add: c')
  with Cons.prems Cons.IH [of c'] show ?case
    by (auto simp: e c' ops_sum_def ops_at_def)
qed

lemma gc_total_merge_le: "gc_total (gc_merge s t) \<le> gc_total s + gc_total t"
  unfolding gc_total_def sum.distrib [symmetric] by (rule sum_mono) (simp add: gc_count_merge)

lemma gc_total_merge_ge: "gc_total s \<le> gc_total (gc_merge s t)" "gc_total t \<le> gc_total (gc_merge s t)"
  unfolding gc_total_def by (rule sum_mono, simp add: gc_count_merge)+

lemma ops_at_notin: "r \<notin> fst ` set ops \<Longrightarrow> ops_at r ops = 0"
  by (induction ops) (auto simp: ops_at_def ops_sum_def)

lemma sum_ops_at: "(\<Sum>r\<in>UNIV. ops_at r ops) = ops_sum ops"
proof (induction ops)
  case Nil
  then show ?case by (simp add: ops_at_def ops_sum_def)
next
  case (Cons e ops)
  have "ops_at r (e # ops) = (if r = fst e then unat (snd e) else 0) + ops_at r ops" for r
    by (auto simp: ops_at_def ops_sum_def)
  with Cons show ?case by (simp add: sum.distrib ops_sum_def)
qed

lemma gc_merge_disjoint_total:
  assumes disjoint: "fst ` set xs \<inter> fst ` set ys = {}"
    and fits: "gc_total c + ops_sum xs + ops_sum ys < 2 ^ 64"
  shows "gc_total (gc_merge (snd (gc_apply b xs c)) (snd (gc_apply b ys c))) =
           gc_total c + ops_sum xs + ops_sum ys"
proof -
  have zero: "ops_at r xs = 0 \<or> ops_at r ys = 0" for r
    using disjoint by (metis disjoint_iff ops_at_notin)
  have xs: "gc_count (snd (gc_apply b xs c)) r = gc_count c r + ops_at r xs"
    and ys: "gc_count (snd (gc_apply b ys c)) r = gc_count c r + ops_at r ys" for r
    using gc_apply_fits [of c xs b] gc_apply_fits [of c ys b] fits by simp_all
  have "gc_count (gc_merge (snd (gc_apply b xs c)) (snd (gc_apply b ys c))) r =
      gc_count c r + (ops_at r xs + ops_at r ys)" for r
    using zero [of r] by (auto simp: gc_count_merge xs ys)
  then show ?thesis by (simp add: gc_total_def sum.distrib sum_ops_at)
qed

subsection \<open>Properties\<close>

text \<open>The value is the sum of all counts: exact whenever that sum fits into 64 bits, and
  otherwise a panic in a debug build and the sum modulo \<open>2 ^ 64\<close> in a release build. It does not
  depend on the order in which the map is iterated.\<close>

theorem gc_value_spec:
  "gc_value b c =
     (if gc_total c < 2 ^ 64 then Inr (of_nat (gc_total c))
      else case b of Debug \<Rightarrow> Inl ArithmeticOverflow | Release \<Rightarrow> Inr (of_nat (gc_total c mod 2 ^ 64)))"
proof -
  have "(of_nat (gc_total c mod 2 ^ 64) :: u64) = of_nat (gc_total c)"
    by (simp add: word_unat_eq_iff unsigned_of_nat take_bit_eq_mod)
  then show ?thesis by (cases b) (simp_all add: gc_value_eq)
qed

text \<open>The merge of G-counters is commutative, associative and idempotent up to the derived
  equality, for all counters, and every two counters are below their merge.\<close>

theorem gc_merge_laws:
  "gc_eq (gc_merge a b) (gc_merge b a) \<and>
   gc_eq (gc_merge (gc_merge a b) c) (gc_merge a (gc_merge b c)) \<and>
   gc_eq (gc_merge a a) a \<and>
   is_join (\<lambda>_. True) gc_eq gc_merge {a, b} (gc_merge a b)"
  using gc.join_merge [OF gc.join_singleton gc.join_singleton, of a b]
  by (simp add: gc.merge_comm gc.merge_assoc gc.merge_idem insert_commute)

text \<open>C29. Two replicas that start from a common counter and add amounts under replica identifiers of
  their own lose nothing when they merge: the value of the merged counter is the common total plus
  both sums, in either build, as long as that fits into 64 bits.\<close>

theorem gc_concurrent_increments:
  assumes "fst ` set xs \<inter> fst ` set ys = {}" and "gc_total c + ops_sum xs + ops_sum ys < 2 ^ 64"
  shows "gc_value b (gc_merge (snd (gc_apply b xs c)) (snd (gc_apply b ys c))) =
           Inr (of_nat (gc_total c + ops_sum xs + ops_sum ys))"
  using gc_merge_disjoint_total [OF assms] assms(2) by (simp add: gc_value_eq)

theorem gc_concurrent_increments_witness:
  "gc_value Debug (gc_merge (snd (gc_apply Debug [(1, 3)] gc_new)) (snd (gc_apply Debug [(2, 4)] gc_new)))
     = Inr 7"
  using gc_concurrent_increments [of "[(1, 3)]" "[(2, 4)]" gc_new Debug]
  by (simp add: gc_count_zero_total ops_sum_def)

end
