(* ===== verification/PNCounter.thy ===== *)
theory PNCounter
  imports GCounter
begin

section \<open>The counter with increments and decrements\<close>

text \<open>
  \<^verbatim>\<open>crates/crdt-core/src/pn_counter.rs\<close>: two G-counters, one of which is subtracted. The value is an
  \<^verbatim>\<open>i128\<close>, modelled as a 128-bit word read as two's complement; its subtraction is checked like
  every other in a debug build.
\<close>

record pn_counter =
  increments :: gcounter
  decrements :: gcounter

definition pn_new :: pn_counter where
  "pn_new = \<lparr>increments = gc_new, decrements = gc_new\<rparr>"

definition pn_increment :: "build \<Rightarrow> replica_id \<Rightarrow> u64 \<Rightarrow> (pn_counter, unit) run" where
  "pn_increment b replica n p =
     (case gc_increment b replica n (increments p) of (r, g) \<Rightarrow> (r, p\<lparr>increments := g\<rparr>))"

definition pn_decrement :: "build \<Rightarrow> replica_id \<Rightarrow> u64 \<Rightarrow> (pn_counter, unit) run" where
  "pn_decrement b replica n p =
     (case gc_increment b replica n (decrements p) of (r, g) \<Rightarrow> (r, p\<lparr>decrements := g\<rparr>))"

type_synonym i128 = "128 word"

definition i128_from :: "u64 \<Rightarrow> i128" where
  "i128_from x = ucast x"

text \<open>The built-in \<open>-\<close> of a signed type.\<close>

definition sub_signed :: "build \<Rightarrow> 'a::len word \<Rightarrow> 'a word \<Rightarrow> panic + 'a word" where
  "sub_signed b x y =
     (if b = Debug \<and> sint (x - y) \<noteq> sint x - sint y then Inl ArithmeticOverflow else Inr (x - y))"

definition pn_value :: "build \<Rightarrow> pn_counter \<Rightarrow> panic + i128" where
  "pn_value b p =
     (case gc_value b (increments p) of
        Inl e \<Rightarrow> Inl e
      | Inr i \<Rightarrow> (case gc_value b (decrements p) of
            Inl e \<Rightarrow> Inl e
          | Inr d \<Rightarrow> sub_signed b (i128_from i) (i128_from d)))"

definition pn_merge :: "pn_counter \<Rightarrow> pn_counter \<Rightarrow> pn_counter" where
  "pn_merge self other =
     self\<lparr>increments := gc_merge (increments self) (increments other),
          decrements := gc_merge (decrements self) (decrements other)\<rparr>"

definition pn_eq :: "pn_counter \<Rightarrow> pn_counter \<Rightarrow> bool" where
  "pn_eq p q \<longleftrightarrow> gc_eq (increments p) (increments q) \<and> gc_eq (decrements p) (decrements q)"

text \<open>The helper \<^verbatim>\<open>build\<close> of the property tests: an operation is a replica, whether it is an
  increment, and an amount.\<close>

fun pn_apply :: "build \<Rightarrow> (replica_id \<times> bool \<times> u64) list \<Rightarrow> (pn_counter, unit) run" where
  "pn_apply b [] p = (Inr (), p)"
| "pn_apply b ((r, is_inc, n) # ops) p =
     and_then (if is_inc then pn_increment b r n else pn_decrement b r n) (\<lambda>_. pn_apply b ops) p"

subsection \<open>Merge\<close>

definition pn_view :: "pn_counter \<Rightarrow> (replica_id \<Rightarrow> u64 option) \<times> (replica_id \<Rightarrow> u64 option)" where
  "pn_view p = (gc_view (increments p), gc_view (decrements p))"

lemma pn_eq_view: "pn_eq p q \<longleftrightarrow> pn_view p = pn_view q"
  by (simp add: pn_eq_def pn_view_def gc_eq_view)

lemma pn_view_merge [view_simps]:
  "pn_view (pn_merge p q) =
     ((\<lambda>r. opt_join max (fst (pn_view p) r) (fst (pn_view q) r)),
      (\<lambda>r. opt_join max (snd (pn_view p) r) (snd (pn_view q) r)))"
  by (simp add: pn_view_def pn_merge_def view_simps fun_eq_iff)

interpretation pn_viewed: cvrdt_view "\<lambda>_. True" pn_view pn_merge
    "\<lambda>f g. ((\<lambda>r. opt_join max (fst f r) (fst g r)), (\<lambda>r. opt_join max (snd f r) (snd g r)))"
  by unfold_locales
    (auto simp: prod_eq_iff fun_eq_iff view_simps opt_join_max_laws(2,3) intro: opt_join_max_laws(1))

interpretation pn: cvrdt "\<lambda>_. True" pn_eq pn_merge
  unfolding pn_eq_view [abs_def] by (rule pn_viewed.cvrdt_axioms)

interpretation pn_sized: cvrdt_sized "\<lambda>_. True" pn_eq pn_merge
    "\<lambda>p. gc_extent (increments p) + gc_extent (decrements p)"
proof
  fix p q
  show "pn_eq p q \<Longrightarrow> gc_extent (increments p) + gc_extent (decrements p) =
      gc_extent (increments q) + gc_extent (decrements q)"
    by (simp add: pn_eq_view pn_view_def gc_extent_def)
  show "\<not> pn_eq (pn_merge p q) p \<Longrightarrow> gc_extent (increments p) + gc_extent (decrements p) <
      gc_extent (increments (pn_merge p q)) + gc_extent (decrements (pn_merge p q))"
    using gc_extent_merge [of "increments p" "increments q"] gc_extent_merge [of "decrements p" "decrements q"]
    by (auto simp: pn_eq_def pn_merge_def split: if_splits)
qed

subsection \<open>The value\<close>

lemma sint_i128_from: "sint (i128_from x) = int (unat x)"
proof -
  have "uint x < 2 ^ 64" using uint_lt2p [of x] by simp
  then show ?thesis
    by (simp add: i128_from_def sint_uint signed_take_bit_eq_take_bit_shift uint_up_ucast is_up
        take_bit_int_eq_self)
qed

lemma sint_i128_diff:
  "sint (i128_from x - i128_from y) = int (unat x) - int (unat y)"
proof -
  have x: "0 \<le> uint x" "uint x < 18446744073709551616"
    and y: "0 \<le> uint y" "uint y < 18446744073709551616"
    using uint_lt2p [of x] uint_lt2p [of y] by simp_all
  have "sint (i128_from x - i128_from y) =
      signed_take_bit 127 (sint (i128_from x) - sint (i128_from y))"
    by (simp add: sint_word_ariths)
  also have "\<dots> = int (unat x) - int (unat y)"
    unfolding sint_i128_from by (intro signed_take_bit_int_eq_self; simp; use x y in linarith)
  finally show ?thesis .
qed

lemma sub_i128: "sub_signed b (i128_from x) (i128_from y) = Inr (i128_from x - i128_from y)"
  by (simp add: sub_signed_def sint_i128_diff sint_i128_from)

lemma pn_value_eq:
  "map_sum id sint (pn_value b p) =
     (if b = Debug \<and> (2 ^ 64 \<le> gc_total (increments p) \<or> 2 ^ 64 \<le> gc_total (decrements p))
      then Inl ArithmeticOverflow
      else Inr (int (gc_total (increments p) mod 2 ^ 64) - int (gc_total (decrements p) mod 2 ^ 64)))"
proof -
  have "unat (of_nat n :: u64) = n mod 2 ^ 64" for n
    by (simp add: unsigned_of_nat take_bit_eq_mod)
  then show ?thesis
    by (cases b) (auto simp: pn_value_def gc_value_eq sub_i128 sint_i128_diff simp del: sint_i128_from)
qed

subsection \<open>Runs of operations\<close>

definition pn_incs :: "(replica_id \<times> bool \<times> u64) list \<Rightarrow> (replica_id \<times> u64) list" where
  "pn_incs ops = map (\<lambda>(r, _, n). (r, n)) (filter (\<lambda>(_, is_inc, _). is_inc) ops)"

definition pn_decs :: "(replica_id \<times> bool \<times> u64) list \<Rightarrow> (replica_id \<times> u64) list" where
  "pn_decs ops = map (\<lambda>(r, _, n). (r, n)) (filter (\<lambda>(_, is_inc, _). \<not> is_inc) ops)"

text \<open>Increments and decrements touch separate counters, so a run is two independent runs.\<close>

lemma pn_apply_split:
  "gc_total (increments p) + ops_sum (pn_incs ops) < 2 ^ 64 \<Longrightarrow>
   gc_total (decrements p) + ops_sum (pn_decs ops) < 2 ^ 64 \<Longrightarrow>
   pn_apply b ops p =
     (Inr (), \<lparr>increments = snd (gc_apply b (pn_incs ops) (increments p)),
               decrements = snd (gc_apply b (pn_decs ops) (decrements p))\<rparr>)"
proof (induction ops arbitrary: p)
  case Nil
  then show ?case by (simp add: pn_incs_def pn_decs_def)
next
  case (Cons e ops)
  obtain r is_inc n where e: "e = (r, is_inc, n)" by (cases e)
  define g where "g = (if is_inc then increments p else decrements p)"
  have fits: "gc_count g r + unat n < 2 ^ 64"
    using Cons.prems gc_count_le_total [of g r]
    by (auto simp: e g_def pn_incs_def pn_decs_def ops_sum_def split: if_splits)
  obtain g' where g': "gc_increment b r n g = (Inr (), g')"
    using gc_increment_fits(1) [OF fits, of b] by (cases "gc_increment b r n g") auto
  have "gc_total g' = gc_total g + unat n"
    using gc_increment_total [OF fits, of b] by (simp add: g')
  with Cons.prems Cons.IH [of "if is_inc then p\<lparr>increments := g'\<rparr> else p\<lparr>decrements := g'\<rparr>"] g'
  show ?case
    by (cases is_inc)
      (simp_all add: e g_def and_then_def pn_increment_def pn_decrement_def pn_incs_def pn_decs_def
        ops_sum_def)
qed

subsection \<open>Properties\<close>

text \<open>C31. The value is the difference of the two sums: a debug build panics exactly when one of the
  sums does not fit into 64 bits, a release build reduces them, and the 128-bit subtraction itself
  neither panics nor wraps, also for negative values.\<close>

theorem pn_value_spec:
  "map_sum id sint (pn_value b p) =
     (if b = Debug \<and> (2 ^ 64 \<le> gc_total (increments p) \<or> 2 ^ 64 \<le> gc_total (decrements p))
      then Inl ArithmeticOverflow
      else Inr (int (gc_total (increments p) mod 2 ^ 64) - int (gc_total (decrements p) mod 2 ^ 64)))"
  by (rule pn_value_eq)

text \<open>Merging PN-counters is commutative, associative and idempotent up to the derived equality
  and gives the least upper bound, for all counters.\<close>

theorem pn_merge_laws:
  "pn_eq (pn_merge a b) (pn_merge b a) \<and>
   pn_eq (pn_merge (pn_merge a b) c) (pn_merge a (pn_merge b c)) \<and>
   pn_eq (pn_merge a a) a \<and>
   is_join (\<lambda>_. True) pn_eq pn_merge {a, b} (pn_merge a b)"
  using pn.join_merge [OF pn.join_singleton pn.join_singleton, of a b]
  by (simp add: pn.merge_comm pn.merge_assoc pn.merge_idem insert_commute)

text \<open>C30. A counter built from a list of increments and decrements shows the sum of the increments
  minus the sum of the decrements, in either build, while both sums fit into 64 bits.\<close>

theorem pn_apply_value:
  assumes "ops_sum (pn_incs ops) < 2 ^ 64" and "ops_sum (pn_decs ops) < 2 ^ 64"
  shows "map_sum id sint (pn_value b (snd (pn_apply b ops pn_new))) =
           Inr (int (ops_sum (pn_incs ops)) - int (ops_sum (pn_decs ops)))"
proof -
  have "pn_apply b ops pn_new =
      (Inr (), \<lparr>increments = snd (gc_apply b (pn_incs ops) gc_new),
                decrements = snd (gc_apply b (pn_decs ops) gc_new)\<rparr>)"
    using pn_apply_split [of pn_new ops b] assms by (simp add: pn_new_def gc_count_zero_total)
  moreover have "gc_total (snd (gc_apply b xs gc_new)) = ops_sum xs" if "ops_sum xs < 2 ^ 64" for xs
    using gc_apply_fits [of gc_new xs b] that by (simp add: gc_count_zero_total)
  ultimately show ?thesis
    using assms pn_value_eq [of b "snd (pn_apply b ops pn_new)"] by simp
qed

theorem pn_apply_value_witness:
  "map_sum id sint (pn_value Debug (snd (pn_apply Debug [(1, True, 3), (1, False, 5)] pn_new))) = Inr (- 2)"
  using pn_apply_value [of "[(1, True, 3), (1, False, 5)]" Debug]
  by (simp add: pn_incs_def pn_decs_def ops_sum_def)

end
