(* ===== verification/GSet.thy ===== *)
theory GSet
  imports Collections CvRDT
begin

section \<open>The grow-only set\<close>

text \<open>\<^verbatim>\<open>crates/crdt-core/src/g_set.rs\<close>: a hash set that is only ever extended.\<close>

record 'a gset =
  elements :: "'a hash_set"

definition gs_new :: "'a gset" where
  "gs_new = \<lparr>elements = hs_new\<rparr>"

definition gs_insert :: "'a \<Rightarrow> 'a gset \<Rightarrow> bool \<times> 'a gset" where
  "gs_insert x s = (case hs_insert x (elements s) of (new, e) \<Rightarrow> (new, s\<lparr>elements := e\<rparr>))"

definition gs_contains :: "'a gset \<Rightarrow> 'a \<Rightarrow> bool" where
  "gs_contains s x = hs_contains (elements s) x"

definition gs_len :: "'a gset \<Rightarrow> nat" where
  "gs_len s = hs_len (elements s)"

definition gs_is_empty :: "'a gset \<Rightarrow> bool" where
  "gs_is_empty s \<longleftrightarrow> hs_len (elements s) = 0"

definition gs_iter :: "'a gset \<Rightarrow> 'a list" where
  "gs_iter s = hs_iter (elements s)"

definition gs_merge :: "'a gset \<Rightarrow> 'a gset \<Rightarrow> 'a gset" where
  "gs_merge self other = self\<lparr>elements := hs_extend (hs_iter (elements other)) (elements self)\<rparr>"

definition gs_eq :: "'a gset \<Rightarrow> 'a gset \<Rightarrow> bool" where
  "gs_eq s t \<longleftrightarrow> hs_eq (elements s) (elements t)"

text \<open>The helper \<^verbatim>\<open>build\<close> of the crate's property tests.\<close>

fun gs_build :: "'a list \<Rightarrow> 'a gset \<Rightarrow> 'a gset" where
  "gs_build [] s = s"
| "gs_build (v # ops) s = gs_build ops (snd (gs_insert v s))"

subsection \<open>The view of a set\<close>

definition gs_view :: "'a gset \<Rightarrow> 'a set" where
  "gs_view s = hs_set (elements s)"

lemma gs_view_new [view_simps]: "gs_view gs_new = {}"
  by (simp add: gs_view_def gs_new_def view_simps)

lemma gs_view_insert [view_simps]: "gs_view (snd (gs_insert x s)) = insert x (gs_view s)"
  using hs_set_insert [of x "elements s"]
  by (cases "hs_insert x (elements s)") (simp add: gs_view_def gs_insert_def)

lemma gs_insert_new: "fst (gs_insert x s) \<longleftrightarrow> x \<notin> gs_view s"
  using hs_insert_new [of x "elements s"]
  by (cases "hs_insert x (elements s)") (simp add: gs_view_def gs_insert_def)

lemma gs_view_merge [view_simps]: "gs_view (gs_merge s t) = gs_view s \<union> gs_view t"
  by (simp add: gs_view_def gs_merge_def view_simps set_hs_iter)

lemma gs_contains_iff: "gs_contains s x \<longleftrightarrow> x \<in> gs_view s"
  by (simp add: gs_contains_def gs_view_def hs_contains_iff)

lemma gs_len_card: "gs_len s = card (gs_view s)"
  by (simp add: gs_len_def gs_view_def hs_len_card)

lemma gs_iter_set: "set (gs_iter s) = gs_view s" "distinct (gs_iter s)"
  by (simp_all add: gs_iter_def gs_view_def hs_set_def)

lemma gs_is_empty_iff: "gs_is_empty s \<longleftrightarrow> gs_view s = {}"
  by (simp add: gs_is_empty_def gs_view_def hs_len_card)

lemma finite_gs_view [simp]: "finite (gs_view s)"
  by (simp add: gs_view_def)

lemma gs_eq_view: "gs_eq s t \<longleftrightarrow> gs_view s = gs_view t"
  by (simp add: gs_eq_def gs_view_def hs_eq_iff)

interpretation gs_viewed: cvrdt_view "\<lambda>_. True" gs_view gs_merge "(\<union>)"
  by unfold_locales (auto simp: view_simps)

interpretation gs: cvrdt "\<lambda>_. True" gs_eq gs_merge
  unfolding gs_eq_view [abs_def] by (rule gs_viewed.cvrdt_axioms)

interpretation gs_sized: cvrdt_sized "\<lambda>_. True" gs_eq gs_merge "\<lambda>s. card (gs_view s)"
proof
  fix s t :: "'a gset"
  show "gs_eq s t \<Longrightarrow> card (gs_view s) = card (gs_view t)" by (simp add: gs_eq_view)
  show "\<not> gs_eq (gs_merge s t) s \<Longrightarrow> card (gs_view s) < card (gs_view (gs_merge s t))"
    using card_set_grows [of "gs_view s" "gs_view t"] by (simp add: gs_eq_view view_simps)
qed

lemma gs_view_build: "gs_view (gs_build ops s) = gs_view s \<union> set ops"
  by (induction ops arbitrary: s) (auto simp: view_simps)

subsection \<open>Properties\<close>

text \<open>C34. A G-set refines a finite set: insertion adds the element and reports whether it was new,
  the queries read the set, merge is union, and equality is equality of sets.\<close>

theorem gs_refines_set:
  "gs_view gs_new = {} \<and>
   gs_view (snd (gs_insert x s)) = insert x (gs_view s) \<and>
   (fst (gs_insert x s) \<longleftrightarrow> x \<notin> gs_view s) \<and>
   (gs_contains s x \<longleftrightarrow> x \<in> gs_view s) \<and>
   gs_len s = card (gs_view s) \<and>
   (gs_is_empty s \<longleftrightarrow> gs_view s = {}) \<and>
   set (gs_iter s) = gs_view s \<and> distinct (gs_iter s) \<and>
   gs_view (gs_merge s t) = gs_view s \<union> gs_view t \<and>
   (gs_eq s t \<longleftrightarrow> gs_view s = gs_view t)"
  by (simp add: view_simps gs_insert_new gs_contains_iff gs_len_card gs_is_empty_iff gs_iter_set
      gs_eq_view)

text \<open>Merging G-sets is commutative, associative and idempotent up to the derived equality and
  gives the least upper bound; merging two sets built by insertions is building one set from both
  lists.\<close>

theorem gs_merge_laws:
  "gs_eq (gs_merge a b) (gs_merge b a) \<and>
   gs_eq (gs_merge (gs_merge a b) c) (gs_merge a (gs_merge b c)) \<and>
   gs_eq (gs_merge a a) a \<and>
   is_join (\<lambda>_. True) gs_eq gs_merge {a, b} (gs_merge a b) \<and>
   gs_eq (gs_merge (gs_build xs gs_new) (gs_build ys gs_new)) (gs_build (xs @ ys) gs_new)"
  using gs.join_merge [OF gs.join_singleton gs.join_singleton, of a b]
  by (simp add: gs.merge_comm gs.merge_assoc gs.merge_idem insert_commute gs_eq_view gs_view_build
      view_simps Un_ac)

end
