(* ===== verification/VectorClock.thy ===== *)
theory VectorClock
  imports Collections CvRDT Clock
begin

section \<open>The vector clock\<close>

text \<open>
  \<^verbatim>\<open>crates/crdt-core/src/vector_clock.rs\<close>. A clock is a map from replicas to counters; a missing
  entry counts as zero. The derived equality compares the maps, so it tells a zero entry from a missing
  one, while the comparison does not; \<open>vc_positive\<close> (no zero entries) is the invariant under which
  the two agree, and which every operation keeps except an increment that wraps around.
\<close>

record vector_clock =
  entries :: "(replica_id, u64) hash_map"

datatype ordering = Less | Equal | Greater

definition vc_new :: vector_clock where
  "vc_new = \<lparr>entries = hm_new\<rparr>"

definition vc_increment :: "build \<Rightarrow> replica_id \<Rightarrow> (vector_clock, u64) run" where
  "vc_increment b replica c =
     (let (entry, m) = hm_or_insert replica 0 (entries c)
      in case add_unsigned b entry 1 of
           Inl e \<Rightarrow> (Inl e, c\<lparr>entries := m\<rparr>)
         | Inr v \<Rightarrow> (Inr v, c\<lparr>entries := hm_insert replica v m\<rparr>))"

definition vc_get :: "vector_clock \<Rightarrow> replica_id \<Rightarrow> u64" where
  "vc_get c replica = (case hm_get (entries c) replica of None \<Rightarrow> 0 | Some n \<Rightarrow> n)"

definition vc_observe :: "replica_id \<Rightarrow> u64 \<Rightarrow> vector_clock \<Rightarrow> vector_clock" where
  "vc_observe replica counter c =
     (if counter = 0 then c
      else c\<lparr>entries := hm_entry replica 0 (\<lambda>v. max v counter) (entries c)\<rparr>)"

text \<open>\<^verbatim>\<open>Ord::cmp\<close> of two numbers, and the loop of \<^verbatim>\<open>partial_cmp\<close> over the keys of both clocks;
  \<open>None\<close> is its early return.\<close>

definition cmp_u64 :: "u64 \<Rightarrow> u64 \<Rightarrow> ordering" where
  "cmp_u64 a b = (if a < b then Less else if b < a then Greater else Equal)"

fun vc_cmp_loop ::
  "vector_clock \<Rightarrow> vector_clock \<Rightarrow> replica_id list \<Rightarrow> bool \<Rightarrow> bool \<Rightarrow> (bool \<times> bool) option" where
  "vc_cmp_loop self other [] self_less self_greater = Some (self_less, self_greater)"
| "vc_cmp_loop self other (replica # rs) self_less self_greater =
     (let a = vc_get self replica; b = vc_get other replica;
          l = (self_less \<or> cmp_u64 a b = Less);
          g = (self_greater \<or> cmp_u64 a b = Greater)
      in if l \<and> g then None else vc_cmp_loop self other rs l g)"

definition vc_partial_cmp :: "vector_clock \<Rightarrow> vector_clock \<Rightarrow> ordering option" where
  "vc_partial_cmp self other =
     (case vc_cmp_loop self other (hm_keys (entries self) @ hm_keys (entries other)) False False of
        None \<Rightarrow> None
      | Some (False, False) \<Rightarrow> Some Equal
      | Some (True, False) \<Rightarrow> Some Less
      | Some (False, True) \<Rightarrow> Some Greater
      | Some (True, True) \<Rightarrow> None)"

definition vc_happens_before :: "vector_clock \<Rightarrow> vector_clock \<Rightarrow> bool" where
  "vc_happens_before self other \<longleftrightarrow> vc_partial_cmp self other = Some Less"

definition vc_concurrent_with :: "vector_clock \<Rightarrow> vector_clock \<Rightarrow> bool" where
  "vc_concurrent_with self other \<longleftrightarrow> vc_partial_cmp self other = None"

definition vc_is_empty :: "vector_clock \<Rightarrow> bool" where
  "vc_is_empty c \<longleftrightarrow> hm_len (entries c) = 0"

definition vc_merge_entry ::
  "replica_id \<times> u64 \<Rightarrow> (replica_id, u64) hash_map \<Rightarrow> (replica_id, u64) hash_map" where
  "vc_merge_entry e m =
     (case e of (replica, count) \<Rightarrow>
        if count = 0 then m else hm_entry replica 0 (\<lambda>v. max v count) m)"

definition vc_merge :: "vector_clock \<Rightarrow> vector_clock \<Rightarrow> vector_clock" where
  "vc_merge self other = self\<lparr>entries := fold vc_merge_entry (hm_iter (entries other)) (entries self)\<rparr>"

text \<open>The derived \<open>==\<close>.\<close>

definition vc_eq :: "vector_clock \<Rightarrow> vector_clock \<Rightarrow> bool" where
  "vc_eq c d \<longleftrightarrow> hm_eq (entries c) (entries d)"

text \<open>The helper \<^verbatim>\<open>build\<close> of the property tests: each pair is a replica and a number of increments.\<close>

fun vc_increments :: "build \<Rightarrow> replica_id \<Rightarrow> nat \<Rightarrow> (vector_clock, unit) run" where
  "vc_increments b r 0 c = (Inr (), c)"
| "vc_increments b r (Suc n) c = and_then (vc_increment b r) (\<lambda>_. vc_increments b r n) c"

fun vc_build :: "build \<Rightarrow> (replica_id \<times> nat) list \<Rightarrow> (vector_clock, unit) run" where
  "vc_build b [] c = (Inr (), c)"
| "vc_build b ((r, n) # ops) c = and_then (vc_increments b r n) (\<lambda>_. vc_build b ops) c"

subsection \<open>Views\<close>

definition vc_view :: "vector_clock \<Rightarrow> replica_id \<Rightarrow> u64 option" where
  "vc_view c = hm_get (entries c)"

definition vc_positive :: "vector_clock \<Rightarrow> bool" where
  "vc_positive c \<longleftrightarrow> list_all (\<lambda>(_, n). n \<noteq> 0) (hm_iter (entries c))"

definition vc_le :: "vector_clock \<Rightarrow> vector_clock \<Rightarrow> bool" where
  "vc_le c d \<longleftrightarrow> (\<forall>r. vc_get c r \<le> vc_get d r)"

lemma vc_get_view: "vc_get c r = (case vc_view c r of None \<Rightarrow> 0 | Some n \<Rightarrow> n)"
  by (simp add: vc_get_def vc_view_def)

lemma vc_positive_view: "vc_positive c \<longleftrightarrow> (\<forall>r. vc_view c r \<noteq> Some 0)"
  by (auto simp: vc_positive_def vc_view_def list_all_iff hm_iter_iff [symmetric])

lemma vc_view_new [view_simps]: "vc_view vc_new = Map.empty"
  by (simp add: vc_view_def vc_new_def view_simps)

lemma vc_eq_view: "vc_eq c d \<longleftrightarrow> vc_view c = vc_view d"
  by (simp add: vc_eq_def vc_view_def hm_eq_iff)

text \<open>On clocks without zero entries, the counters determine the map.\<close>

lemma vc_positive_get_eq:
  assumes "vc_positive c" "vc_positive d"
  shows "vc_view c = vc_view d \<longleftrightarrow> vc_get c = vc_get d"
proof
  assume get: "vc_get c = vc_get d"
  show "vc_view c = vc_view d"
  proof
    fix r
    have "vc_get c r = vc_get d r" using get by simp
    then show "vc_view c r = vc_view d r"
      using assms by (auto simp: vc_positive_view vc_get_view split: option.splits)
  qed
qed (auto simp: vc_get_view fun_eq_iff)

subsection \<open>Merge and observe\<close>

interpretation vc_loop: pointwise_loop vc_merge_entry
    "\<lambda>n v. if n = 0 then v else Some (max (case v of None \<Rightarrow> 0 | Some v \<Rightarrow> v) n)"
  by unfold_locales (auto simp: vc_merge_entry_def view_simps)

lemma vc_get_merge: "vc_get (vc_merge c d) r = max (vc_get c r) (vc_get d r)"
  by (auto simp: vc_get_def vc_merge_def vc_loop.get_fold max_def split: option.split)

lemma vc_view_merge [view_simps]:
  "vc_positive d \<Longrightarrow> vc_view (vc_merge c d) r = opt_join max (vc_view c r) (vc_view d r)"
  by (auto simp: vc_positive_view vc_view_def vc_merge_def vc_loop.get_fold max_def split: option.split)

lemma vc_positive_new: "vc_positive vc_new"
  by (simp add: vc_positive_view view_simps)

lemma vc_positive_merge: "vc_positive c \<Longrightarrow> vc_positive (vc_merge c d)"
  by (auto simp: vc_positive_view vc_view_def vc_merge_def vc_loop.get_fold max_def
      split: option.splits if_splits)

lemma vc_view_observe [view_simps]:
  "vc_view (vc_observe r n c) =
     (if n = 0 then vc_view c else (vc_view c)(r \<mapsto> max (vc_get c r) n))"
  by (simp add: vc_view_def vc_observe_def vc_get_def view_simps)

lemma vc_get_observe: "vc_get (vc_observe r n c) = (vc_get c)(r := max (vc_get c r) n)"
  by (auto simp: vc_get_view [of "vc_observe r n c"] view_simps fun_eq_iff vc_get_view split: option.split)

lemma vc_positive_observe: "vc_positive c \<Longrightarrow> vc_positive (vc_observe r n c)"
  by (auto simp: vc_positive_view view_simps max_def)

interpretation vc_viewed: cvrdt_view vc_positive vc_view vc_merge
    "\<lambda>f g r. opt_join max (f r) (g r)"
  by unfold_locales
    (auto simp: fun_eq_iff view_simps vc_positive_merge opt_join_max_laws(2,3) intro: opt_join_max_laws(1))

interpretation vc: cvrdt vc_positive vc_eq vc_merge
  unfolding vc_eq_view [abs_def] by (rule vc_viewed.cvrdt_axioms)

interpretation vc_sized: cvrdt_sized vc_positive vc_eq vc_merge "\<lambda>c. card (dom (vc_view c)) + total_of (vc_view c)"
proof
  fix c d
  show "vc_eq c d \<Longrightarrow> card (dom (vc_view c)) + total_of (vc_view c) = card (dom (vc_view d)) + total_of (vc_view d)"
    by (simp add: vc_eq_view)
  assume d: "vc_positive d" and changed: "\<not> vc_eq (vc_merge c d) c"
  have "vc_view (vc_merge c d) = (\<lambda>r. opt_join max (vc_view c r) (vc_view d r))"
    using d by (simp add: fun_eq_iff view_simps)
  then show "card (dom (vc_view c)) + total_of (vc_view c) <
      card (dom (vc_view (vc_merge c d))) + total_of (vc_view (vc_merge c d))"
    using changed counts_grow [of "vc_view c" "vc_view d"] by (simp add: vc_eq_view)
qed

text \<open>By counters alone, the laws hold for every clock, zero entries or not.\<close>

interpretation vc_counters: cvrdt_view "\<lambda>_. True" vc_get vc_merge "\<lambda>f g r. max (f r) (g r)"
  by unfold_locales (simp_all add: fun_eq_iff vc_get_merge ac_simps)

subsection \<open>Comparison\<close>

lemma vc_cmp_loop_spec:
  "\<not> (l \<and> g) \<Longrightarrow>
   vc_cmp_loop c d rs l g =
     (let l' = (l \<or> (\<exists>r\<in>set rs. vc_get c r < vc_get d r));
          g' = (g \<or> (\<exists>r\<in>set rs. vc_get d r < vc_get c r))
      in if l' \<and> g' then None else Some (l', g'))"
proof (induction rs arbitrary: l g)
  case Nil
  then show ?case by simp
next
  case (Cons r rs)
  then show ?case
    by (cases "vc_get c r" "vc_get d r" rule: linorder_cases)
      (simp_all add: cmp_u64_def Let_def order_less_not_sym)
qed

lemma vc_get_no_key:
  "r \<notin> set (hm_keys (entries c) @ hm_keys (entries d)) \<Longrightarrow> vc_get c r = 0 \<and> vc_get d r = 0"
  by (auto simp: set_hm_keys vc_get_def domIff)

lemma vc_partial_cmp_eq:
  "vc_partial_cmp c d =
     (if vc_le c d then if vc_le d c then Some Equal else Some Less
      else if vc_le d c then Some Greater else None)"
proof -
  let ?rs = "hm_keys (entries c) @ hm_keys (entries d)"
  have cd: "(\<exists>r\<in>set ?rs. vc_get d r < vc_get c r) \<longleftrightarrow> \<not> vc_le c d"
    and dc: "(\<exists>r\<in>set ?rs. vc_get c r < vc_get d r) \<longleftrightarrow> \<not> vc_le d c"
    using vc_get_no_key [of _ c d] unfolding vc_le_def not_all not_le by (metis less_irrefl)+
  have "vc_cmp_loop c d ?rs False False =
      (if \<not> vc_le d c \<and> \<not> vc_le c d then None else Some (\<not> vc_le d c, \<not> vc_le c d))"
    by (subst vc_cmp_loop_spec) (simp_all only: cd dc Let_def simp_thms not_False_eq_True)
  then show ?thesis
    by (cases "vc_le c d"; cases "vc_le d c") (simp_all add: vc_partial_cmp_def)
qed

lemma vc_le_refl [simp]: "vc_le c c"
  by (simp add: vc_le_def)

lemma vc_le_trans: "vc_le c d \<Longrightarrow> vc_le d e \<Longrightarrow> vc_le c e"
  unfolding vc_le_def by (meson order_trans)

lemma vc_le_antisym: "vc_le c d \<Longrightarrow> vc_le d c \<Longrightarrow> vc_get c = vc_get d"
  by (simp add: vc_le_def fun_eq_iff order_antisym)

lemma vc_happens_before_iff: "vc_happens_before c d \<longleftrightarrow> vc_le c d \<and> \<not> vc_le d c"
  by (simp add: vc_happens_before_def vc_partial_cmp_eq)

lemma vc_concurrent_iff: "vc_concurrent_with c d \<longleftrightarrow> \<not> vc_le c d \<and> \<not> vc_le d c"
  by (simp add: vc_concurrent_with_def vc_partial_cmp_eq)

subsection \<open>Increment\<close>

lemma vc_increment_eq:
  "vc_increment b r c =
     (let (v, m) = hm_or_insert r 0 (entries c)
      in if b = Debug \<and> vc_get c r = - 1 then (Inl ArithmeticOverflow, c)
         else (Inr (vc_get c r + 1), c\<lparr>entries := hm_insert r (vc_get c r + 1) m\<rparr>))"
  by (cases "hm_get (entries c) r")
    (auto simp: vc_increment_def hm_or_insert_def add_unsigned_one vc_get_def)

lemma vc_increment_overflow:
  "b = Debug \<Longrightarrow> vc_get c r = - 1 \<Longrightarrow> vc_increment b r c = (Inl ArithmeticOverflow, c)"
  by (simp add: vc_increment_eq split_beta)

lemma vc_increment_ok:
  assumes "b = Release \<or> vc_get c r \<noteq> - 1"
  shows "fst (vc_increment b r c) = Inr (vc_get c r + 1)"
    and "vc_view (snd (vc_increment b r c)) = (vc_view c)(r \<mapsto> vc_get c r + 1)"
  using assms
  by (auto simp: vc_increment_eq vc_view_def view_simps split_beta hm_or_insert_eq)

lemma vc_get_increment:
  "b = Release \<or> vc_get c r \<noteq> - 1 \<Longrightarrow>
   vc_get (snd (vc_increment b r c)) = (vc_get c)(r := vc_get c r + 1)"
  using vc_increment_ok(2) [of b c r] by (auto simp: vc_get_view fun_eq_iff)

lemma vc_positive_increment:
  "vc_positive c \<Longrightarrow> vc_get c r \<noteq> - 1 \<or> b = Debug \<Longrightarrow> vc_positive (snd (vc_increment b r c))"
  by (cases "vc_get c r = - 1")
    (auto simp: vc_increment_overflow vc_increment_ok(2) vc_positive_view
      dest: max_word_wrap split: if_splits)

text \<open>The clocks a program can make with the public operations.\<close>

inductive vc_api :: "build \<Rightarrow> vector_clock \<Rightarrow> bool" for b where
  new: "vc_api b vc_new"
| increment: "vc_api b c \<Longrightarrow> vc_api b (snd (vc_increment b r c))"
| observe: "vc_api b c \<Longrightarrow> vc_api b (vc_observe r n c)"
| merge: "vc_api b c \<Longrightarrow> vc_api b d \<Longrightarrow> vc_api b (vc_merge c d)"

lemma vc_api_Debug_positive: "vc_api Debug c \<Longrightarrow> vc_positive c"
  by (induction rule: vc_api.induct)
    (auto intro: vc_positive_new vc_positive_increment vc_positive_observe vc_positive_merge)

subsection \<open>Properties\<close>

text \<open>C17. The comparison loop with its two flags and its early return decides the pointwise order of
  counters: equal, strictly below, strictly above, or incomparable. The order in which the
  loop visits the keys, and keys it visits twice, make no difference.\<close>

theorem vc_partial_cmp_spec:
  "vc_partial_cmp c d =
     (if \<forall>r. vc_get c r = vc_get d r then Some Equal
      else if \<forall>r. vc_get c r \<le> vc_get d r then Some Less
      else if \<forall>r. vc_get d r \<le> vc_get c r then Some Greater
      else None)"
  unfolding vc_partial_cmp_eq vc_le_def by (auto intro: order_antisym)

text \<open>Happened-before is a strict partial order, and two clocks are related by it, have equal
  counters, or are concurrent, exactly one of these; concurrency is symmetric.\<close>

theorem vc_causality_order:
  "\<not> vc_happens_before c c \<and>
   \<not> (vc_happens_before c d \<and> vc_happens_before d c) \<and>
   \<not> (vc_happens_before c d \<and> vc_happens_before d e \<and> \<not> vc_happens_before c e) \<and>
   (vc_concurrent_with c d \<longleftrightarrow> vc_concurrent_with d c) \<and>
   (vc_concurrent_with c d \<longleftrightarrow>
      \<not> (vc_happens_before c d \<or> vc_happens_before d c \<or> vc_get c = vc_get d))"
proof -
  have "vc_get c = vc_get d \<longleftrightarrow> vc_le c d \<and> vc_le d c"
    using vc_le_antisym [of c d] by (auto simp: vc_le_def)
  moreover have "\<not> (vc_le c d \<and> \<not> vc_le d c \<and> vc_le d e \<and> \<not> vc_le e d \<and> (vc_le c e \<longrightarrow> vc_le e c))"
    using vc_le_trans [of c d e] vc_le_trans [of e c d] by blast
  ultimately show ?thesis by (auto simp: vc_happens_before_iff vc_concurrent_iff)
qed

text \<open>An increment below the largest counter succeeds in either build, returns the new counter,
  changes no other replica's counter, and its result is causally after the old clock.\<close>

theorem vc_increment_advances:
  assumes "vc_get c r \<noteq> - 1"
  shows "fst (vc_increment b r c) = Inr (vc_get c r + 1) \<and>
         vc_get (snd (vc_increment b r c)) = (vc_get c)(r := vc_get c r + 1) \<and>
         vc_happens_before c (snd (vc_increment b r c))"
proof -
  have less: "vc_get c r < vc_get c r + 1" using assms by (rule word_less_succ)
  then have "vc_le c (snd (vc_increment b r c))" "\<not> vc_le (snd (vc_increment b r c)) c"
    using assms less by (auto simp: vc_le_def vc_get_increment not_le intro!: exI [of _ r])
  then show ?thesis
    using assms by (simp add: vc_increment_ok vc_get_increment vc_happens_before_iff)
qed

theorem vc_increment_advances_witness:
  "vc_happens_before vc_new (snd (vc_increment Debug 1 vc_new))"
  using vc_increment_advances [of vc_new 1 Debug] by (simp add: vc_get_view view_simps)

text \<open>C32. For all clocks that a debug build can make with the public operations, merge is
  commutative, associative and idempotent up to the derived equality, and gives the least upper
  bound in the causal order.\<close>

theorem vc_merge_laws:
  assumes "vc_api Debug a" "vc_api Debug b" "vc_api Debug c"
  shows "vc_eq (vc_merge a b) (vc_merge b a) \<and>
         vc_eq (vc_merge (vc_merge a b) c) (vc_merge a (vc_merge b c)) \<and>
         vc_eq (vc_merge a a) a \<and>
         vc_le a (vc_merge a b) \<and> vc_le b (vc_merge a b) \<and>
         (vc_le a c \<and> vc_le b c \<longleftrightarrow> vc_le (vc_merge a b) c)"
  using assms
  by (simp add: vc_api_Debug_positive vc.merge_comm vc.merge_assoc vc.merge_idem vc_le_def vc_get_merge)
    blast

theorem vc_merge_laws_witness:
  "vc_eq (vc_merge (snd (vc_increment Debug 1 vc_new)) vc_new)
         (vc_merge vc_new (snd (vc_increment Debug 1 vc_new)))"
  using vc_merge_laws [of "snd (vc_increment Debug 1 vc_new)" vc_new vc_new] vc_api.intros by blast

text \<open>C33. A release build does not keep this: an increment of the largest counter wraps to zero, the
  clock it leaves behind is causally before the old one, and merging it with the empty clock
  is not commutative for the derived equality.\<close>

theorem vc_release_wrap:
  "let c = vc_observe r (- 1) vc_new; c' = snd (vc_increment Release r c)
   in vc_api Release c' \<and> fst (vc_increment Release r c) = Inr 0 \<and>
      vc_happens_before c' c \<and> \<not> vc_eq (vc_merge c' vc_new) (vc_merge vc_new c')"
proof -
  define c where "c = vc_observe r (- 1) vc_new"
  define c' where "c' = snd (vc_increment Release r c)"
  have get: "vc_get c = (\<lambda>_. 0)(r := - 1)"
    by (auto simp: c_def vc_get_observe vc_get_view view_simps)
  have view: "vc_view c' = [r \<mapsto> 0]"
    by (auto simp: c'_def vc_increment_ok get c_def view_simps vc_get_view)
  have "vc_view (vc_merge c' vc_new) r = Some 0"
    by (simp add: vc_view_merge vc_positive_new view view_simps)
  moreover have "vc_view (vc_merge vc_new c') r = None"
    using view by (simp add: vc_view_def vc_merge_def vc_loop.get_fold vc_new_def view_simps)
  ultimately have "\<not> vc_eq (vc_merge c' vc_new) (vc_merge vc_new c')"
    by (metis option.distinct(1) vc_eq_view)
  moreover have "vc_api Release c'"
    unfolding c'_def c_def by (intro vc_api.intros)
  moreover have "vc_happens_before c' c"
    by (auto simp: vc_happens_before_iff vc_le_def get vc_get_view [of c'] view intro!: exI [of _ r])
  moreover have "fst (vc_increment Release r c) = Inr 0"
    by (simp add: vc_increment_ok get)
  ultimately show ?thesis by (simp add: Let_def c_def [symmetric] c'_def [symmetric])
qed

end
