(* ===== verification/CoreTests.thy ===== *)
theory CoreTests
  imports PNCounter GSet VectorClock
begin

section \<open>The test suite of crdt-core\<close>

text \<open>
  The \<^verbatim>\<open>tests\<close> modules of \<^verbatim>\<open>counter.rs\<close>, \<^verbatim>\<open>pn_counter.rs\<close>, \<^verbatim>\<open>g_set.rs\<close> and
  \<^verbatim>\<open>vector_clock.rs\<close>, one definition per test, with the test's name after the prefix of its type. A unit test is a
  truth value for either build: false when an assertion fails or an operation panics. A property test is a
  predicate on the values of its generators; \<open>..._cases\<close> describes which values those are. That the
  tests pass is proved, and for the property tests proved for every value they can generate, not for a sample. Clones of a
  value are the value itself.
\<close>

text \<open>Run an operation of a test and continue with its result and the new state, unless it panics.\<close>

definition runs :: "('s, 'a) run \<Rightarrow> 's \<Rightarrow> ('a \<Rightarrow> 's \<Rightarrow> bool) \<Rightarrow> bool" where
  "runs m s k = (case m s of (Inl _, _) \<Rightarrow> False | (Inr a, s') \<Rightarrow> k a s')"

lemma runs_eq: "fst (m s) = Inr a \<Longrightarrow> runs m s k = k a (snd (m s))"
  by (cases "m s") (simp add: runs_def)

subsection \<open>counter.rs\<close>

definition gc_empty_counter_is_zero :: "build \<Rightarrow> bool" where
  "gc_empty_counter_is_zero b \<longleftrightarrow> gc_value b gc_new = Inr 0"

definition gc_single_replica_increments_accumulate :: "build \<Rightarrow> bool" where
  "gc_single_replica_increments_accumulate b \<longleftrightarrow>
     runs (gc_increment b 1 5) gc_new (\<lambda>_ c.
     runs (gc_increment b 1 7) c (\<lambda>_ c. gc_value b c = Inr 12))"

definition gc_merge_combines_replicas :: "build \<Rightarrow> bool" where
  "gc_merge_combines_replicas build \<longleftrightarrow>
     runs (gc_increment build 1 5) gc_new (\<lambda>_ a.
     runs (gc_increment build 2 3) gc_new (\<lambda>_ b. gc_value build (gc_merge a b) = Inr 8))"

definition gc_merge_is_idempotent :: "build \<Rightarrow> bool" where
  "gc_merge_is_idempotent b \<longleftrightarrow>
     runs (gc_increment b 1 5) gc_new (\<lambda>_ a. let snapshot = a in gc_eq (gc_merge a snapshot) snapshot)"

definition gc_merge_is_commutative :: "build \<Rightarrow> bool" where
  "gc_merge_is_commutative build \<longleftrightarrow>
     runs (gc_increment build 1 3) gc_new (\<lambda>_ a.
     runs (gc_increment build 2 4) gc_new (\<lambda>_ b. gc_eq (gc_merge a b) (gc_merge b a)))"

definition gc_prop_merge_is_commutative ::
  "build \<Rightarrow> (replica_id \<times> u64) list \<Rightarrow> (replica_id \<times> u64) list \<Rightarrow> bool" where
  "gc_prop_merge_is_commutative build ops_a ops_b \<longleftrightarrow>
     runs (gc_apply build ops_a) gc_new (\<lambda>_ a. runs (gc_apply build ops_b) gc_new (\<lambda>_ b.
       gc_eq (gc_merge a b) (gc_merge b a)))"

definition gc_prop_merge_is_associative ::
  "build \<Rightarrow> (replica_id \<times> u64) list \<Rightarrow> (replica_id \<times> u64) list \<Rightarrow> (replica_id \<times> u64) list \<Rightarrow> bool" where
  "gc_prop_merge_is_associative build ops_a ops_b ops_c \<longleftrightarrow>
     runs (gc_apply build ops_a) gc_new (\<lambda>_ a. runs (gc_apply build ops_b) gc_new (\<lambda>_ b.
     runs (gc_apply build ops_c) gc_new (\<lambda>_ c.
       let ab_c = gc_merge (gc_merge a b) c; bc = gc_merge b c; a_bc = gc_merge a bc
       in gc_eq ab_c a_bc)))"

definition gc_prop_merge_is_idempotent :: "build \<Rightarrow> (replica_id \<times> u64) list \<Rightarrow> bool" where
  "gc_prop_merge_is_idempotent b ops \<longleftrightarrow>
     runs (gc_apply b ops) gc_new (\<lambda>_ a. let snapshot = a in gc_eq (gc_merge a snapshot) snapshot)"

text \<open>The generator \<^verbatim>\<open>vec((0u64..5, 0u64..100), 0..20)\<close>.\<close>

definition gc_cases :: "(replica_id \<times> u64) list \<Rightarrow> bool" where
  "gc_cases ops \<longleftrightarrow> length ops < 20 \<and> list_all (\<lambda>(r, n). r < 5 \<and> n < 100) ops"

lemma ops_sum_small: "list_all (\<lambda>(r, n). n < 100) ops \<Longrightarrow> ops_sum ops \<le> 99 * length ops"
proof (induction ops)
  case (Cons e ops)
  then have "unat (snd e) < 100" by (auto simp: word_less_nat_alt)
  with Cons show ?case by (auto simp: ops_sum_def)
qed (simp add: ops_sum_def)

lemma gc_cases_fit: "gc_cases ops \<Longrightarrow> fst (gc_apply b ops gc_new) = Inr ()"
proof -
  assume cases: "gc_cases ops"
  then have "list_all (\<lambda>(r, n). n < 100) ops" "length ops < 20"
    by (auto simp: gc_cases_def elim: list.pred_mono_strong)
  then have "ops_sum ops < 2 ^ 64" using ops_sum_small [of ops] by simp
  then show ?thesis using gc_apply_fits [of gc_new ops b] by (simp add: gc_count_zero_total)
qed

lemma runs_gc_apply:
  "gc_cases ops \<Longrightarrow> runs (gc_apply b ops) gc_new k = k () (snd (gc_apply b ops gc_new))"
  by (rule runs_eq) (rule gc_cases_fit)

lemma gc_prop_tests:
  assumes "gc_cases ops_a" "gc_cases ops_b" "gc_cases ops_c"
  shows "gc_prop_merge_is_commutative b ops_a ops_b \<and> gc_prop_merge_is_associative b ops_a ops_b ops_c \<and>
    gc_prop_merge_is_idempotent b ops_a"
  using assms
  by (simp add: gc_prop_merge_is_commutative_def gc_prop_merge_is_associative_def
      gc_prop_merge_is_idempotent_def runs_gc_apply gc.merge_comm gc.merge_assoc gc.merge_idem)

lemma gc_count_new [simp]: "gc_count gc_new r = 0"
  by (simp add: gc_count_def view_simps)

lemma runs_gc_increment:
  "gc_count c r + unat n < 2 ^ 64 \<Longrightarrow> runs (gc_increment b r n) c k = k () (snd (gc_increment b r n c))"
  by (rule runs_eq) (rule gc_increment_fits(1))

lemma gc_apply_one:
  "gc_count c r + unat n < 2 ^ 64 \<Longrightarrow> gc_apply b [(r, n)] c = gc_increment b r n c"
  using gc_increment_fits(1) [of c r n b] by (cases "gc_increment b r n c") simp

lemma gc_unit_tests:
  "gc_empty_counter_is_zero b \<and> gc_single_replica_increments_accumulate b \<and> gc_merge_combines_replicas b \<and>
   gc_merge_is_idempotent b \<and> gc_merge_is_commutative b"
proof -
  have "gc_apply b [(1, 5)] gc_new = gc_increment b 1 5 gc_new"
    "gc_apply b [(2, 3)] gc_new = gc_increment b 2 3 gc_new"
    by (simp_all add: gc_apply_one del: gc_apply.simps)
  then have "gc_merge_combines_replicas b"
    using gc_merge_disjoint_total [of "[(1, 5)]" "[(2, 3)]" gc_new b]
    by (simp add: gc_merge_combines_replicas_def runs_gc_increment gc_count_zero_total ops_sum_def gc_value_eq)
  then show ?thesis
    by (simp add: gc_empty_counter_is_zero_def gc_single_replica_increments_accumulate_def
        gc_merge_is_idempotent_def gc_merge_is_commutative_def runs_gc_increment gc_increment_fits(2)
        gc_increment_total gc_value_eq gc_count_zero_total gc.merge_idem gc.merge_comm)
qed

subsection \<open>pn_counter.rs\<close>

definition pn_empty_counter_is_zero :: "build \<Rightarrow> bool" where
  "pn_empty_counter_is_zero b \<longleftrightarrow> pn_value b pn_new = Inr 0"

definition pn_increments_and_decrements_combine :: "build \<Rightarrow> bool" where
  "pn_increments_and_decrements_combine b \<longleftrightarrow>
     runs (pn_increment b 1 10) pn_new (\<lambda>_ c.
     runs (pn_decrement b 1 3) c (\<lambda>_ c. pn_value b c = Inr 7))"

definition pn_value_can_be_negative :: "build \<Rightarrow> bool" where
  "pn_value_can_be_negative b \<longleftrightarrow> runs (pn_decrement b 1 5) pn_new (\<lambda>_ c. pn_value b c = Inr (- 5))"

definition pn_merge_combines_replicas :: "build \<Rightarrow> bool" where
  "pn_merge_combines_replicas build \<longleftrightarrow>
     runs (pn_increment build 1 5) pn_new (\<lambda>_ a. runs (pn_decrement build 1 1) a (\<lambda>_ a.
     runs (pn_increment build 2 3) pn_new (\<lambda>_ b. runs (pn_decrement build 2 2) b (\<lambda>_ b.
       pn_value build (pn_merge a b) = Inr 5))))"

definition pn_merge_is_idempotent :: "build \<Rightarrow> bool" where
  "pn_merge_is_idempotent b \<longleftrightarrow>
     runs (pn_increment b 1 5) pn_new (\<lambda>_ a. runs (pn_decrement b 1 2) a (\<lambda>_ a.
       let snapshot = a in pn_eq (pn_merge a snapshot) snapshot))"

definition pn_prop_merge_is_commutative ::
  "build \<Rightarrow> (replica_id \<times> bool \<times> u64) list \<Rightarrow> (replica_id \<times> bool \<times> u64) list \<Rightarrow> bool" where
  "pn_prop_merge_is_commutative build ops_a ops_b \<longleftrightarrow>
     runs (pn_apply build ops_a) pn_new (\<lambda>_ a. runs (pn_apply build ops_b) pn_new (\<lambda>_ b.
       pn_eq (pn_merge a b) (pn_merge b a)))"

definition pn_prop_merge_is_associative ::
  "build \<Rightarrow> (replica_id \<times> bool \<times> u64) list \<Rightarrow> (replica_id \<times> bool \<times> u64) list \<Rightarrow>
   (replica_id \<times> bool \<times> u64) list \<Rightarrow> bool" where
  "pn_prop_merge_is_associative build ops_a ops_b ops_c \<longleftrightarrow>
     runs (pn_apply build ops_a) pn_new (\<lambda>_ a. runs (pn_apply build ops_b) pn_new (\<lambda>_ b.
     runs (pn_apply build ops_c) pn_new (\<lambda>_ c.
       let ab_c = pn_merge (pn_merge a b) c; bc = pn_merge b c; a_bc = pn_merge a bc
       in pn_eq ab_c a_bc)))"

definition pn_prop_merge_is_idempotent :: "build \<Rightarrow> (replica_id \<times> bool \<times> u64) list \<Rightarrow> bool" where
  "pn_prop_merge_is_idempotent b ops \<longleftrightarrow>
     runs (pn_apply b ops) pn_new (\<lambda>_ a. let snapshot = a in pn_eq (pn_merge a snapshot) snapshot)"

text \<open>The generator \<^verbatim>\<open>vec((0u64..5, any::<bool>(), 0u64..100), 0..20)\<close>.\<close>

definition pn_cases :: "(replica_id \<times> bool \<times> u64) list \<Rightarrow> bool" where
  "pn_cases ops \<longleftrightarrow> length ops < 20 \<and> list_all (\<lambda>(r, is_inc, n). r < 5 \<and> n < 100) ops"

lemma pn_cases_small:
  assumes "pn_cases ops"
  shows "ops_sum (pn_incs ops) < 2 ^ 64" "ops_sum (pn_decs ops) < 2 ^ 64"
proof -
  have "ops_sum (map (\<lambda>(r, _, n). (r, n)) (filter P ops)) < 2 ^ 64" for P
  proof -
    let ?xs = "map (\<lambda>(r, _, n). (r, n)) (filter P ops)"
    have "list_all (\<lambda>(r, n). n < 100) ?xs"
      using assms by (auto simp: pn_cases_def list_all_iff)
    moreover have "length ?xs < 20"
      using assms le_less_trans [OF length_filter_le [of P ops]] by (simp add: pn_cases_def)
    ultimately show ?thesis using ops_sum_small [of ?xs] by simp
  qed
  then show "ops_sum (pn_incs ops) < 2 ^ 64" "ops_sum (pn_decs ops) < 2 ^ 64"
    unfolding pn_incs_def pn_decs_def by blast+
qed

lemma runs_pn_apply:
  "pn_cases ops \<Longrightarrow> runs (pn_apply b ops) pn_new k = k () (snd (pn_apply b ops pn_new))"
  using pn_cases_small [of ops] pn_apply_split [of pn_new ops b]
  by (intro runs_eq) (simp add: pn_new_def gc_count_zero_total)

lemma pn_prop_tests:
  assumes "pn_cases ops_a" "pn_cases ops_b" "pn_cases ops_c"
  shows "pn_prop_merge_is_commutative b ops_a ops_b \<and> pn_prop_merge_is_associative b ops_a ops_b ops_c \<and>
    pn_prop_merge_is_idempotent b ops_a"
  using assms
  by (simp add: pn_prop_merge_is_commutative_def pn_prop_merge_is_associative_def
      pn_prop_merge_is_idempotent_def runs_pn_apply pn.merge_comm pn.merge_assoc pn.merge_idem)

lemma pn_ops:
  "gc_count (increments p) r + unat n < 2 ^ 64 \<Longrightarrow>
     pn_increment b r n p = (Inr (), p\<lparr>increments := snd (gc_increment b r n (increments p))\<rparr>)"
  "gc_count (decrements p) r + unat n < 2 ^ 64 \<Longrightarrow>
     pn_decrement b r n p = (Inr (), p\<lparr>decrements := snd (gc_increment b r n (decrements p))\<rparr>)"
  using gc_increment_fits(1) [of "increments p" r n b] gc_increment_fits(1) [of "decrements p" r n b]
  by (auto simp: pn_increment_def pn_decrement_def split: prod.split)

lemma pn_value_is:
  assumes "gc_total (increments p) = i" "gc_total (decrements p) = d" "i < 2 ^ 64" "d < 2 ^ 64"
  shows "pn_value b p = Inr (word_of_int (int i - int d))"
proof -
  have "map_sum id sint (pn_value b p) = Inr (int i - int d)"
    using assms by (simp add: pn_value_eq)
  then obtain v where "pn_value b p = Inr v" "sint v = int i - int d"
    by (cases "pn_value b p") auto
  then show ?thesis by (metis scast_eq scast_id)
qed

lemma pn_merge_total:
  assumes "fst ` set xs \<inter> fst ` set ys = {}" "ops_sum xs + ops_sum ys < 2 ^ 64"
  shows "gc_total (gc_merge (snd (gc_apply b xs gc_new)) (snd (gc_apply b ys gc_new))) = ops_sum xs + ops_sum ys"
  using gc_merge_disjoint_total [OF assms(1), of gc_new b] assms(2) by (simp add: gc_count_zero_total)

lemma pn_unit_tests:
  "pn_empty_counter_is_zero b \<and> pn_increments_and_decrements_combine b \<and> pn_value_can_be_negative b \<and>
   pn_merge_combines_replicas b \<and> pn_merge_is_idempotent b"
proof -
  have "gc_total (gc_merge (snd (gc_increment b 1 5 gc_new)) (snd (gc_increment b 2 3 gc_new))) = 8"
    "gc_total (gc_merge (snd (gc_increment b 1 1 gc_new)) (snd (gc_increment b 2 2 gc_new))) = 3"
    using pn_merge_total [of "[(1, 5)]" "[(2, 3)]" b] pn_merge_total [of "[(1, 1)]" "[(2, 2)]" b]
    by (simp_all add: gc_apply_one ops_sum_def del: gc_apply.simps)
  then have "pn_merge_combines_replicas b"
    by (simp add: pn_merge_combines_replicas_def runs_def pn_ops pn_new_def pn_merge_def pn_value_is)
  moreover have "pn_empty_counter_is_zero b" "pn_increments_and_decrements_combine b" "pn_value_can_be_negative b"
    by (simp_all add: pn_empty_counter_is_zero_def pn_increments_and_decrements_combine_def
        pn_value_can_be_negative_def runs_def pn_ops pn_new_def pn_value_is gc_count_zero_total gc_increment_total)
  ultimately show ?thesis
    by (simp add: pn_merge_is_idempotent_def runs_def pn_ops pn_new_def pn.merge_idem)
qed

subsection \<open>g_set.rs\<close>

definition gs_empty_set_is_empty :: bool where
  "gs_empty_set_is_empty \<longleftrightarrow> (let s = (gs_new :: 32 word gset) in gs_is_empty s \<and> gs_len s = 0)"

definition gs_insert_adds_element :: bool where
  "gs_insert_adds_element \<longleftrightarrow>
     (let (new, s) = gs_insert (1 :: 32 word) gs_new in new \<and> gs_contains s 1 \<and> gs_len s = 1)"

definition gs_reinsert_returns_false_and_does_not_grow :: bool where
  "gs_reinsert_returns_false_and_does_not_grow \<longleftrightarrow>
     (let (new1, s) = gs_insert (1 :: 32 word) gs_new; (new2, s) = gs_insert 1 s
      in new1 \<and> \<not> new2 \<and> gs_len s = 1)"

definition gs_merge_combines_elements :: bool where
  "gs_merge_combines_elements \<longleftrightarrow>
     (let a = snd (gs_insert (2 :: 32 word) (snd (gs_insert 1 gs_new)));
          b = snd (gs_insert 3 (snd (gs_insert 2 gs_new)));
          a = gs_merge a b
      in gs_len a = 3 \<and> gs_contains a 1 \<and> gs_contains a 2 \<and> gs_contains a 3)"

definition gs_merge_with_self_is_noop :: bool where
  "gs_merge_with_self_is_noop \<longleftrightarrow>
     (let a = snd (gs_insert (2 :: 32 word) (snd (gs_insert 1 gs_new))); snapshot = a
      in gs_eq (gs_merge a snapshot) snapshot)"

definition gs_supports_string_elements :: bool where
  "gs_supports_string_elements \<longleftrightarrow>
     (let a = snd (gs_insert (lit ''hello'') gs_new); b = snd (gs_insert (lit ''world'') gs_new)
      in gs_len (gs_merge a b) = 2)"

definition gs_prop_merge_is_commutative :: "32 word list \<Rightarrow> 32 word list \<Rightarrow> bool" where
  "gs_prop_merge_is_commutative ops_a ops_b \<longleftrightarrow>
     (let a = gs_build ops_a gs_new; b = gs_build ops_b gs_new in gs_eq (gs_merge a b) (gs_merge b a))"

definition gs_prop_merge_is_associative :: "32 word list \<Rightarrow> 32 word list \<Rightarrow> 32 word list \<Rightarrow> bool" where
  "gs_prop_merge_is_associative ops_a ops_b ops_c \<longleftrightarrow>
     (let a = gs_build ops_a gs_new; b = gs_build ops_b gs_new; c = gs_build ops_c gs_new;
          ab_c = gs_merge (gs_merge a b) c; bc = gs_merge b c; a_bc = gs_merge a bc
      in gs_eq ab_c a_bc)"

definition gs_prop_merge_is_idempotent :: "32 word list \<Rightarrow> bool" where
  "gs_prop_merge_is_idempotent ops \<longleftrightarrow>
     (let a = gs_build ops gs_new; snapshot = a in gs_eq (gs_merge a snapshot) snapshot)"

lemma gs_insert_eq: "gs_insert x s = (x \<notin> gs_view s, snd (gs_insert x s))"
  by (simp add: prod_eq_iff gs_insert_new)

lemma gs_unit_tests:
  "gs_empty_set_is_empty \<and> gs_insert_adds_element \<and> gs_reinsert_returns_false_and_does_not_grow \<and>
   gs_merge_combines_elements \<and> gs_merge_with_self_is_noop \<and> gs_supports_string_elements"
proof -
  have "gs_insert_adds_element" "gs_reinsert_returns_false_and_does_not_grow"
    by (simp_all add: gs_insert_adds_element_def gs_reinsert_returns_false_and_does_not_grow_def split_beta
        Let_def gs_insert_new gs_contains_iff gs_len_card view_simps)
  moreover have "gs_merge_combines_elements"
    by (simp add: gs_merge_combines_elements_def Let_def gs_contains_iff gs_len_card view_simps card_insert_if)
  moreover have "gs_supports_string_elements"
    by (simp add: gs_supports_string_elements_def Let_def gs_len_card view_simps lit_def)
  ultimately show ?thesis
    by (simp add: gs_empty_set_is_empty_def gs_merge_with_self_is_noop_def Let_def gs_is_empty_iff gs_len_card
        view_simps gs.merge_idem)
qed

lemma gs_prop_tests:
  "gs_prop_merge_is_commutative ops_a ops_b \<and> gs_prop_merge_is_associative ops_a ops_b ops_c \<and>
   gs_prop_merge_is_idempotent ops_a"
  by (simp add: gs_prop_merge_is_commutative_def gs_prop_merge_is_associative_def
      gs_prop_merge_is_idempotent_def Let_def gs.merge_comm gs.merge_assoc gs.merge_idem)

subsection \<open>vector_clock.rs\<close>

definition vc_empty_clocks_are_equal :: bool where
  "vc_empty_clocks_are_equal \<longleftrightarrow>
     (let a = vc_new; b = vc_new in vc_eq a b \<and> vc_partial_cmp a b = Some Equal)"

definition vc_increment_advances_own_counter :: "build \<Rightarrow> bool" where
  "vc_increment_advances_own_counter b \<longleftrightarrow>
     runs (vc_increment b 1) vc_new (\<lambda>r a. r = 1 \<and>
     runs (vc_increment b 1) a (\<lambda>r a. r = 2 \<and> vc_get a 1 = 2 \<and> vc_get a 2 = 0))"

definition vc_happens_before_detected :: "build \<Rightarrow> bool" where
  "vc_happens_before_detected build \<longleftrightarrow>
     runs (vc_increment build 1) vc_new (\<lambda>_ a.
     runs (vc_increment build 1) a (\<lambda>_ b.
       vc_happens_before a b \<and> \<not> vc_happens_before b a \<and> vc_partial_cmp a b = Some Less))"

definition vc_concurrent_events_detected :: "build \<Rightarrow> bool" where
  "vc_concurrent_events_detected build \<longleftrightarrow>
     runs (vc_increment build 1) vc_new (\<lambda>_ a.
     runs (vc_increment build 2) vc_new (\<lambda>_ b.
       vc_concurrent_with a b \<and> vc_concurrent_with b a \<and> vc_partial_cmp a b = None))"

definition vc_equal_clocks_are_not_concurrent :: "build \<Rightarrow> bool" where
  "vc_equal_clocks_are_not_concurrent build \<longleftrightarrow>
     runs (vc_increment build 1) vc_new (\<lambda>_ a.
       let b = a in \<not> vc_concurrent_with a b \<and> \<not> vc_happens_before a b)"

definition vc_merge_takes_elementwise_max :: "build \<Rightarrow> bool" where
  "vc_merge_takes_elementwise_max build \<longleftrightarrow>
     runs (vc_increment build 1) vc_new (\<lambda>_ a. runs (vc_increment build 1) a (\<lambda>_ a.
     runs (vc_increment build 1) vc_new (\<lambda>_ b. runs (vc_increment build 2) b (\<lambda>_ b.
       let a = vc_merge a b in vc_get a 1 = 2 \<and> vc_get a 2 = 1))))"

definition vc_observe_advances_when_higher :: bool where
  "vc_observe_advances_when_higher \<longleftrightarrow>
     (let a5 = vc_observe 1 5 vc_new; a3 = vc_observe 1 3 a5; a7 = vc_observe 1 7 a3
      in vc_get a5 1 = 5 \<and> vc_get a3 1 = 5 \<and> vc_get a7 1 = 7)"

definition vc_prop_merge_is_commutative ::
  "build \<Rightarrow> (replica_id \<times> nat) list \<Rightarrow> (replica_id \<times> nat) list \<Rightarrow> bool" where
  "vc_prop_merge_is_commutative build ops_a ops_b \<longleftrightarrow>
     runs (vc_build build ops_a) vc_new (\<lambda>_ a. runs (vc_build build ops_b) vc_new (\<lambda>_ b.
       vc_eq (vc_merge a b) (vc_merge b a)))"

definition vc_prop_merge_is_associative ::
  "build \<Rightarrow> (replica_id \<times> nat) list \<Rightarrow> (replica_id \<times> nat) list \<Rightarrow> (replica_id \<times> nat) list \<Rightarrow> bool" where
  "vc_prop_merge_is_associative build ops_a ops_b ops_c \<longleftrightarrow>
     runs (vc_build build ops_a) vc_new (\<lambda>_ a. runs (vc_build build ops_b) vc_new (\<lambda>_ b.
     runs (vc_build build ops_c) vc_new (\<lambda>_ c.
       let ab_c = vc_merge (vc_merge a b) c; bc = vc_merge b c; a_bc = vc_merge a bc
       in vc_eq ab_c a_bc)))"

definition vc_prop_merge_is_idempotent :: "build \<Rightarrow> (replica_id \<times> nat) list \<Rightarrow> bool" where
  "vc_prop_merge_is_idempotent b ops \<longleftrightarrow>
     runs (vc_build b ops) vc_new (\<lambda>_ a. let snapshot = a in vc_eq (vc_merge a snapshot) snapshot)"

definition vc_prop_increment_makes_clock_greater ::
  "build \<Rightarrow> (replica_id \<times> nat) list \<Rightarrow> replica_id \<Rightarrow> bool" where
  "vc_prop_increment_makes_clock_greater b ops replica \<longleftrightarrow>
     runs (vc_build b ops) vc_new (\<lambda>_ before. runs (vc_increment b replica) before (\<lambda>_ after.
       vc_happens_before before after \<and> \<not> vc_happens_before after before))"

definition vc_prop_merged_clock_dominates_both ::
  "build \<Rightarrow> (replica_id \<times> nat) list \<Rightarrow> (replica_id \<times> nat) list \<Rightarrow> bool" where
  "vc_prop_merged_clock_dominates_both build ops_a ops_b \<longleftrightarrow>
     runs (vc_build build ops_a) vc_new (\<lambda>_ a. runs (vc_build build ops_b) vc_new (\<lambda>_ b.
       let merged = vc_merge a b
       in vc_partial_cmp a merged \<in> {Some Less, Some Equal} \<and>
          vc_partial_cmp b merged \<in> {Some Less, Some Equal}))"

text \<open>The generator \<^verbatim>\<open>vec((0u64..5, 0u8..10), 0..20)\<close>; the helper \<^verbatim>\<open>build\<close> counts the second
  component down, so the model has it as a number.\<close>

definition vc_cases :: "(replica_id \<times> nat) list \<Rightarrow> bool" where
  "vc_cases ops \<longleftrightarrow> length ops < 20 \<and> list_all (\<lambda>(r, n). r < 5 \<and> n < 10) ops"

text \<open>No counter is above \<open>m\<close>, and none is a zero entry.\<close>

definition vc_upto :: "nat \<Rightarrow> vector_clock \<Rightarrow> bool" where
  "vc_upto m c \<longleftrightarrow> vc_positive c \<and> (\<forall>r. unat (vc_get c r) \<le> m)"

lemma vc_upto_not_max: "vc_upto m c \<Longrightarrow> m < 2 ^ 64 - 1 \<Longrightarrow> vc_get c r \<noteq> - 1"
proof
  assume "vc_upto m c" "m < 2 ^ 64 - 1" "vc_get c r = - 1"
  moreover have "unat (- 1 :: u64) = 2 ^ 64 - 1"
    by (simp add: unsigned_minus_1_eq_mask mask_eq_exp_minus_1)
  ultimately show False by (metis leD vc_upto_def)
qed

lemma vc_upto_increment:
  assumes "vc_upto m c" "m < 2 ^ 64 - 1"
  shows "fst (vc_increment b r c) = Inr (vc_get c r + 1)" "vc_upto (Suc m) (snd (vc_increment b r c))"
proof -
  have ne: "vc_get c r \<noteq> - 1" using assms by (rule vc_upto_not_max)
  then show "fst (vc_increment b r c) = Inr (vc_get c r + 1)" by (simp add: vc_increment_ok(1))
  show "vc_upto (Suc m) (snd (vc_increment b r c))"
    using assms ne
    by (auto simp: vc_upto_def vc_positive_increment vc_get_increment unat_succ intro: le_SucI)
qed

lemma vc_upto_increments:
  "vc_upto m c \<Longrightarrow> m + n < 2 ^ 64 - 1 \<Longrightarrow>
   fst (vc_increments b r n c) = Inr () \<and> vc_upto (m + n) (snd (vc_increments b r n c))"
proof (induction n arbitrary: m c)
  case (Suc n)
  have m: "m < 2 ^ 64 - 1" using Suc.prems(2) by simp
  obtain c' where "vc_increment b r c = (Inr (vc_get c r + 1), c')" "vc_upto (Suc m) c'"
    using vc_upto_increment [OF Suc.prems(1) m, of b r] by (cases "vc_increment b r c") auto
  then show ?case using Suc.IH [of "Suc m" c'] Suc.prems(2) by simp
qed simp

lemma vc_upto_build:
  "vc_upto m c \<Longrightarrow> m + sum_list (map snd ops) < 2 ^ 64 - 1 \<Longrightarrow>
   fst (vc_build b ops c) = Inr () \<and> vc_upto (m + sum_list (map snd ops)) (snd (vc_build b ops c))"
proof (induction ops arbitrary: m c)
  case (Cons e ops)
  obtain r n where e: "e = (r, n)" by (cases e)
  have "m + n < 2 ^ 64 - 1" using Cons.prems(2) by (simp add: e)
  from vc_upto_increments [OF Cons.prems(1) this, of b r]
  obtain c' where "vc_increments b r n c = (Inr (), c')" "vc_upto (m + n) c'"
    by (cases "vc_increments b r n c") auto
  then show ?case using Cons.IH [of "m + n" c'] Cons.prems(2) by (simp add: e add.assoc)
qed simp

lemma vc_cases_build:
  assumes "vc_cases ops"
  shows "fst (vc_build b ops vc_new) = Inr ()" "vc_upto 200 (snd (vc_build b ops vc_new))"
proof -
  have "list_all (\<lambda>(r, n). n < 10) xs \<Longrightarrow> sum_list (map snd xs) \<le> 10 * length xs" for xs :: "(replica_id \<times> nat) list"
    by (induction xs) auto
  moreover have "list_all (\<lambda>(r, n). n < 10) ops"
    using assms by (auto simp: vc_cases_def elim: list.pred_mono_strong)
  ultimately have le: "sum_list (map snd ops) \<le> 200"
    using assms by (fastforce simp: vc_cases_def)
  have "vc_upto 0 vc_new" by (simp add: vc_upto_def vc_positive_new vc_get_view view_simps)
  from vc_upto_build [OF this, of ops b] le
  have "fst (vc_build b ops vc_new) = Inr ()" "vc_upto (sum_list (map snd ops)) (snd (vc_build b ops vc_new))"
    by simp_all
  then show "fst (vc_build b ops vc_new) = Inr ()" "vc_upto 200 (snd (vc_build b ops vc_new))"
    using le unfolding vc_upto_def by (auto intro: order_trans)
qed

lemma runs_vc_build:
  "vc_cases ops \<Longrightarrow> runs (vc_build b ops) vc_new k = k () (snd (vc_build b ops vc_new))"
  by (rule runs_eq) (rule vc_cases_build(1))

lemma runs_vc_increment:
  "vc_get c r \<noteq> - 1 \<Longrightarrow> runs (vc_increment b r) c k = k (vc_get c r + 1) (snd (vc_increment b r c))"
  by (rule runs_eq) (simp add: vc_increment_ok(1))

lemma vc_prop_tests:
  assumes "vc_cases ops_a" "vc_cases ops_b" "vc_cases ops_c"
  shows "vc_prop_merge_is_commutative b ops_a ops_b \<and> vc_prop_merge_is_associative b ops_a ops_b ops_c \<and>
    vc_prop_merge_is_idempotent b ops_a \<and> vc_prop_increment_makes_clock_greater b ops_a replica \<and>
    vc_prop_merged_clock_dominates_both b ops_a ops_b"
proof -
  have positive: "vc_positive (snd (vc_build b ops vc_new))" if "vc_cases ops" for ops
    using vc_cases_build(2) [OF that] by (simp add: vc_upto_def)
  let ?a = "snd (vc_build b ops_a vc_new)"
  have ne: "vc_get ?a replica \<noteq> - 1"
    using vc_cases_build(2) [OF assms(1)] by (rule vc_upto_not_max) simp
  have le: "vc_le ?a (snd (vc_increment b replica ?a))"
    using ne word_less_succ [OF ne] by (auto simp: vc_le_def vc_get_increment)
  have "\<not> vc_le (snd (vc_increment b replica ?a)) ?a"
    using ne word_less_succ [OF ne] by (auto simp: vc_le_def vc_get_increment not_le intro!: exI [of _ replica])
  with le have "vc_prop_increment_makes_clock_greater b ops_a replica"
    by (simp add: vc_prop_increment_makes_clock_greater_def runs_vc_build [OF assms(1)] runs_vc_increment [OF ne]
        vc_happens_before_iff)
  moreover have "vc_prop_merged_clock_dominates_both b ops_a ops_b"
    using assms
    by (simp add: vc_prop_merged_clock_dominates_both_def runs_vc_build vc_partial_cmp_eq vc_le_def
        vc_get_merge)
  ultimately show ?thesis
    using assms
    by (simp add: vc_prop_merge_is_commutative_def vc_prop_merge_is_associative_def
        vc_prop_merge_is_idempotent_def runs_vc_build positive vc.merge_comm vc.merge_assoc vc.merge_idem)
qed

lemma vc_get_new [simp]: "vc_get vc_new r = 0"
  by (simp add: vc_get_view view_simps)

lemma vc_unit_tests:
  "vc_empty_clocks_are_equal \<and> vc_increment_advances_own_counter b \<and> vc_happens_before_detected b \<and>
   vc_concurrent_events_detected b \<and> vc_equal_clocks_are_not_concurrent b \<and>
   vc_merge_takes_elementwise_max b \<and> vc_observe_advances_when_higher"
proof -
  note get = runs_vc_increment vc_get_increment vc_get_observe vc_get_merge
  have "vc_happens_before_detected b"
    by (auto simp: vc_happens_before_detected_def get vc_happens_before_iff vc_partial_cmp_eq vc_le_def
        word_le_nat_alt)
  moreover have "vc_concurrent_events_detected b"
    by (auto simp: vc_concurrent_events_detected_def get vc_concurrent_iff vc_partial_cmp_eq vc_le_def)
  moreover have "vc_increment_advances_own_counter b" "vc_merge_takes_elementwise_max b"
    "vc_observe_advances_when_higher"
    by (simp_all add: vc_increment_advances_own_counter_def vc_merge_takes_elementwise_max_def
        vc_observe_advances_when_higher_def Let_def get)
  ultimately show ?thesis
    by (simp add: vc_empty_clocks_are_equal_def vc_equal_clocks_are_not_concurrent_def Let_def get vc_eq_view
        vc_partial_cmp_eq vc_concurrent_iff vc_happens_before_iff)
qed

lemma core_unit_tests:
  "(gc_empty_counter_is_zero b \<and> gc_single_replica_increments_accumulate b \<and> gc_merge_combines_replicas b \<and>
    gc_merge_is_idempotent b \<and> gc_merge_is_commutative b) \<and>
   (pn_empty_counter_is_zero b \<and> pn_increments_and_decrements_combine b \<and> pn_value_can_be_negative b \<and>
    pn_merge_combines_replicas b \<and> pn_merge_is_idempotent b) \<and>
   (gs_empty_set_is_empty \<and> gs_insert_adds_element \<and> gs_reinsert_returns_false_and_does_not_grow \<and>
    gs_merge_combines_elements \<and> gs_merge_with_self_is_noop \<and> gs_supports_string_elements) \<and>
   (vc_empty_clocks_are_equal \<and> vc_increment_advances_own_counter b \<and> vc_happens_before_detected b \<and>
    vc_concurrent_events_detected b \<and> vc_equal_clocks_are_not_concurrent b \<and>
    vc_merge_takes_elementwise_max b \<and> vc_observe_advances_when_higher)"
  using gc_unit_tests pn_unit_tests gs_unit_tests vc_unit_tests by blast

subsection \<open>Properties\<close>

text \<open>C27. All property tests of the crate hold for every value their generators can produce, in either build, and no
  operation in them panics. For the sets the generators need not be restricted at all.\<close>

theorem core_property_tests_pass:
  assumes "gc_cases ga" "gc_cases gb" "gc_cases gc" "pn_cases pa" "pn_cases pb" "pn_cases pc"
    "vc_cases va" "vc_cases vb" "vc_cases vc"
  shows "(gc_prop_merge_is_commutative b ga gb \<and> gc_prop_merge_is_associative b ga gb gc \<and>
      gc_prop_merge_is_idempotent b ga) \<and>
    (pn_prop_merge_is_commutative b pa pb \<and> pn_prop_merge_is_associative b pa pb pc \<and>
      pn_prop_merge_is_idempotent b pa) \<and>
    (gs_prop_merge_is_commutative sa sb \<and> gs_prop_merge_is_associative sa sb sc \<and>
      gs_prop_merge_is_idempotent sa) \<and>
    (vc_prop_merge_is_commutative b va vb \<and> vc_prop_merge_is_associative b va vb vc \<and>
      vc_prop_merge_is_idempotent b va \<and> vc_prop_increment_makes_clock_greater b va replica \<and>
      vc_prop_merged_clock_dominates_both b va vb)"
  using gc_prop_tests [OF assms(1-3)] pn_prop_tests [OF assms(4-6)] gs_prop_tests vc_prop_tests [OF assms(7-9)]
  by blast

theorem core_property_tests_pass_witness:
  "gc_prop_merge_is_commutative Debug [(1, 99), (4, 3)] [(1, 7)] \<and>
   pn_prop_merge_is_idempotent Release [(1, True, 5), (1, False, 99)] \<and>
   vc_prop_increment_makes_clock_greater Debug [(0, 9), (3, 2)] 3"
proof -
  have "gc_cases [(1, 99), (4, 3)]" "gc_cases [(1, 7)]" "pn_cases [(1, True, 5), (1, False, 99)]"
    "vc_cases [(0, 9), (3, 2)]"
    by (simp_all add: gc_cases_def pn_cases_def vc_cases_def word_less_nat_alt)
  then show ?thesis using core_property_tests_pass by blast
qed

end
