(* ===== verification/Sync.thy ===== *)
theory Sync
  imports CvRDT
begin

section \<open>The peer-to-peer sync layer\<close>

text \<open>
  \<^verbatim>\<open>crates/crdt-sync/src/lib.rs\<close>, generic in the state. What the crate calls from outside is a
  parameter or an input: \<open>enc\<close> and \<open>dec\<close> are \<^verbatim>\<open>bincode::serialize\<close> and \<^verbatim>\<open>deserialize\<close> of a
  \<open>sync_message\<close>, \<open>wr n\<close> says whether the write of the connection's \<open>n\<close>-th frame succeeds, a list of
  \<open>frame\<close>s is what the framed TCP stream yields until it ends, and a list of \<open>wake\<close>s is the order in which
  \<^verbatim>\<open>tokio::select!\<close> sees the change channel and the ticker fire, each with the shared state as it is at
  that moment. The locks are held for one merge or one clone at a time, so these are the atomic steps.
\<close>

subsection \<open>Messages and nodes\<close>

datatype 's sync_message = Hello rust_string | State 's

datatype sync_error = EncodeError | DecodeError | IoError

text \<open>\<^verbatim>\<open>ANTI_ENTROPY_INTERVAL\<close>, \<^verbatim>\<open>RECONNECT_DELAY\<close> and the pause after a failed accept, in
  milliseconds.\<close>

definition anti_entropy_interval :: nat where "anti_entropy_interval = 5000"

definition reconnect_delay :: nat where "reconnect_delay = 2000"

definition accept_error_delay :: nat where "accept_error_delay = 250"

record ('a, 's) sync_node =
  node_peer_id :: rust_string
  node_state :: 's
  node_listen_addr :: 'a
  node_peers :: "'a list"

definition sync_node_new :: "rust_string \<Rightarrow> 's \<Rightarrow> 'a \<Rightarrow> 'a list \<Rightarrow> ('a, 's) sync_node" where
  "sync_node_new peer_id state listen_addr peers =
     \<lparr>node_peer_id = peer_id, node_state = state, node_listen_addr = listen_addr, node_peers = peers\<rparr>"

datatype 'a task = Listen 'a | Connect 'a

text \<open>\<^verbatim>\<open>SyncNode::run\<close>: it fails when the listener cannot be bound, before any outgoing task
  is started; otherwise there is one listener and one outgoing task per peer.\<close>

definition sync_run :: "('a \<Rightarrow> bool) \<Rightarrow> ('a, 's) sync_node \<Rightarrow> sync_error + 'a task list" where
  "sync_run bind_ok node =
     (if bind_ok (node_listen_addr node)
      then Inr (Listen (node_listen_addr node) # map Connect (node_peers node)) else Inl IoError)"

text \<open>The accept loop of \<^verbatim>\<open>spawn_listener\<close>: every accepted connection gets a task of its own, an
  error only costs a pause. The result is the connections served and the time slept.\<close>

datatype 'c accept = Accepted 'c | AcceptError

fun accept_loop :: "'c accept list \<Rightarrow> 'c list \<times> nat" where
  "accept_loop [] = ([], 0)"
| "accept_loop (Accepted c # as) = (case accept_loop as of (cs, t) \<Rightarrow> (c # cs, t))"
| "accept_loop (AcceptError # as) = (case accept_loop as of (cs, t) \<Rightarrow> (cs, accept_error_delay + t))"

subsection \<open>Sending\<close>

text \<open>\<open>out\<close> is what has been written to the connection so far.\<close>

definition send_message ::
  "('s sync_message \<Rightarrow> 'b option) \<Rightarrow> (nat \<Rightarrow> bool) \<Rightarrow> 's sync_message \<Rightarrow> 'b list \<Rightarrow>
   (sync_error + unit) \<times> 'b list" where
  "send_message enc wr msg out =
     (case enc msg of
        None \<Rightarrow> (Inl EncodeError, out)
      | Some encoded \<Rightarrow> if wr (length out) then (Inr (), out @ [encoded]) else (Inl IoError, out))"

definition push_state ::
  "('s sync_message \<Rightarrow> 'b option) \<Rightarrow> (nat \<Rightarrow> bool) \<Rightarrow> 's \<Rightarrow> 'b list \<Rightarrow> (sync_error + unit) \<times> 'b list" where
  "push_state enc wr snapshot out = send_message enc wr (State snapshot) out"

text \<open>The result of \<^verbatim>\<open>broadcast::Receiver::recv\<close>: a notification, or an error because the receiver
  has fallen behind or the channel is closed.\<close>

datatype 'n recv = Received 'n | Lagged | Closed

datatype wake = Changed "unit recv" | Tick

text \<open>The \<^verbatim>\<open>select!\<close> loop of \<^verbatim>\<open>drive_outgoing\<close>. \<open>None\<close> as a result: the loop is still waiting.\<close>

fun drive_loop ::
  "('s sync_message \<Rightarrow> 'b option) \<Rightarrow> (nat \<Rightarrow> bool) \<Rightarrow> (wake \<times> 's) list \<Rightarrow> 'b list \<Rightarrow>
   (sync_error + unit) option \<times> 'b list" where
  "drive_loop enc wr [] out = (None, out)"
| "drive_loop enc wr ((w, s) # ws) out =
     (if w = Changed Lagged \<or> w = Changed Closed then (Some (Inr ()), out)
      else case push_state enc wr s out of
             (Inl e, out') \<Rightarrow> (Some (Inl e), out')
           | (Inr _, out') \<Rightarrow> drive_loop enc wr ws out')"

definition drive_outgoing ::
  "('s sync_message \<Rightarrow> 'b option) \<Rightarrow> (nat \<Rightarrow> bool) \<Rightarrow> rust_string \<Rightarrow> 's \<Rightarrow> (wake \<times> 's) list \<Rightarrow>
   (sync_error + unit) option \<times> 'b list" where
  "drive_outgoing enc wr peer_id s ws =
     (case send_message enc wr (Hello peer_id) [] of
        (Inl e, out) \<Rightarrow> (Some (Inl e), out)
      | (Inr _, out) \<Rightarrow> (case push_state enc wr s out of
            (Inl e, out') \<Rightarrow> (Some (Inl e), out')
          | (Inr _, out') \<Rightarrow> drive_loop enc wr ws out'))"

text \<open>
  The reconnect loop of \<^verbatim>\<open>spawn_outgoing\<close>, over the attempts to connect: an attempt fails, or
  it opens a session with its own writes, first state and wake-ups. After every attempt, however it
  ended, the task sleeps \<open>reconnect_delay\<close> and tries again; a session that is still waiting is the
  last one. The result is what each session has written, and the time slept.
\<close>

datatype 's attempt = Refused | Session "nat \<Rightarrow> bool" 's "(wake \<times> 's) list"

fun outgoing_task ::
  "('s sync_message \<Rightarrow> 'b option) \<Rightarrow> rust_string \<Rightarrow> 's attempt list \<Rightarrow> 'b list list \<times> nat" where
  "outgoing_task enc peer_id [] = ([], 0)"
| "outgoing_task enc peer_id (Refused # as) =
     (case outgoing_task enc peer_id as of (outs, t) \<Rightarrow> (outs, reconnect_delay + t))"
| "outgoing_task enc peer_id (Session wr s ws # as) =
     (case drive_outgoing enc wr peer_id s ws of
        (None, out) \<Rightarrow> ([out], 0)
      | (Some _, out) \<Rightarrow>
          (case outgoing_task enc peer_id as of (outs, t) \<Rightarrow> (out # outs, reconnect_delay + t)))"

subsection \<open>Receiving\<close>

datatype 'b frame = Frame 'b | FrameError

text \<open>One turn of the loop of \<^verbatim>\<open>serve_incoming\<close>: the result that ends the task, if any, the shared
  state, and the number of remote-update notifications sent.\<close>

definition serve_frame ::
  "('b \<Rightarrow> 's sync_message option) \<Rightarrow> ('s \<Rightarrow> 's \<Rightarrow> 's) \<Rightarrow> 'b frame \<Rightarrow> 's \<Rightarrow> nat \<Rightarrow>
   sync_error option \<times> 's \<times> nat" where
  "serve_frame dec merge fr local notified =
     (case fr of
        FrameError \<Rightarrow> (Some IoError, local, notified)
      | Frame bytes \<Rightarrow>
          (case dec bytes of
             None \<Rightarrow> (Some DecodeError, local, notified)
           | Some (Hello peer_id) \<Rightarrow> (None, local, notified)
           | Some (State remote_state) \<Rightarrow> (None, merge local remote_state, Suc notified)))"

fun serve_loop ::
  "('b \<Rightarrow> 's sync_message option) \<Rightarrow> ('s \<Rightarrow> 's \<Rightarrow> 's) \<Rightarrow> 'b frame list \<Rightarrow> 's \<Rightarrow> nat \<Rightarrow>
   (sync_error + unit) \<times> 's \<times> nat" where
  "serve_loop dec merge [] s n = (Inr (), s, n)"
| "serve_loop dec merge (f # fs) s n =
     (case serve_frame dec merge f s n of
        (Some e, s', n') \<Rightarrow> (Inl e, s', n')
      | (None, s', n') \<Rightarrow> serve_loop dec merge fs s' n')"

definition serve_incoming ::
  "('s sync_message \<Rightarrow> 'b option) \<Rightarrow> ('b \<Rightarrow> 's sync_message option) \<Rightarrow> ('s \<Rightarrow> 's \<Rightarrow> 's) \<Rightarrow>
   (nat \<Rightarrow> bool) \<Rightarrow> rust_string \<Rightarrow> 'b frame list \<Rightarrow> 's \<Rightarrow> nat \<Rightarrow> (sync_error + unit) \<times> 's \<times> nat" where
  "serve_incoming enc dec merge wr peer_id frames s n =
     (case send_message enc wr (Hello peer_id) [] of
        (Inl e, _) \<Rightarrow> (Inl e, s, n)
      | (Inr _, _) \<Rightarrow> serve_loop dec merge frames s n)"

subsection \<open>What is pushed and what is received\<close>

text \<open>The states a session pushes after its first one, while every write succeeds: one per
  notification or tick, up to the first error of the change channel.\<close>

fun pushed :: "(wake \<times> 's) list \<Rightarrow> 's list" where
  "pushed [] = []"
| "pushed ((w, s) # ws) = (if w = Changed Lagged \<or> w = Changed Closed then [] else s # pushed ws)"

text \<open>The states in a sequence of frames, up to the first frame that is broken.\<close>

fun received :: "('b \<Rightarrow> 's sync_message option) \<Rightarrow> 'b frame list \<Rightarrow> 's list" where
  "received dec [] = []"
| "received dec (f # fs) =
     (case f of FrameError \<Rightarrow> []
      | Frame x \<Rightarrow> (case dec x of None \<Rightarrow> []
          | Some (Hello _) \<Rightarrow> received dec fs
          | Some (State r) \<Rightarrow> r # received dec fs))"

lemma serve_loop_absorb:
  "snd (serve_loop dec merge fs s n) =
     (absorb merge s (received dec fs), n + length (received dec fs))"
  by (induction fs arbitrary: s n)
    (auto simp: serve_frame_def absorb_def split: frame.split option.split sync_message.split)

abbreviation always_writes :: "nat \<Rightarrow> bool" where
  "always_writes \<equiv> \<lambda>_. True"

lemma drive_loop_all_sent:
  assumes "\<forall>m. enc m \<noteq> None"
  shows "snd (drive_loop enc always_writes ws out) = out @ map (\<lambda>s. the (enc (State s))) (pushed ws)"
proof (induction ws arbitrary: out)
  case Nil
  then show ?case by simp
next
  case (Cons e ws)
  obtain w s where e: "e = (w, s)" by (cases e)
  obtain x where "enc (State s) = Some x" using assms by blast
  then show ?case by (simp add: e Cons.IH push_state_def send_message_def)
qed

lemma drive_outgoing_all_sent:
  assumes "\<forall>m. enc m \<noteq> None"
  shows "snd (drive_outgoing enc always_writes peer_id s ws) =
           the (enc (Hello peer_id)) # map (\<lambda>s. the (enc (State s))) (s # pushed ws)"
proof -
  obtain x y where "enc (Hello peer_id) = Some x" "enc (State s) = Some y"
    using assms by blast
  then show ?thesis
    by (simp add: drive_outgoing_def push_state_def send_message_def assms drive_loop_all_sent)
qed

text \<open>
  What the sync layer relies on from its codec: a message that was encoded decodes again, up to
  \<open>wire\<close>, which is what serialisation keeps of a state (a type with \<^verbatim>\<open>#[serde(skip)]\<close> fields comes
  back with their defaults).
\<close>

definition codec_ok ::
  "('s sync_message \<Rightarrow> 'b option) \<Rightarrow> ('b \<Rightarrow> 's sync_message option) \<Rightarrow> ('s \<Rightarrow> 's) \<Rightarrow> bool" where
  "codec_ok enc dec wire \<longleftrightarrow>
     (\<forall>m. enc m \<noteq> None) \<and> (\<forall>m x. enc m = Some x \<longrightarrow> dec x = Some (map_sync_message wire m))"

lemma codec_ok_dec: "codec_ok enc dec wire \<Longrightarrow> dec (the (enc m)) = Some (map_sync_message wire m)"
  unfolding codec_ok_def by (metis option.collapse)

lemma received_states:
  "codec_ok enc dec wire \<Longrightarrow>
   received dec (map Frame (map (\<lambda>s. the (enc (State s))) ss)) = map wire ss"
  by (induction ss) (simp_all add: codec_ok_dec)

lemma serve_states:
  assumes codec: "codec_ok enc dec wire"
  shows "serve_loop dec merge (map Frame (map (\<lambda>s. the (enc (State s))) ss)) t n =
           (Inr (), absorb merge t (map wire ss), n + length ss)"
proof -
  have "fst (serve_loop dec merge (map Frame (map (\<lambda>s. the (enc (State s))) ss)) t n) = Inr ()"
    by (induction ss arbitrary: t n) (simp_all add: serve_frame_def codec_ok_dec [OF codec])
  then show ?thesis
    using serve_loop_absorb [of dec merge "map Frame (map (\<lambda>s. the (enc (State s))) ss)" t n]
    unfolding received_states [OF codec] by (simp add: prod_eq_iff)
qed

lemma serve_session:
  assumes codec: "codec_ok enc dec wire"
  shows "serve_loop dec merge
           (map Frame (take (Suc k) (snd (drive_outgoing enc always_writes peer_id s ws)))) t n =
         (Inr (), absorb merge t (map wire (take k (s # pushed ws))),
          n + length (take k (s # pushed ws)))"
proof -
  have enc: "\<forall>m. enc m \<noteq> None" using codec by (simp add: codec_ok_def)
  have "map Frame (take (Suc k) (snd (drive_outgoing enc always_writes peer_id s ws))) =
      Frame (the (enc (Hello peer_id))) #
      map Frame (map (\<lambda>s. the (enc (State s))) (take k (s # pushed ws)))"
  proof -
    define ss where "ss = s # pushed ws"
    show ?thesis
      unfolding drive_outgoing_all_sent [OF enc] ss_def [symmetric] by (simp add: take_map)
  qed
  then show ?thesis
    by (simp only: serve_loop.simps serve_frame_def codec_ok_dec [OF codec] frame.case option.case
        sync_message.case sync_message.map prod.case serve_states [OF codec])
qed

end
