(* ===== verification/Protocol.thy ===== *)
theory Protocol
  imports Collections
begin

section \<open>The messages between browser and server\<close>

text \<open>
  \<^verbatim>\<open>crates/todo-app/src/protocol.rs\<close>. The JSON text itself is made and read by code that serde
  derives, which is a parameter of the model wherever a text is needed.
\<close>

record todo_item =
  item_id :: rust_string
  item_text :: rust_string
  item_completed :: bool
  item_created_by :: rust_string

record peer_snapshot =
  snap_id :: rust_string
  snap_name :: rust_string
  snap_online :: bool
  snap_clock :: "(rust_string, u64) hash_map"
  snap_todos :: "todo_item list"

datatype server_message = Snapshot (local_peer_id: rust_string) (snapshot_peers: "peer_snapshot list")

datatype client_message =
    Add rust_string
  | Toggle rust_string
  | Delete rust_string
  | Resync

end
