(* ===== verification/TodoState.thy ===== *)
theory TodoState
  imports GSet VectorClock Protocol Sync
begin

section \<open>The replicated todo list\<close>

text \<open>
  \<^verbatim>\<open>crates/todo-app/src/state.rs\<close>. A replica's state: its identity and its counter for new
  identifiers, which are not serialised, and the replicated fields. Operations may panic in a debug
  build (the vector clock and the identifier counter are 64-bit counters), after which the state is
  whatever had been written by then. The data of an item is given by \<open>labels\<close>, one text and one
  creator per identifier: \<open>todo_agrees\<close> says that a state agrees with given labels, which is what
  makes its first-writer-wins maps mergeable.
\<close>

record todo_state =
  peer_id :: rust_string
  replica_id :: replica_id
  next_local_id :: u64
  added :: "rust_string gset"
  removed :: "rust_string gset"
  texts :: "(rust_string, rust_string) hash_map"
  completed :: "(rust_string, bool) hash_map"
  creators :: "(rust_string, rust_string) hash_map"
  clock :: vector_clock

definition todo_new :: "rust_string \<Rightarrow> replica_id \<Rightarrow> todo_state" where
  "todo_new pid rid =
     \<lparr>peer_id = pid, replica_id = rid, next_local_id = 0, added = gs_new, removed = gs_new,
      texts = hm_new, completed = hm_new, creators = hm_new, clock = vc_new\<rparr>"

lemma todo_new_fields [simp]:
  "peer_id (todo_new pid rid) = pid" "replica_id (todo_new pid rid) = rid"
  "next_local_id (todo_new pid rid) = 0" "gs_view (added (todo_new pid rid)) = {}"
  "gs_view (removed (todo_new pid rid)) = {}" "hm_get (texts (todo_new pid rid)) = Map.empty"
  "hm_get (completed (todo_new pid rid)) = Map.empty"
  "hm_get (creators (todo_new pid rid)) = Map.empty"
  "vc_view (clock (todo_new pid rid)) = Map.empty" "vc_get (clock (todo_new pid rid)) = (\<lambda>_. 0)"
  "vc_positive (clock (todo_new pid rid))"
  by (auto simp: todo_new_def view_simps vc_positive_new vc_get_view)

subsection \<open>Operations\<close>

definition tick_clock :: "build \<Rightarrow> (todo_state, unit) run" where
  "tick_clock b s =
     (case vc_increment b (replica_id s) (clock s) of (r, c) \<Rightarrow> (map_sum id (\<lambda>_. ()) r, s\<lparr>clock := c\<rparr>))"

definition todo_id :: "rust_string \<Rightarrow> nat \<Rightarrow> rust_string" where
  "todo_id pid n = pid @ lit ''-'' @ dec_digits n"

definition new_todo_id :: "build \<Rightarrow> (todo_state, rust_string) run" where
  "new_todo_id b s =
     (case add_unsigned b (next_local_id s) 1 of
        Inl e \<Rightarrow> (Inl e, s)
      | Inr n \<Rightarrow> (Inr (todo_id (peer_id s) (unat n)), s\<lparr>next_local_id := n\<rparr>))"

definition insert_item :: "rust_string \<Rightarrow> rust_string \<Rightarrow> (todo_state, unit) run" where
  "insert_item txt i s =
     (Inr (), s\<lparr>added := snd (gs_insert i (added s)),
                texts := hm_insert i txt (texts s),
                completed := hm_insert i False (completed s),
                creators := hm_insert i (peer_id s) (creators s)\<rparr>)"

definition todo_add :: "build \<Rightarrow> rust_string \<Rightarrow> (todo_state, unit) run" where
  "todo_add b txt s =
     (let trimmed = trim txt
      in if trimmed = [] then (Inr (), s)
         else and_then (tick_clock b) (\<lambda>_. and_then (new_todo_id b) (insert_item trimmed)) s)"

definition flip_completed :: "rust_string \<Rightarrow> (todo_state, unit) run" where
  "flip_completed i s =
     (let current = (case hm_get (completed s) i of None \<Rightarrow> False | Some c \<Rightarrow> c)
      in (Inr (), s\<lparr>completed := hm_insert i (\<not> current) (completed s)\<rparr>))"

definition todo_toggle :: "build \<Rightarrow> rust_string \<Rightarrow> (todo_state, unit) run" where
  "todo_toggle b i s =
     (if \<not> gs_contains (added s) i \<or> gs_contains (removed s) i then (Inr (), s)
      else and_then (tick_clock b) (\<lambda>_. flip_completed i) s)"

definition mark_removed :: "rust_string \<Rightarrow> (todo_state, unit) run" where
  "mark_removed i s = (Inr (), s\<lparr>removed := snd (gs_insert i (removed s))\<rparr>)"

definition todo_delete :: "build \<Rightarrow> rust_string \<Rightarrow> (todo_state, unit) run" where
  "todo_delete b i s =
     (if \<not> gs_contains (added s) i then (Inr (), s)
      else and_then (tick_clock b) (\<lambda>_. mark_removed i) s)"

fun todo_apply :: "build \<Rightarrow> client_message \<Rightarrow> (todo_state, unit) run" where
  "todo_apply b (Add txt) s = todo_add b txt s"
| "todo_apply b (Toggle i) s = todo_toggle b i s"
| "todo_apply b (Delete i) s = todo_delete b i s"
| "todo_apply b Resync s = (Inr (), s)"

subsection \<open>Merge\<close>

definition merge_text ::
  "rust_string \<times> rust_string \<Rightarrow> (rust_string, rust_string) hash_map \<Rightarrow> (rust_string, rust_string) hash_map" where
  "merge_text e m = (case e of (i, t) \<Rightarrow> snd (hm_or_insert i t m))"

definition merge_completed ::
  "rust_string \<times> bool \<Rightarrow> (rust_string, bool) hash_map \<Rightarrow> (rust_string, bool) hash_map" where
  "merge_completed e m =
     (case e of (i, remote_completed) \<Rightarrow> hm_entry i False (\<lambda>c. c \<or> remote_completed) m)"

definition todo_merge :: "todo_state \<Rightarrow> todo_state \<Rightarrow> todo_state" where
  "todo_merge self other =
     self\<lparr>added := gs_merge (added self) (added other),
          removed := gs_merge (removed self) (removed other),
          texts := fold merge_text (hm_iter (texts other)) (texts self),
          creators := fold merge_text (hm_iter (creators other)) (creators self),
          completed := fold merge_completed (hm_iter (completed other)) (completed self),
          clock := vc_merge (clock self) (clock other)\<rparr>"

text \<open>Serialised and read back: the fields marked \<^verbatim>\<open>#[serde(skip)]\<close> have their defaults.\<close>

definition todo_wire :: "todo_state \<Rightarrow> todo_state" where
  "todo_wire s = s\<lparr>peer_id := [], replica_id := 0, next_local_id := 0\<rparr>"

subsection \<open>Snapshot\<close>

definition snapshot_item :: "todo_state \<Rightarrow> rust_string \<Rightarrow> todo_item option" where
  "snapshot_item s i =
     (case hm_get (texts s) i of
        None \<Rightarrow> None
      | Some t \<Rightarrow> Some
          \<lparr>item_id = i, item_text = t,
           item_completed = (case hm_get (completed s) i of None \<Rightarrow> False | Some c \<Rightarrow> c),
           item_created_by = (case hm_get (creators s) i of None \<Rightarrow> peer_id s | Some c \<Rightarrow> c)\<rparr>)"

definition snapshot_todos :: "todo_state \<Rightarrow> todo_item list" where
  "snapshot_todos s =
     sort_key item_id
       (List.map_filter (snapshot_item s)
         (filter (\<lambda>i. \<not> gs_contains (removed s) i) (gs_iter (added s))))"

definition snapshot :: "todo_state \<Rightarrow> server_message" where
  "snapshot s =
     Snapshot (peer_id s)
       [\<lparr>snap_id = peer_id s, snap_name = lit ''Peer '' @ peer_id s, snap_online = True,
         snap_clock = hm_insert (peer_id s) (vc_get (clock s) (replica_id s)) hm_new,
         snap_todos = snapshot_todos s\<rparr>]"

subsection \<open>Identifiers\<close>

text \<open>The last hyphen of an identifier separates the peer from the number, so both can be read back,
  even if the name of the peer contains hyphens and digits.\<close>

lemma hyphen_not_digit: "45 \<notin> set (dec_digits n)"
  using dec_digits_digits [of 45 n] by (auto simp: is_ascii_digit_def)

lemma append_hyphen_inject:
  "45 \<notin> set (xs :: nat list) \<Longrightarrow> 45 \<notin> set ys \<Longrightarrow>
   p @ 45 # xs = q @ 45 # ys \<longleftrightarrow> p = q \<and> xs = ys"
proof -
  assume "45 \<notin> set xs" "45 \<notin> set ys"
  then have "\<forall>x\<in>set xs. x \<noteq> 45" "\<forall>y\<in>set ys. y \<noteq> 45" by auto
  then have "takeWhile (\<lambda>c. c \<noteq> 45) (rev (p @ 45 # xs)) = rev xs"
    "takeWhile (\<lambda>c. c \<noteq> 45) (rev (q @ 45 # ys)) = rev ys"
    by (simp_all add: takeWhile_tail)
  then show ?thesis by (metis append_same_eq rev_rev_ident list.inject)
qed

lemma todo_id_inject [simp]: "todo_id p m = todo_id q n \<longleftrightarrow> p = q \<and> m = n"
  by (simp add: todo_id_def lit_def append_hyphen_inject hyphen_not_digit)

subsection \<open>Views\<close>

type_synonym todo_view =
  "rust_string set \<times> rust_string set \<times> (rust_string \<Rightarrow> rust_string option) \<times>
   (rust_string \<Rightarrow> rust_string option) \<times> (rust_string \<Rightarrow> bool option) \<times> (replica_id \<Rightarrow> u64 option)"

definition todo_view :: "todo_state \<Rightarrow> todo_view" where
  "todo_view s =
     (gs_view (added s), gs_view (removed s), hm_get (texts s), hm_get (creators s),
      hm_get (completed s), vc_view (clock s))"

text \<open>The replicated fields of two states are equal, by the derived equalities of their types.\<close>

definition todo_same :: "todo_state \<Rightarrow> todo_state \<Rightarrow> bool" where
  "todo_same s t \<longleftrightarrow>
     gs_eq (added s) (added t) \<and> gs_eq (removed s) (removed t) \<and> hm_eq (texts s) (texts t) \<and>
     hm_eq (creators s) (creators t) \<and> hm_eq (completed s) (completed t) \<and> vc_eq (clock s) (clock t)"

lemma todo_same_view: "todo_same s t \<longleftrightarrow> todo_view s = todo_view t"
  by (simp add: todo_same_def todo_view_def gs_eq_view hm_eq_iff vc_eq_view)

interpretation text_loop: pointwise_loop merge_text
    "\<lambda>t v. Some (case v of None \<Rightarrow> t | Some w \<Rightarrow> w)"
  by unfold_locales (auto simp: merge_text_def hm_or_insert_eq)

interpretation completed_loop: pointwise_loop merge_completed
    "\<lambda>r v. Some ((case v of None \<Rightarrow> False | Some c \<Rightarrow> c) \<or> r)"
  by unfold_locales (auto simp: merge_completed_def view_simps)

lemma get_merged_text:
  "hm_get (fold merge_text (hm_iter n) m) i = opt_join (\<lambda>a b. a) (hm_get m i) (hm_get n i)"
  by (auto simp: text_loop.get_fold split: option.split)

lemma get_merged_completed:
  "hm_get (fold merge_completed (hm_iter n) m) i = opt_join (\<or>) (hm_get m i) (hm_get n i)"
  by (auto simp: completed_loop.get_fold split: option.split)

lemma todo_merge_frame [simp]:
  "peer_id (todo_merge s t) = peer_id s" "replica_id (todo_merge s t) = replica_id s"
  "next_local_id (todo_merge s t) = next_local_id s"
  by (simp_all add: todo_merge_def)

lemma todo_merge_fields [view_simps]:
  "gs_view (added (todo_merge s t)) = gs_view (added s) \<union> gs_view (added t)"
  "gs_view (removed (todo_merge s t)) = gs_view (removed s) \<union> gs_view (removed t)"
  "hm_get (texts (todo_merge s t)) i = opt_join (\<lambda>a b. a) (hm_get (texts s) i) (hm_get (texts t) i)"
  "hm_get (creators (todo_merge s t)) i =
     opt_join (\<lambda>a b. a) (hm_get (creators s) i) (hm_get (creators t) i)"
  "hm_get (completed (todo_merge s t)) i =
     opt_join (\<or>) (hm_get (completed s) i) (hm_get (completed t) i)"
  "clock (todo_merge s t) = vc_merge (clock s) (clock t)"
  by (simp_all add: todo_merge_def view_simps get_merged_text get_merged_completed)

lemma todo_merge_wire: "todo_merge s (todo_wire t) = todo_merge s t"
  by (simp add: todo_merge_def todo_wire_def)

lemma todo_view_wire [simp]: "todo_view (todo_wire s) = todo_view s"
  by (simp add: todo_view_def todo_wire_def)

subsection \<open>Agreement on the data of items, and the laws of merge\<close>

type_synonym labels = "rust_string \<Rightarrow> rust_string \<times> rust_string"

definition todo_agrees :: "labels \<Rightarrow> todo_state \<Rightarrow> bool" where
  "todo_agrees L s \<longleftrightarrow>
     (\<forall>i t. hm_get (texts s) i = Some t \<longrightarrow> t = fst (L i)) \<and>
     (\<forall>i c. hm_get (creators s) i = Some c \<longrightarrow> c = snd (L i)) \<and>
     vc_positive (clock s)"

fun todo_join :: "todo_view \<Rightarrow> todo_view \<Rightarrow> todo_view" where
  "todo_join (a, r, t, k, c, v) (a', r', t', k', c', v') =
     (a \<union> a', r \<union> r', (\<lambda>i. opt_join (\<lambda>x y. x) (t i) (t' i)), (\<lambda>i. opt_join (\<lambda>x y. x) (k i) (k' i)),
      (\<lambda>i. opt_join (\<or>) (c i) (c' i)), (\<lambda>r. opt_join max (v r) (v' r)))"

lemma todo_agrees_merge:
  assumes "todo_agrees L s" "todo_agrees L t"
  shows "todo_agrees L (todo_merge s t)"
  unfolding todo_agrees_def
proof (intro conjI allI impI)
  fix i x
  assume "hm_get (texts (todo_merge s t)) i = Some x"
  with assms show "x = fst (L i)"
    by (cases "hm_get (texts s) i"; cases "hm_get (texts t) i") (auto simp: todo_agrees_def view_simps)
next
  fix i x
  assume "hm_get (creators (todo_merge s t)) i = Some x"
  with assms show "x = snd (L i)"
    by (cases "hm_get (creators s) i"; cases "hm_get (creators t) i")
      (auto simp: todo_agrees_def view_simps)
next
  show "vc_positive (clock (todo_merge s t))"
    using assms by (simp add: todo_agrees_def view_simps vc_positive_merge)
qed

lemma todo_view_merge:
  "todo_agrees L t \<Longrightarrow> todo_view (todo_merge s t) = todo_join (todo_view s) (todo_view t)"
  by (simp add: todo_view_def todo_agrees_def view_simps fun_eq_iff)

lemma todo_agrees_first_comm:
  assumes "todo_agrees L s" "todo_agrees L t"
  shows "opt_join (\<lambda>x y. x) (hm_get (texts s) i) (hm_get (texts t) i) =
           opt_join (\<lambda>x y. x) (hm_get (texts t) i) (hm_get (texts s) i)"
    and "opt_join (\<lambda>x y. x) (hm_get (creators s) i) (hm_get (creators t) i) =
           opt_join (\<lambda>x y. x) (hm_get (creators t) i) (hm_get (creators s) i)"
  using assms unfolding todo_agrees_def by (metis opt_join_first_laws(1))+

lemma todo_join_comm:
  assumes "todo_agrees L s" "todo_agrees L t"
  shows "todo_join (todo_view s) (todo_view t) = todo_join (todo_view t) (todo_view s)"
  using todo_agrees_first_comm [OF assms]
  by (auto simp: todo_view_def fun_eq_iff intro: opt_join_max_laws(1) opt_join_or_laws(1))

interpretation todo_viewed: cvrdt_view "todo_agrees L" todo_view todo_merge todo_join for L
proof unfold_locales
  fix s t u
  show "todo_join (todo_join (todo_view s) (todo_view t)) (todo_view u) =
      todo_join (todo_view s) (todo_join (todo_view t) (todo_view u))"
    by (simp add: todo_view_def fun_eq_iff opt_join_first_laws(2) opt_join_max_laws(2)
        opt_join_or_laws(2) Un_assoc)
  show "todo_join (todo_view s) (todo_view s) = todo_view s"
    by (simp add: todo_view_def fun_eq_iff opt_join_first_laws(3) opt_join_max_laws(3)
        opt_join_or_laws(3))
qed (auto intro: todo_agrees_merge todo_view_merge todo_join_comm)

interpretation todo: cvrdt "todo_agrees L" todo_same todo_merge for L
  unfolding todo_same_view [abs_def] by (rule todo_viewed.cvrdt_axioms)

end
