(* ===== verification/TodoSteps.thy ===== *)
theory TodoSteps
  imports TodoState
begin

section \<open>Local steps of a replica, its invariants and its snapshot\<close>

text \<open>
  Facts about \<open>todo_apply\<close> (\<^verbatim>\<open>TodoState::apply\<close>), the merge and the snapshot of one replica.
  \<open>local_step\<close> lists what a client message can do to the state, the states a panic leaves behind
  included; \<open>todo_wf\<close> is the structural invariant that every step and every merge keeps.
\<close>

subsection \<open>The step relation\<close>

definition ticked :: "build \<Rightarrow> todo_state \<Rightarrow> todo_state" where
  "ticked b s = s\<lparr>clock := snd (vc_increment b (replica_id s) (clock s))\<rparr>"

definition can_tick :: "build \<Rightarrow> todo_state \<Rightarrow> bool" where
  "can_tick b s \<longleftrightarrow> b = Release \<or> vc_get (clock s) (replica_id s) \<noteq> - 1"

definition can_number :: "build \<Rightarrow> todo_state \<Rightarrow> bool" where
  "can_number b s \<longleftrightarrow> b = Release \<or> next_local_id s \<noteq> - 1"

definition fresh_id :: "todo_state \<Rightarrow> rust_string" where
  "fresh_id s = todo_id (peer_id s) (unat (next_local_id s + 1))"

definition with_item :: "build \<Rightarrow> rust_string \<Rightarrow> todo_state \<Rightarrow> todo_state" where
  "with_item b txt s =
     snd (insert_item txt (fresh_id s) ((ticked b s)\<lparr>next_local_id := next_local_id s + 1\<rparr>))"

inductive local_step :: "build \<Rightarrow> todo_state \<Rightarrow> client_message \<Rightarrow> (panic + unit) \<Rightarrow> todo_state \<Rightarrow> bool"
  for b s where
  resync: "local_step b s Resync (Inr ()) s"
| add_blank: "trim txt = [] \<Longrightarrow> local_step b s (Add txt) (Inr ()) s"
| add: "trim txt \<noteq> [] \<Longrightarrow> can_tick b s \<Longrightarrow> can_number b s \<Longrightarrow>
     local_step b s (Add txt) (Inr ()) (with_item b (trim txt) s)"
| add_no_number: "trim txt \<noteq> [] \<Longrightarrow> can_tick b s \<Longrightarrow> \<not> can_number b s \<Longrightarrow>
     local_step b s (Add txt) (Inl ArithmeticOverflow) (ticked b s)"
| toggle_ignored: "i \<notin> gs_view (added s) \<or> i \<in> gs_view (removed s) \<Longrightarrow>
     local_step b s (Toggle i) (Inr ()) s"
| toggle: "i \<in> gs_view (added s) \<Longrightarrow> i \<notin> gs_view (removed s) \<Longrightarrow> can_tick b s \<Longrightarrow>
     local_step b s (Toggle i) (Inr ()) (snd (flip_completed i (ticked b s)))"
| delete_ignored: "i \<notin> gs_view (added s) \<Longrightarrow> local_step b s (Delete i) (Inr ()) s"
| delete: "i \<in> gs_view (added s) \<Longrightarrow> can_tick b s \<Longrightarrow>
     local_step b s (Delete i) (Inr ()) (snd (mark_removed i (ticked b s)))"
| no_tick: "\<not> can_tick b s \<Longrightarrow> local_step b s m (Inl ArithmeticOverflow) s"

inductive_cases local_step_addE: "local_step b s (Add txt) r s'"
inductive_cases local_step_toggleE: "local_step b s (Toggle i) r s'"
inductive_cases local_step_deleteE: "local_step b s (Delete i) r s'"

lemma ticked_frame [simp]:
  "peer_id (ticked b s) = peer_id s" "replica_id (ticked b s) = replica_id s"
  "next_local_id (ticked b s) = next_local_id s" "added (ticked b s) = added s"
  "removed (ticked b s) = removed s" "texts (ticked b s) = texts s"
  "completed (ticked b s) = completed s" "creators (ticked b s) = creators s"
  by (simp_all add: ticked_def)

lemma tick_clock_ok: "can_tick b s \<Longrightarrow> tick_clock b s = (Inr (), ticked b s)"
  using vc_increment_ok(1) [of b "clock s" "replica_id s"]
  by (cases "vc_increment b (replica_id s) (clock s)")
    (auto simp: tick_clock_def ticked_def can_tick_def)

lemma tick_clock_panic: "\<not> can_tick b s \<Longrightarrow> tick_clock b s = (Inl ArithmeticOverflow, s)"
  by (cases b) (simp_all add: tick_clock_def can_tick_def vc_increment_overflow)

lemma new_todo_id_ok:
  "can_number b s \<Longrightarrow> new_todo_id b s = (Inr (fresh_id s), s\<lparr>next_local_id := next_local_id s + 1\<rparr>)"
  by (cases b) (auto simp: new_todo_id_def can_number_def add_unsigned_one fresh_id_def)

lemma new_todo_id_panic: "\<not> can_number b s \<Longrightarrow> new_todo_id b s = (Inl ArithmeticOverflow, s)"
  by (cases b) (auto simp: new_todo_id_def can_number_def add_unsigned_one)

lemma can_number_ticked [simp]: "can_number b (ticked b s) = can_number b s"
  by (simp add: can_number_def)

lemma fresh_id_ticked [simp]: "fresh_id (ticked b s) = fresh_id s"
  by (simp add: fresh_id_def)

lemma todo_add_eq:
  "todo_add b txt s =
     (if trim txt = [] then (Inr (), s)
      else if \<not> can_tick b s then (Inl ArithmeticOverflow, s)
      else if \<not> can_number b s then (Inl ArithmeticOverflow, ticked b s)
      else (Inr (), with_item b (trim txt) s))"
  by (simp add: todo_add_def and_then_def tick_clock_ok tick_clock_panic new_todo_id_ok
      new_todo_id_panic with_item_def insert_item_def Let_def)

lemma todo_toggle_eq:
  "todo_toggle b i s =
     (if i \<notin> gs_view (added s) \<or> i \<in> gs_view (removed s) then (Inr (), s)
      else if \<not> can_tick b s then (Inl ArithmeticOverflow, s)
      else (Inr (), snd (flip_completed i (ticked b s))))"
  by (simp add: todo_toggle_def and_then_def tick_clock_ok tick_clock_panic gs_contains_iff
      flip_completed_def Let_def)

lemma todo_delete_eq:
  "todo_delete b i s =
     (if i \<notin> gs_view (added s) then (Inr (), s)
      else if \<not> can_tick b s then (Inl ArithmeticOverflow, s)
      else (Inr (), snd (mark_removed i (ticked b s))))"
  by (simp add: todo_delete_def and_then_def tick_clock_ok tick_clock_panic gs_contains_iff
      mark_removed_def)

lemmas todo_op_eqs = todo_add_eq todo_toggle_eq todo_delete_eq

text \<open>Every application of a client message is a local step.\<close>

lemma todo_apply_step: "local_step b s m (fst (todo_apply b m s)) (snd (todo_apply b m s))"
  by (cases m) (auto simp: todo_op_eqs intro: local_step.intros)

subsection \<open>What the steps do to the fields\<close>

lemma with_item_fields [view_simps]:
  "peer_id (with_item b txt s) = peer_id s"
  "replica_id (with_item b txt s) = replica_id s"
  "next_local_id (with_item b txt s) = next_local_id s + 1"
  "gs_view (added (with_item b txt s)) = insert (fresh_id s) (gs_view (added s))"
  "removed (with_item b txt s) = removed s"
  "hm_get (texts (with_item b txt s)) = (hm_get (texts s))(fresh_id s \<mapsto> txt)"
  "hm_get (completed (with_item b txt s)) = (hm_get (completed s))(fresh_id s \<mapsto> False)"
  "hm_get (creators (with_item b txt s)) = (hm_get (creators s))(fresh_id s \<mapsto> peer_id s)"
  "clock (with_item b txt s) = clock (ticked b s)"
  by (simp_all add: with_item_def insert_item_def view_simps)

lemma flip_completed_fields [view_simps]:
  "hm_get (completed (snd (flip_completed i s))) =
     (hm_get (completed s))(i \<mapsto> \<not> (case hm_get (completed s) i of None \<Rightarrow> False | Some c \<Rightarrow> c))"
  by (simp add: flip_completed_def view_simps Let_def)

lemma flip_completed_frame [simp]:
  "peer_id (snd (flip_completed i s)) = peer_id s"
  "replica_id (snd (flip_completed i s)) = replica_id s"
  "next_local_id (snd (flip_completed i s)) = next_local_id s"
  "added (snd (flip_completed i s)) = added s" "removed (snd (flip_completed i s)) = removed s"
  "texts (snd (flip_completed i s)) = texts s" "creators (snd (flip_completed i s)) = creators s"
  "clock (snd (flip_completed i s)) = clock s"
  by (simp_all add: flip_completed_def Let_def)

lemma mark_removed_fields [view_simps]:
  "gs_view (removed (snd (mark_removed i s))) = insert i (gs_view (removed s))"
  by (simp add: mark_removed_def view_simps)

lemma mark_removed_frame [simp]:
  "peer_id (snd (mark_removed i s)) = peer_id s"
  "replica_id (snd (mark_removed i s)) = replica_id s"
  "next_local_id (snd (mark_removed i s)) = next_local_id s"
  "added (snd (mark_removed i s)) = added s" "texts (snd (mark_removed i s)) = texts s"
  "completed (snd (mark_removed i s)) = completed s" "creators (snd (mark_removed i s)) = creators s"
  "clock (snd (mark_removed i s)) = clock s"
  by (simp_all add: mark_removed_def)

lemma local_step_ids:
  "local_step b s m r s' \<Longrightarrow> peer_id s' = peer_id s \<and> replica_id s' = replica_id s"
  by (induction rule: local_step.induct) (simp_all add: view_simps)

subsection \<open>The structural invariant\<close>

definition todo_wf :: "todo_state \<Rightarrow> bool" where
  "todo_wf s \<longleftrightarrow>
     gs_view (removed s) \<subseteq> gs_view (added s) \<and>
     dom (hm_get (texts s)) = gs_view (added s) \<and>
     dom (hm_get (creators s)) = gs_view (added s) \<and>
     dom (hm_get (completed s)) = gs_view (added s)"

lemma todo_wf_new: "todo_wf (todo_new pid rid)"
  by (simp add: todo_wf_def todo_new_def view_simps)

lemma todo_wf_ticked [simp]: "todo_wf (ticked b s) = todo_wf s"
  by (simp add: todo_wf_def)

lemma todo_wf_wire [simp]: "todo_wf (todo_wire s) = todo_wf s"
  by (simp add: todo_wf_def todo_wire_def)

lemma todo_wf_step: "local_step b s m r s' \<Longrightarrow> todo_wf s \<Longrightarrow> todo_wf s'"
  by (induction rule: local_step.induct) (auto simp: todo_wf_def view_simps)

lemma todo_wf_merge: "todo_wf s \<Longrightarrow> todo_wf t \<Longrightarrow> todo_wf (todo_merge s t)"
proof -
  assume wf: "todo_wf s" "todo_wf t"
  have "hm_get (texts (todo_merge s t)) =
      (\<lambda>i. opt_join (\<lambda>a b. a) (hm_get (texts s) i) (hm_get (texts t) i))"
    and "hm_get (creators (todo_merge s t)) =
      (\<lambda>i. opt_join (\<lambda>a b. a) (hm_get (creators s) i) (hm_get (creators t) i))"
    and "hm_get (completed (todo_merge s t)) =
      (\<lambda>i. opt_join (\<or>) (hm_get (completed s) i) (hm_get (completed t) i))"
    by (simp_all add: fun_eq_iff view_simps)
  with wf show ?thesis
    by (auto simp: todo_wf_def dom_opt_join todo_merge_fields(1,2))
qed

subsection \<open>The snapshot\<close>

definition visible :: "todo_state \<Rightarrow> rust_string set" where
  "visible s = gs_view (added s) - gs_view (removed s)"

lemma snapshot_item_id: "snapshot_item s i = Some x \<Longrightarrow> item_id x = i"
  by (auto simp: snapshot_item_def split: option.splits)

lemma set_map_filter: "set (List.map_filter f xs) = {y. \<exists>x\<in>set xs. f x = Some y}"
  by (induction xs) (auto simp: List.map_filter_def)

lemma set_snapshot_todos:
  "set (snapshot_todos s) = {x. \<exists>i\<in>visible s. snapshot_item s i = Some x}"
  by (auto simp: snapshot_todos_def visible_def set_map_filter gs_contains_iff gs_iter_set)

lemma distinct_map_filter_ids:
  "distinct is \<Longrightarrow> distinct (map item_id (List.map_filter (snapshot_item s) is))"
proof (induction "is")
  case (Cons i "is")
  then show ?case
    by (auto simp: map_filter_simps set_map_filter dest!: snapshot_item_id split: option.split)
qed (simp add: map_filter_simps)

lemma snapshot_todos_sorted: "sorted_wrt (<) (map item_id (snapshot_todos s))"
proof -
  have "distinct (map item_id (snapshot_todos s))"
    by (simp add: snapshot_todos_def distinct_map distinct_map_filter_ids gs_iter_set
        distinct_map [THEN iffD1, OF distinct_map_filter_ids])
  then show ?thesis by (simp add: strict_sorted_iff snapshot_todos_def)
qed

text \<open>Two lists of items that are strictly sorted by identifier and have the same members are equal.\<close>

lemma sorted_items_unique:
  "sorted_wrt (<) (map item_id xs) \<Longrightarrow> sorted_wrt (<) (map item_id ys) \<Longrightarrow> set xs = set ys \<Longrightarrow>
   xs = ys"
proof (rule map_sorted_distinct_set_unique [of item_id])
  assume sorted: "sorted_wrt (<) (map item_id xs)" "sorted_wrt (<) (map item_id ys)" and eq: "set xs = set ys"
  then have "distinct (map item_id ys)" "sorted (map item_id xs)" "sorted (map item_id ys)"
    "distinct (map item_id xs)" by (simp_all add: strict_sorted_iff)
  then show "inj_on item_id (set xs \<union> set ys)" "sorted (map item_id xs)" "distinct (map item_id xs)"
    "sorted (map item_id ys)" "distinct (map item_id ys)" "set xs = set ys"
    using eq by (simp_all add: distinct_map)
qed

lemma snapshot_same:
  assumes wf: "todo_wf s" and same: "todo_same s t"
  shows "snapshot_todos s = snapshot_todos t"
proof (rule sorted_items_unique [OF snapshot_todos_sorted snapshot_todos_sorted])
  have view: "gs_view (added s) = gs_view (added t)" "gs_view (removed s) = gs_view (removed t)"
    "hm_get (texts s) = hm_get (texts t)" "hm_get (creators s) = hm_get (creators t)"
    "hm_get (completed s) = hm_get (completed t)"
    using same by (simp_all add: todo_same_view todo_view_def)
  have "snapshot_item s i = snapshot_item t i" if "i \<in> visible s" for i
  proof -
    have "i \<in> dom (hm_get (creators s))" using that wf by (auto simp: todo_wf_def visible_def)
    with view show ?thesis by (auto simp: snapshot_item_def split: option.split)
  qed
  then show "set (snapshot_todos s) = set (snapshot_todos t)"
    using view by (auto simp: set_snapshot_todos visible_def)
qed

end
