(* ===== verification/TodoProps.thy ===== *)
theory TodoProps
  imports TodoSteps
begin

section \<open>Properties of the todo list\<close>

text \<open>
  The user-visible list of one replica (\<open>snapshot_todos\<close>, what the server sends to its browsers)
  refines an abstract todo list; deletion is final; the data of items and the completed flag merge
  the way the documentation of \<^verbatim>\<open>state.rs\<close> says, limitations included; and an identifier that a
  restarted replica hands out again breaks convergence for good.
\<close>

subsection \<open>The abstract todo list\<close>

text \<open>What a client message does to the list the user sees, given the identifier the replica would
  use next and its own name.\<close>

fun spec_apply :: "rust_string \<Rightarrow> rust_string \<Rightarrow> client_message \<Rightarrow> todo_item list \<Rightarrow> todo_item list" where
  "spec_apply new_id me (Add t) items =
     (if trim t = [] then items
      else insort_key item_id
             \<lparr>item_id = new_id, item_text = trim t, item_completed = False, item_created_by = me\<rparr> items)"
| "spec_apply new_id me (Toggle i) items =
     map (\<lambda>x. if item_id x = i then x\<lparr>item_completed := \<not> item_completed x\<rparr> else x) items"
| "spec_apply new_id me (Delete i) items = filter (\<lambda>x. item_id x \<noteq> i) items"
| "spec_apply new_id me Resync items = items"

lemma snapshot_item_ticked [simp]: "snapshot_item (ticked b s) i = snapshot_item s i"
  by (simp add: snapshot_item_def split: option.split)

lemma visible_ticked [simp]: "visible (ticked b s) = visible s"
  by (simp add: visible_def)

lemma snapshot_todos_ticked: "snapshot_todos (ticked b s) = snapshot_todos s"
  by (intro sorted_items_unique snapshot_todos_sorted) (simp add: set_snapshot_todos)

lemma snapshot_item_with_item:
  "snapshot_item (with_item b t s) i =
     (if i = fresh_id s
      then Some \<lparr>item_id = i, item_text = t, item_completed = False, item_created_by = peer_id s\<rparr>
      else snapshot_item s i)"
  by (simp add: snapshot_item_def view_simps split: option.split)

lemma snapshot_add:
  assumes "fresh_id s \<notin> gs_view (added s)" "todo_wf s"
  shows "snapshot_todos (with_item b t s) =
     insort_key item_id
       \<lparr>item_id = fresh_id s, item_text = t, item_completed = False, item_created_by = peer_id s\<rparr>
       (snapshot_todos s)" (is "?l = insort_key item_id ?x ?r")
proof (rule sorted_items_unique [OF snapshot_todos_sorted])
  have fresh: "fresh_id s \<notin> item_id ` set ?r"
    using assms(1) by (auto simp: set_snapshot_todos visible_def dest!: snapshot_item_id)
  have "sorted (map item_id ?r)" "distinct (map item_id ?r)"
    using snapshot_todos_sorted [of s] by (simp_all add: strict_sorted_iff)
  then show "sorted_wrt (<) (map item_id (insort_key item_id ?x ?r))"
    using fresh by (simp add: strict_sorted_iff sorted_insort_key distinct_insort_key)
  have eq: "visible (with_item b t s) = insert (fresh_id s) (visible s)"
    using assms by (auto simp: visible_def view_simps todo_wf_def)
  have "fresh_id s \<notin> visible s" using assms(1) by (simp add: visible_def)
  then show "set ?l = set (insort_key item_id ?x ?r)"
    unfolding set_snapshot_todos eq set_insort_key by (auto simp: snapshot_item_with_item)
qed

lemma snapshot_item_flip:
  "snapshot_item (snd (flip_completed i s)) j =
     map_option (\<lambda>x. if item_id x = i then x\<lparr>item_completed := \<not> item_completed x\<rparr> else x)
       (snapshot_item s j)"
  by (auto simp: snapshot_item_def view_simps split: option.split)

lemma snapshot_toggle:
  "snapshot_todos (snd (flip_completed i s)) =
     map (\<lambda>x. if item_id x = i then x\<lparr>item_completed := \<not> item_completed x\<rparr> else x) (snapshot_todos s)"
  (is "_ = map ?f _")
proof (rule sorted_items_unique [OF snapshot_todos_sorted])
  have "item_id \<circ> ?f = item_id" by (auto simp: fun_eq_iff)
  then show "sorted_wrt (<) (map item_id (map ?f (snapshot_todos s)))"
    using snapshot_todos_sorted [of s] by simp
  show "set (snapshot_todos (snd (flip_completed i s))) = set (map ?f (snapshot_todos s))"
    by (auto simp: set_snapshot_todos snapshot_item_flip visible_def)
qed

lemma snapshot_delete:
  "snapshot_todos (snd (mark_removed i s)) = filter (\<lambda>x. item_id x \<noteq> i) (snapshot_todos s)"
proof (rule sorted_items_unique [OF snapshot_todos_sorted])
  show "sorted_wrt (<) (map item_id (filter (\<lambda>x. item_id x \<noteq> i) (snapshot_todos s)))"
    using snapshot_todos_sorted [of s] by (simp add: sorted_wrt_map sorted_wrt_filter)
  have "snapshot_item (snd (mark_removed i s)) j = snapshot_item s j" for j
    by (simp add: snapshot_item_def split: option.split)
  then show "set (snapshot_todos (snd (mark_removed i s))) =
      set (filter (\<lambda>x. item_id x \<noteq> i) (snapshot_todos s))"
    by (auto simp: set_snapshot_todos visible_def view_simps dest: snapshot_item_id)
qed

lemma spec_toggle_absent: "i \<notin> item_id ` set items \<Longrightarrow> spec_apply n me (Toggle i) items = items"
  by (induction items) auto

lemma spec_delete_absent: "i \<notin> item_id ` set items \<Longrightarrow> spec_apply n me (Delete i) items = items"
  by (induction items) auto

lemma not_visible_not_listed: "i \<notin> visible s \<Longrightarrow> i \<notin> item_id ` set (snapshot_todos s)"
  by (auto simp: set_snapshot_todos dest: snapshot_item_id)

lemma apply_refines:
  assumes "can_tick b s" "can_number b s" "todo_wf s" "fresh_id s \<notin> gs_view (added s)"
  shows "snapshot_todos (snd (todo_apply b m s)) =
           spec_apply (fresh_id s) (peer_id s) m (snapshot_todos s)"
proof (cases m)
  case (Add t)
  with assms show ?thesis by (simp add: todo_add_eq snapshot_add)
next
  case (Toggle i)
  show ?thesis
  proof (cases "i \<in> visible s")
    case True
    with Toggle assms show ?thesis
      by (simp add: todo_toggle_eq visible_def snapshot_toggle snapshot_todos_ticked)
  next
    case False
    then have "todo_apply b m s = (Inr (), s)"
      using Toggle by (simp add: todo_toggle_eq visible_def)
    then show ?thesis
      using Toggle spec_toggle_absent [OF not_visible_not_listed [OF False]] by simp
  qed
next
  case (Delete i)
  show ?thesis
  proof (cases "i \<in> gs_view (added s)")
    case True
    with Delete assms show ?thesis
      by (simp add: todo_delete_eq snapshot_delete snapshot_todos_ticked)
  next
    case False
    then have "i \<notin> visible s" by (simp add: visible_def)
    with False Delete show ?thesis
      using spec_delete_absent [OF not_visible_not_listed] by (simp add: todo_delete_eq)
  qed
next
  case Resync
  then show ?thesis by simp
qed

subsection \<open>Runs of one replica\<close>

text \<open>The life of a replica: client messages of its own browsers, and states of peers that its sync
  layer merges, in any interleaving. A panic ends the task that handled the message, not the replica.\<close>

datatype todo_event = Local client_message | Remote todo_state

fun todo_run :: "build \<Rightarrow> todo_event list \<Rightarrow> todo_state \<Rightarrow> todo_state" where
  "todo_run b [] s = s"
| "todo_run b (Local m # es) s = todo_run b es (snd (todo_apply b m s))"
| "todo_run b (Remote t # es) s = todo_run b es (todo_merge s t)"

lemma local_step_removed_mono:
  "local_step b s m r s' \<Longrightarrow> gs_view (removed s) \<subseteq> gs_view (removed s')"
  by (induction rule: local_step.induct) (auto simp: view_simps)

lemma todo_run_removed_mono: "gs_view (removed s) \<subseteq> gs_view (removed (todo_run b es s))"
proof (induction b es s rule: todo_run.induct)
  case (2 b m es s)
  then show ?case using local_step_removed_mono [OF todo_apply_step [of b s m]] by simp
next
  case (3 b t es s)
  then show ?case by (auto simp: view_simps)
qed simp

lemma absorb_keeps_text:
  "hm_get (texts s) i = Some t \<Longrightarrow> hm_get (texts (absorb todo_merge s xs)) i = Some t"
proof (induction xs arbitrary: s)
  case (Cons x xs)
  have "hm_get (texts (todo_merge s x)) i = Some t"
    using Cons.prems by (cases "hm_get (texts x) i") (simp_all add: view_simps)
  then show ?case using Cons.IH by (simp add: absorb_def)
qed (simp add: absorb_def)

subsection \<open>Properties\<close>

text \<open>C5. One replica refines the abstract todo list: when the counters are not exhausted and the next
  identifier is unused, the list the browsers are sent after any client message is what the message
  does to the list they had before. In particular toggling or deleting an item that is
  not shown changes nothing, and a blank text adds nothing.\<close>

theorem todo_refines_list:
  assumes "can_tick b s" "can_number b s" "todo_wf s" "fresh_id s \<notin> gs_view (added s)"
  shows "snapshot_todos (snd (todo_apply b m s)) =
           spec_apply (fresh_id s) (peer_id s) m (snapshot_todos s)"
  using assms by (rule apply_refines)

lemma can_tick_new [simp]: "can_tick b (todo_new pid rid)"
  by (simp add: can_tick_def)

lemma can_number_new [simp]: "can_number b (todo_new pid rid)"
  by (simp add: can_number_def)

theorem todo_refines_list_witness:
  "snapshot_todos (snd (todo_apply Debug (Add [66]) (todo_new [65] 1))) =
     [\<lparr>item_id = [65, 45, 49], item_text = [66], item_completed = False, item_created_by = [65]\<rparr>]"
proof -
  have "fresh_id (todo_new [65] 1) \<notin> gs_view (added (todo_new [65] 1))"
    by (simp add: todo_new_def view_simps)
  from todo_refines_list [OF can_tick_new can_number_new todo_wf_new this, of Debug "Add [66]"]
  show ?thesis
    by (simp add: fresh_id_def todo_new_def todo_id_def lit_def dec_digits.simps trim_def
        is_whitespace_def snapshot_todos_def gs_iter_def gs_new_def hs_iter_def hs_new_def)
qed

text \<open>C26. Applying a client message panics only in a debug build, and a panic is invisible: the list
  shown and the counter for identifiers are as before, though the vector clock may have advanced.\<close>

theorem todo_panic_invisible:
  "case fst (todo_apply b m s) of
     Inl e \<Rightarrow> b = Debug \<and> snapshot_todos (snd (todo_apply b m s)) = snapshot_todos s \<and>
       next_local_id (snd (todo_apply b m s)) = next_local_id s \<and>
       \<not> (can_tick b s \<and> can_number b s)
   | Inr _ \<Rightarrow> True"
  by (cases b; cases m) (auto simp: todo_op_eqs snapshot_todos_ticked can_tick_def can_number_def)

text \<open>C19. The snapshot lists exactly the items that have been added, have not been removed and have a
  text, each once, in strictly increasing order of identifiers, with the completed flag false and the
  replica itself as creator where the maps have no entry.\<close>

theorem snapshot_lists_visible:
  "sorted_wrt (<) (map item_id (snapshot_todos s)) \<and>
   (x \<in> set (snapshot_todos s) \<longleftrightarrow>
      item_id x \<in> gs_view (added s) \<and> item_id x \<notin> gs_view (removed s) \<and>
      hm_get (texts s) (item_id x) = Some (item_text x) \<and>
      item_completed x = (hm_get (completed s) (item_id x) = Some True) \<and>
      item_created_by x = (case hm_get (creators s) (item_id x) of None \<Rightarrow> peer_id s | Some c \<Rightarrow> c))"
proof -
  have "snapshot_item s i = Some x \<longleftrightarrow>
      i = item_id x \<and> hm_get (texts s) i = Some (item_text x) \<and>
      item_completed x = (hm_get (completed s) i = Some True) \<and>
      item_created_by x = (case hm_get (creators s) i of None \<Rightarrow> peer_id s | Some c \<Rightarrow> c)" for i
    by (cases x) (auto simp: snapshot_item_def split: option.split)
  then show ?thesis
    using snapshot_todos_sorted [of s] by (auto simp: set_snapshot_todos visible_def)
qed

text \<open>C6. Merging todo states that agree on the text and creator of every item is commutative,
  associative and idempotent on all replicated fields, and gives their least upper bound.\<close>

theorem todo_merge_laws:
  assumes "todo_agrees L s" "todo_agrees L t" "todo_agrees L u"
  shows "todo_same (todo_merge s t) (todo_merge t s) \<and>
         todo_same (todo_merge (todo_merge s t) u) (todo_merge s (todo_merge t u)) \<and>
         todo_same (todo_merge s s) s \<and>
         is_join (todo_agrees L) todo_same todo_merge {s, t} (todo_merge s t)"
  using assms todo.join_merge [OF todo.join_singleton todo.join_singleton, of L s t]
  by (simp add: todo.merge_comm [of L] todo.merge_assoc [of L] todo.merge_idem [of L] insert_commute)

theorem todo_merge_laws_witness:
  "todo_same (todo_merge (todo_new [65] 1) (todo_new [66] 2)) (todo_merge (todo_new [66] 2) (todo_new [65] 1))"
proof -
  have "todo_agrees (\<lambda>_. ([], [])) (todo_new pid rid)" for pid rid
    by (simp add: todo_agrees_def todo_new_def view_simps vc_positive_new)
  then show ?thesis using todo_merge_laws by blast
qed

text \<open>C18. Deletion is final: once a replica has an item among the removed ones, no client message and
  no state merged from a peer, in any order, ever shows it again.\<close>

theorem deletion_is_final:
  assumes "i \<in> gs_view (removed s)"
  shows "i \<notin> item_id ` set (snapshot_todos (todo_run b es s))"
  using assms todo_run_removed_mono [of s b es]
  by (intro not_visible_not_listed) (auto simp: visible_def)

theorem deletion_is_final_witness:
  "[7] \<notin> item_id ` set (snapshot_todos
     (todo_run Debug [Local (Toggle [7]), Remote (todo_new [66] 2)] (snd (mark_removed [7] (todo_new [65] 1)))))"
  by (rule deletion_is_final) (simp add: view_simps)

text \<open>The completed flag merges as a disjunction, so unticking an item is undone by the
  next state of any peer that has seen it ticked, as the module's documentation concedes.\<close>

theorem untick_is_lost:
  assumes "hm_get (completed peer) i = Some True"
  shows "hm_get (completed (todo_merge (snd (todo_apply b (Toggle i) s)) peer)) i = Some True"
  using assms
  by (cases "hm_get (completed (snd (todo_apply b (Toggle i) s))) i") (simp_all add: view_simps)

theorem untick_is_lost_witness:
  "hm_get (completed (todo_merge (snd (todo_apply Debug (Toggle [7]) (todo_new [65] 1)))
     (snd (flip_completed [7] (todo_new [66] 2))))) [7] = Some True"
  by (rule untick_is_lost) (simp add: view_simps todo_new_def)

text \<open>The fields that are not serialised play no part in merging: a state that has been through the
  wire merges exactly like the original, and never changes the receiver's identity or counter.\<close>

theorem wire_is_transparent:
  "todo_merge s (todo_wire t) = todo_merge s t \<and>
   todo_same (todo_wire t) t \<and>
   peer_id (todo_merge s (todo_wire t)) = peer_id s \<and>
   replica_id (todo_merge s (todo_wire t)) = replica_id s \<and>
   next_local_id (todo_merge s (todo_wire t)) = next_local_id s"
  by (simp add: todo_merge_wire todo_same_view)

subsection \<open>A restarted replica\<close>

text \<open>
  A replica adds an item and a peer merges its state. The replica restarts with an empty state, as
  \<^verbatim>\<open>main\<close> starts it, catches up from the peer and adds another item. The counter for identifiers is not
  part of what it caught up on, so the new item takes the identifier of the old one. \<open>restarted\<close> is the
  pair of the peer's state and the replica's.
\<close>

definition restarted ::
  "build \<Rightarrow> rust_string \<Rightarrow> replica_id \<Rightarrow> rust_string \<Rightarrow> rust_string \<Rightarrow> todo_state \<Rightarrow> todo_state \<times> todo_state" where
  "restarted b pid rid x y other =
     (let first_life = snd (todo_add b x (todo_new pid rid));
          peer = todo_merge other first_life;
          second_life = todo_merge (todo_new pid rid) peer
      in (peer, snd (todo_add b y second_life)))"

lemma add_first_text:
  assumes "trim x \<noteq> []" "can_tick b s" "next_local_id s = 0"
  shows "hm_get (texts (snd (todo_add b x s))) (todo_id (peer_id s) 1) = Some (trim x)"
  using assms by (simp add: todo_add_eq can_number_def view_simps fresh_id_def)

lemma can_tick_merge:
  "can_tick b (todo_merge s t) \<longleftrightarrow>
     b = Release \<or> max (vc_get (clock s) (replica_id s)) (vc_get (clock t) (replica_id s)) \<noteq> - 1"
  by (simp add: can_tick_def view_simps vc_get_merge)

text \<open>C25. After such a restart the two replicas disagree on the text of the shared identifier, and no
  exchange of states repairs it: whatever either of them merges afterwards, each keeps its own text.
  (The peer was empty of that replica's data before, and both texts are not blank.)\<close>

theorem restart_diverges:
  assumes x: "trim x \<noteq> []" and y: "trim y \<noteq> []" and differ: "trim x \<noteq> trim y"
    and other: "hm_get (texts other) (todo_id pid 1) = None" "vc_get (clock other) rid = 0"
  shows "case restarted b pid rid x y other of (peer, replica) \<Rightarrow>
           hm_get (texts (absorb todo_merge peer us)) (todo_id pid 1) = Some (trim x) \<and>
           hm_get (texts (absorb todo_merge replica vs)) (todo_id pid 1) = Some (trim y) \<and>
           \<not> todo_same (absorb todo_merge peer us) (absorb todo_merge replica vs)"
proof -
  define first_life where "first_life = snd (todo_add b x (todo_new pid rid))"
  define peer where "peer = todo_merge other first_life"
  define replica where "replica = snd (todo_add b y (todo_merge (todo_new pid rid) peer))"
  have "hm_get (texts first_life) (todo_id pid 1) = Some (trim x)"
    using add_first_text [OF x can_tick_new, of pid rid b] by (simp add: first_life_def)
  then have 1: "hm_get (texts peer) (todo_id pid 1) = Some (trim x)"
    using other(1) by (simp add: peer_def view_simps)
  have "vc_get (clock first_life) rid = 1"
    using x by (simp add: first_life_def todo_add_eq view_simps ticked_def vc_get_increment)
  then have "vc_get (clock peer) rid = 1"
    using other(2) by (simp add: peer_def view_simps vc_get_merge max_def)
  then have "can_tick b (todo_merge (todo_new pid rid) peer)"
    by (simp add: can_tick_merge max_def)
  then have 2: "hm_get (texts replica) (todo_id pid 1) = Some (trim y)"
    using add_first_text [OF y, of b "todo_merge (todo_new pid rid) peer"]
    by (simp add: replica_def)
  have "restarted b pid rid x y other = (peer, replica)"
    by (simp add: restarted_def Let_def first_life_def peer_def replica_def)
  moreover have "\<not> todo_same (absorb todo_merge peer us) (absorb todo_merge replica vs)"
    using absorb_keeps_text [OF 1, of us] absorb_keeps_text [OF 2, of vs] differ
    by (auto simp: todo_same_view todo_view_def)
  ultimately show ?thesis
    using absorb_keeps_text [OF 1, of us] absorb_keeps_text [OF 2, of vs] by simp
qed

theorem restart_diverges_witness:
  "case restarted Debug [65] 1 [66] [67] (todo_new [68] 2) of (peer, replica) \<Rightarrow>
     \<not> todo_same (todo_merge peer replica) (todo_merge replica peer)"
proof -
  obtain peer replica where r: "restarted Debug [65] 1 [66] [67] (todo_new [68] 2) = (peer, replica)"
    by (cases "restarted Debug [65] 1 [66] [67] (todo_new [68] 2)")
  have "trim [66] \<noteq> []" "trim [67] \<noteq> []" "trim [66] \<noteq> trim [67]"
    by (simp_all add: trim_def is_whitespace_def)
  moreover have "hm_get (texts (todo_new [68] 2)) (todo_id [65] 1) = None"
    "vc_get (clock (todo_new [68] 2)) 1 = 0" by simp_all
  ultimately show ?thesis
    using restart_diverges [where x = "[66]" and y = "[67]" and other = "todo_new [68] 2" and pid = "[65]"
        and rid = 1 and b = Debug and us = "[replica]" and vs = "[peer]"]
    unfolding r by (simp add: absorb_def)
qed

end
