(* ===== verification/TodoMerge.thy ===== *)
theory TodoMerge
  imports TodoProps
begin

section \<open>What merging todo states guarantees without agreement, and that it settles\<close>

text \<open>
  Two more contracts of \<^verbatim>\<open>TodoState::merge\<close>. The sets of identifiers, the completed flags and the clock are
  joined by operations that are commutative on their own, so they converge for all states, also for those of replicas
  that disagree on the text or the creator of an item. And every merge that changes a state makes it larger
  (\<open>todo_extent\<close>), so states that are exchanged without further edits stop changing.
\<close>

subsection \<open>The part that always converges\<close>

definition todo_core ::
  "todo_state \<Rightarrow> rust_string set \<times> rust_string set \<times> (rust_string \<Rightarrow> bool option) \<times> (replica_id \<Rightarrow> u64)" where
  "todo_core s = (gs_view (added s), gs_view (removed s), hm_get (completed s), vc_get (clock s))"

fun core_join ::
  "rust_string set \<times> rust_string set \<times> (rust_string \<Rightarrow> bool option) \<times> (replica_id \<Rightarrow> u64) \<Rightarrow>
   rust_string set \<times> rust_string set \<times> (rust_string \<Rightarrow> bool option) \<times> (replica_id \<Rightarrow> u64) \<Rightarrow>
   rust_string set \<times> rust_string set \<times> (rust_string \<Rightarrow> bool option) \<times> (replica_id \<Rightarrow> u64)" where
  "core_join (a, r, c, v) (a', r', c', v') =
     (a \<union> a', r \<union> r', (\<lambda>i. opt_join (\<or>) (c i) (c' i)), (\<lambda>r. max (v r) (v' r)))"

interpretation todo_core: cvrdt_view "\<lambda>_. True" todo_core todo_merge core_join
proof unfold_locales
  fix s t u
  show "todo_core (todo_merge s t) = core_join (todo_core s) (todo_core t)"
    by (simp add: todo_core_def view_simps vc_get_merge fun_eq_iff)
  show "core_join (todo_core s) (todo_core t) = core_join (todo_core t) (todo_core s)"
    by (auto simp: todo_core_def fun_eq_iff ac_simps intro: opt_join_or_laws(1))
  show "core_join (core_join (todo_core s) (todo_core t)) (todo_core u) =
      core_join (todo_core s) (core_join (todo_core t) (todo_core u))"
    by (simp add: todo_core_def fun_eq_iff ac_simps opt_join_or_laws(2))
  show "core_join (todo_core s) (todo_core s) = todo_core s"
    by (simp add: todo_core_def fun_eq_iff opt_join_or_laws(3))
qed simp

text \<open>What the browser shows of it: the identifiers listed, with their flags.\<close>

definition shown_flags :: "todo_state \<Rightarrow> (rust_string \<times> bool) list" where
  "shown_flags s = map (\<lambda>x. (item_id x, item_completed x)) (snapshot_todos s)"

lemma snapshot_covers:
  assumes "todo_wf s"
  shows "item_id ` set (snapshot_todos s) = visible s"
proof -
  have "\<exists>x. snapshot_item s i = Some x" if "i \<in> visible s" for i
  proof -
    have "i \<in> dom (hm_get (texts s))" using that assms by (auto simp: todo_wf_def visible_def)
    then show ?thesis by (auto simp: snapshot_item_def)
  qed
  then show ?thesis by (force simp: set_snapshot_todos dest: snapshot_item_id)
qed

lemma snapshot_count: "todo_wf s \<Longrightarrow> length (snapshot_todos s) = card (visible s)"
proof -
  assume wf: "todo_wf s"
  have "distinct (map item_id (snapshot_todos s))"
    using snapshot_todos_sorted [of s] by (simp add: strict_sorted_iff)
  then have "card (item_id ` set (snapshot_todos s)) = length (snapshot_todos s)"
    using distinct_card [of "map item_id (snapshot_todos s)"] by simp
  then show ?thesis by (simp add: snapshot_covers [OF wf])
qed

lemma snapshot_item_flag:
  "snapshot_item s i = Some x \<Longrightarrow> item_completed x \<longleftrightarrow> hm_get (completed s) i = Some True"
  by (cases "hm_get (completed s) i"; cases "hm_get (texts s) i") (auto simp: snapshot_item_def)

lemma snapshot_flag:
  "x \<in> set (snapshot_todos s) \<Longrightarrow> item_completed x \<longleftrightarrow> hm_get (completed s) (item_id x) = Some True"
  by (auto simp: set_snapshot_todos dest: snapshot_item_flag snapshot_item_id)

lemma shown_flags_core:
  assumes wf: "todo_wf s" "todo_wf t" and core: "todo_core s = todo_core t"
  shows "shown_flags s = shown_flags t"
proof -
  let ?flag = "\<lambda>i. (i, hm_get (completed s) i = Some True)"
  have "visible s = visible t" "hm_get (completed s) = hm_get (completed t)"
    using core by (simp_all add: todo_core_def visible_def)
  moreover have "shown_flags u = map (\<lambda>i. (i, hm_get (completed u) i = Some True))
      (map item_id (snapshot_todos u))" for u
    using snapshot_flag [of _ u] by (simp add: shown_flags_def)
  moreover have "map item_id (snapshot_todos s) = map item_id (snapshot_todos t)"
  proof (rule map_sorted_distinct_set_unique [of "\<lambda>x. x"])
    show "set (map item_id (snapshot_todos s)) = set (map item_id (snapshot_todos t))"
      using snapshot_covers wf \<open>visible s = visible t\<close> by simp
  qed (use snapshot_todos_sorted [of s] snapshot_todos_sorted [of t] in \<open>simp_all add: strict_sorted_iff\<close>)
  ultimately show ?thesis by metis
qed

subsection \<open>Merging settles\<close>

definition true_keys :: "('a \<Rightarrow> bool option) \<Rightarrow> 'a set" where
  "true_keys g = {i. g i = Some True}"

lemma true_keys_merge:
  "true_keys (hm_get (completed (todo_merge s t))) = true_keys (hm_get (completed s)) \<union> true_keys (hm_get (completed t))"
proof -
  have "opt_join (\<or>) x y = Some True \<longleftrightarrow> x = Some True \<or> y = Some True" for x y
    by (cases x; cases y) auto
  then show ?thesis by (auto simp: true_keys_def view_simps)
qed

definition todo_extent :: "todo_state \<Rightarrow> nat" where
  "todo_extent s =
     card (gs_view (added s)) + card (gs_view (removed s)) +
     card (dom (hm_get (texts s))) + card (dom (hm_get (creators s))) +
     (card (dom (hm_get (completed s))) + card (true_keys (hm_get (completed s)))) +
     (card (dom (vc_view (clock s))) + total_of (vc_view (clock s)))"

lemma todo_extent_view: "todo_same s t \<Longrightarrow> todo_extent s = todo_extent t"
  by (simp add: todo_same_view todo_view_def todo_extent_def)

lemma card_dom_grows:
  assumes "finite (dom g)" "finite (dom h)"
  shows "card (dom g) + (if (\<lambda>i. opt_join (\<lambda>a b. a) (g i) (h i)) = g then 0 else 1)
    \<le> card (dom (\<lambda>i. opt_join (\<lambda>a b. a) (g i) (h i)))"
proof (cases "(\<lambda>i. opt_join (\<lambda>a b. a) (g i) (h i)) = g")
  case False
  then have "dom g \<union> dom h \<noteq> dom g" using opt_join_grows [OF False] by (auto simp: dom_opt_join)
  then show ?thesis using False card_set_grows [OF assms] by (simp add: dom_opt_join)
qed (simp add: dom_opt_join)

lemma flags_grow:
  fixes g h :: "'a \<Rightarrow> bool option"
  defines "j \<equiv> \<lambda>i. opt_join (\<or>) (g i) (h i)"
  assumes fin: "finite (dom g)" "finite (dom h)"
  shows "card (dom g) + card (true_keys g) + (if j = g then 0 else 1)
    \<le> card (dom j) + card (true_keys j)"
proof -
  have dom: "dom j = dom g \<union> dom h" unfolding j_def by (rule dom_opt_join)
  have fin_true: "finite (true_keys j)"
    using fin dom by (intro finite_subset [of "true_keys j" "dom j"]) (auto simp: true_keys_def)
  have sub: "true_keys g \<subseteq> true_keys j"
    by (auto simp: j_def true_keys_def) (metis (full_types) opt_join.simps(2,3) option.exhaust)
  have le: "card (dom g) \<le> card (dom j)" "card (true_keys g) \<le> card (true_keys j)"
    using fin fin_true sub by (auto simp: dom intro: card_mono)
  show ?thesis
  proof (cases "j = g")
    case False
    then consider "dom g \<subset> dom j" | i where "g i = Some False" "h i = Some True"
      using opt_join_grows [of "(\<or>)" g h] by (auto simp: j_def)
    then show ?thesis
    proof cases
      case 1
      then have "card (dom g) < card (dom j)" using fin dom by (intro psubset_card_mono) auto
      with le False show ?thesis by simp
    next
      case (2 i)
      then have "i \<in> true_keys j" "i \<notin> true_keys g" by (simp_all add: j_def true_keys_def)
      with sub have "true_keys g \<subset> true_keys j" by blast
      then have "card (true_keys g) < card (true_keys j)"
        using fin_true by (intro psubset_card_mono)
      with le False show ?thesis by simp
    qed
  qed (use le in simp)
qed

lemma todo_extent_grows:
  assumes agree: "todo_agrees L s" "todo_agrees L t" and changed: "\<not> todo_same (todo_merge s t) s"
  shows "todo_extent s < todo_extent (todo_merge s t)"
proof -
  let ?m = "todo_merge s t"
  have view: "todo_view ?m = todo_join (todo_view s) (todo_view t)"
    using agree by (intro todo_view_merge)
  have fields: "hm_get (texts ?m) = (\<lambda>i. opt_join (\<lambda>a b. a) (hm_get (texts s) i) (hm_get (texts t) i))"
    "hm_get (creators ?m) = (\<lambda>i. opt_join (\<lambda>a b. a) (hm_get (creators s) i) (hm_get (creators t) i))"
    "hm_get (completed ?m) = (\<lambda>i. opt_join (\<or>) (hm_get (completed s) i) (hm_get (completed t) i))"
    "vc_view (clock ?m) = (\<lambda>r. opt_join max (vc_view (clock s) r) (vc_view (clock t) r))"
    using view by (simp_all add: todo_view_def)
  note grow = card_set_grows [OF finite_gs_view finite_gs_view, of "added s" "added t"]
    card_set_grows [OF finite_gs_view finite_gs_view, of "removed s" "removed t"]
    card_dom_grows [OF finite_dom_hm_get finite_dom_hm_get, of "texts s" "texts t", folded fields]
    card_dom_grows [OF finite_dom_hm_get finite_dom_hm_get, of "creators s" "creators t", folded fields]
    flags_grow [OF finite_dom_hm_get finite_dom_hm_get, of "completed s" "completed t", folded fields]
    counts_grow [of "vc_view (clock s)" "vc_view (clock t)", folded fields]
  let ?new = "\<lambda>P. if P then 0 else 1 :: nat"
  define k where "k =
      ?new (gs_view (added s) \<union> gs_view (added t) = gs_view (added s)) +
      ?new (gs_view (removed s) \<union> gs_view (removed t) = gs_view (removed s)) +
      ?new (hm_get (texts ?m) = hm_get (texts s)) + ?new (hm_get (creators ?m) = hm_get (creators s)) +
      ?new (hm_get (completed ?m) = hm_get (completed s)) + ?new (vc_view (clock ?m) = vc_view (clock s))"
  have "todo_extent s + k \<le> todo_extent ?m"
    using grow unfolding todo_extent_def todo_merge_fields(1,2) k_def
    by linarith
  moreover have "0 < k"
    using changed by (auto simp: k_def todo_same_view todo_view_def todo_merge_fields(1,2))
  ultimately show ?thesis by simp
qed

interpretation todo_sized: cvrdt_sized "todo_agrees L" todo_same todo_merge todo_extent for L
  by unfold_locales (auto intro: todo_extent_view todo_extent_grows)

subsection \<open>The state of a replica stays well-formed\<close>

fun event_wf :: "todo_event \<Rightarrow> bool" where
  "event_wf (Local m) = True"
| "event_wf (Remote t) = todo_wf t"

lemma todo_run_wf: "\<forall>e\<in>set es. event_wf e \<Longrightarrow> todo_wf s \<Longrightarrow> todo_wf (todo_run b es s)"
proof (induction b es s rule: todo_run.induct)
  case (2 b m es s)
  then show ?case using todo_wf_step [OF todo_apply_step] by simp
next
  case (3 b t es s)
  then show ?case by (simp add: todo_wf_merge)
qed simp

lemma todo_run_ids: "peer_id (todo_run b es s) = peer_id s \<and> replica_id (todo_run b es s) = replica_id s"
proof (induction b es s rule: todo_run.induct)
  case (2 b m es s)
  then show ?case using local_step_ids [OF todo_apply_step [of b s m]] by simp
qed simp_all

lemma snapshot_creator:
  assumes "todo_wf s" "x \<in> set (snapshot_todos s)"
  shows "hm_get (creators s) (item_id x) = Some (item_created_by x)"
proof -
  obtain i where i: "i \<in> visible s" "snapshot_item s i = Some x"
    using assms(2) by (auto simp: set_snapshot_todos)
  then have "i \<in> dom (hm_get (creators s))" using assms(1) by (auto simp: todo_wf_def visible_def)
  then obtain c where "hm_get (creators s) i = Some c" by blast
  then show ?thesis using i(2) by (auto simp: snapshot_item_def split: option.splits)
qed

text \<open>C12. Every state a replica can have is well-typed. From \<open>new\<close>, client messages (those that panic
  included) and well-formed states merged from peers, in any order, keep the maps and sets of the state together: exactly
  the added identifiers have a text, a creator and a flag, and only added ones are removed. So the snapshot never
  drops a visible item for want of a text, and never falls back to the replica's own name for want of a creator.\<close>

theorem todo_run_well_typed:
  assumes "\<forall>e\<in>set es. event_wf e" and s: "s = todo_run b es (todo_new pid rid)"
  shows "todo_wf s \<and> peer_id s = pid \<and> replica_id s = rid \<and>
    item_id ` set (snapshot_todos s) = visible s \<and> length (snapshot_todos s) = card (visible s) \<and>
    (\<forall>x\<in>set (snapshot_todos s). hm_get (creators s) (item_id x) = Some (item_created_by x))"
proof -
  have "todo_wf s" unfolding s using assms(1) todo_wf_new by (rule todo_run_wf)
  then show ?thesis
    using todo_run_ids [of b es "todo_new pid rid"] snapshot_covers snapshot_count snapshot_creator s by simp
qed

theorem todo_run_well_typed_witness:
  "todo_wf (todo_run Release [Local (Add [66]), Remote (todo_wire (todo_new [67] 2)), Local (Delete [66])] (todo_new [65] 1))"
  using todo_run_well_typed [OF _ refl, of "[Local (Add [66]), Remote (todo_wire (todo_new [67] 2)), Local (Delete [66])]"
      Release "[65]" 1] by (simp add: todo_wf_new del: todo_run.simps)

end
