(* ===== verification/TodoTests.thy ===== *)
theory TodoTests
  imports TodoMerge CoreTests
begin

section \<open>The test suite of the todo state\<close>

text \<open>
  The \<^verbatim>\<open>tests\<close> module of \<^verbatim>\<open>state.rs\<close>, one definition per test, in the manner of \<open>CoreTests\<close>: a truth value
  for either build, false when an assertion fails, an operation panics or an index is out of range.
\<close>

definition peers_of :: "todo_state \<Rightarrow> peer_snapshot list" where
  "peers_of s = (case snapshot s of Snapshot _ peers \<Rightarrow> peers)"

text \<open>\<^verbatim>\<open>xs[0]\<close>, which panics on an empty vector.\<close>

definition at_first :: "'a list \<Rightarrow> ('a \<Rightarrow> bool) \<Rightarrow> bool" where
  "at_first xs k = (case xs of [] \<Rightarrow> False | x # _ \<Rightarrow> k x)"

definition add_creates_todo :: "build \<Rightarrow> bool" where
  "add_creates_todo b \<longleftrightarrow>
     runs (todo_add b (lit ''Buy milk'')) (todo_new (lit ''peer-1'') 1) (\<lambda>_ s.
       let p = peers_of s
       in at_first p (\<lambda>p. length (snap_todos p) = 1 \<and>
            at_first (snap_todos p) (\<lambda>t. item_text t = lit ''Buy milk'' \<and> \<not> item_completed t)))"

definition empty_add_is_ignored :: "build \<Rightarrow> bool" where
  "empty_add_is_ignored b \<longleftrightarrow>
     runs (todo_add b (lit ''   '')) (todo_new (lit ''peer-1'') 1) (\<lambda>_ s.
       at_first (peers_of s) (\<lambda>p. length (snap_todos p) = 0))"

definition toggle_flips_completion :: "build \<Rightarrow> bool" where
  "toggle_flips_completion b \<longleftrightarrow>
     runs (todo_add b (lit ''Walk dog'')) (todo_new (lit ''peer-1'') 1) (\<lambda>_ s.
     at_first (peers_of s) (\<lambda>p. at_first (snap_todos p) (\<lambda>t. let i = item_id t in
     runs (todo_toggle b i) s (\<lambda>_ s.
       at_first (peers_of s) (\<lambda>p. at_first (snap_todos p) (\<lambda>t. item_completed t)) \<and>
     runs (todo_toggle b i) s (\<lambda>_ s.
       at_first (peers_of s) (\<lambda>p. at_first (snap_todos p) (\<lambda>t. \<not> item_completed t)))))))"

definition delete_removes_todo_from_snapshot :: "build \<Rightarrow> bool" where
  "delete_removes_todo_from_snapshot b \<longleftrightarrow>
     runs (todo_add b (lit ''Temporary'')) (todo_new (lit ''peer-1'') 1) (\<lambda>_ s.
     at_first (peers_of s) (\<lambda>p. at_first (snap_todos p) (\<lambda>t. let i = item_id t in
     runs (todo_delete b i) s (\<lambda>_ s.
       at_first (peers_of s) (\<lambda>p. length (snap_todos p) = 0)))))"

definition merge_combines_additions_from_two_replicas :: "build \<Rightarrow> bool" where
  "merge_combines_additions_from_two_replicas build \<longleftrightarrow>
     runs (todo_add build (lit ''From A'')) (todo_new (lit ''peer-a'') 1) (\<lambda>_ a.
     runs (todo_add build (lit ''From B'')) (todo_new (lit ''peer-b'') 2) (\<lambda>_ b.
     let a = todo_merge a b; b = todo_merge b a
     in at_first (peers_of a) (\<lambda>p. length (snap_todos p) = 2) \<and>
        at_first (peers_of b) (\<lambda>p. length (snap_todos p) = 2)))"

definition merge_propagates_deletion :: "build \<Rightarrow> bool" where
  "merge_propagates_deletion build \<longleftrightarrow>
     (let b = todo_new (lit ''peer-b'') 2 in
     runs (todo_add build (lit ''Doomed'')) (todo_new (lit ''peer-a'') 1) (\<lambda>_ a.
     at_first (peers_of a) (\<lambda>p. at_first (snap_todos p) (\<lambda>t. let i = item_id t; b = todo_merge b a in
     at_first (peers_of b) (\<lambda>p. length (snap_todos p) = 1) \<and>
     runs (todo_delete build i) a (\<lambda>_ a. let b = todo_merge b a in
       at_first (peers_of b) (\<lambda>p. length (snap_todos p) = 0))))))"

subsection \<open>They pass\<close>

lemma at_first_peers [simp]:
  "at_first (peers_of s) k =
     k \<lparr>snap_id = peer_id s, snap_name = lit ''Peer '' @ peer_id s, snap_online = True,
        snap_clock = hm_insert (peer_id s) (vc_get (clock s) (replica_id s)) hm_new,
        snap_todos = snapshot_todos s\<rparr>"
  by (simp add: peers_of_def at_first_def snapshot_def)

lemma at_first_Cons [simp]: "at_first (x # xs) k = k x"
  by (simp add: at_first_def)

text \<open>A replica that has added its first item.\<close>

definition one_item :: "build \<Rightarrow> rust_string \<Rightarrow> rust_string \<Rightarrow> replica_id \<Rightarrow> todo_state" where
  "one_item b txt pid rid = with_item b txt (todo_new pid rid)"

lemma runs_first_add:
  "trim txt \<noteq> [] \<Longrightarrow> runs (todo_add b txt) (todo_new pid rid) k = k () (one_item b (trim txt) pid rid)"
  by (simp add: runs_def todo_add_eq one_item_def)

lemma runs_toggle:
  "i \<in> gs_view (added s) \<Longrightarrow> i \<notin> gs_view (removed s) \<Longrightarrow> can_tick b s \<Longrightarrow>
   runs (todo_toggle b i) s k = k () (snd (flip_completed i (ticked b s)))"
  by (simp add: runs_def todo_toggle_eq)

lemma runs_delete:
  "i \<in> gs_view (added s) \<Longrightarrow> can_tick b s \<Longrightarrow>
   runs (todo_delete b i) s k = k () (snd (mark_removed i (ticked b s)))"
  by (simp add: runs_def todo_delete_eq)

lemma fresh_id_new [simp]: "fresh_id (todo_new pid rid) = todo_id pid 1"
  by (simp add: fresh_id_def)

lemma snapshot_new [simp]: "snapshot_todos (todo_new pid rid) = []"
proof -
  have "set (snapshot_todos (todo_new pid rid)) = {}" by (simp add: set_snapshot_todos visible_def)
  then show ?thesis by simp
qed

lemma one_item_snapshot:
  "snapshot_todos (one_item b txt pid rid) =
     [\<lparr>item_id = todo_id pid 1, item_text = txt, item_completed = False, item_created_by = pid\<rparr>]"
  using snapshot_add [of "todo_new pid rid" b "txt"] by (simp add: one_item_def todo_wf_new)

lemma one_item_fields [simp]:
  "gs_view (added (one_item b txt pid rid)) = {todo_id pid 1}"
  "gs_view (removed (one_item b txt pid rid)) = {}"
  "can_tick b (one_item b txt pid rid)"
  by (cases b; simp add: one_item_def view_simps can_tick_def ticked_def vc_get_increment)+

lemma one_item_wf: "todo_wf (one_item b txt pid rid)"
  by (simp add: one_item_def todo_wf_def view_simps)

lemma can_tick_flip [simp]: "can_tick b (snd (flip_completed i s)) = can_tick b s"
  by (simp add: can_tick_def)

lemma can_tick_twice: "can_tick b (ticked b (one_item b txt pid rid))"
  by (cases b) (simp_all add: one_item_def view_simps can_tick_def ticked_def vc_get_increment)

lemma todo_tests:
  "add_creates_todo b \<and> empty_add_is_ignored b \<and> toggle_flips_completion b \<and>
   delete_removes_todo_from_snapshot b"
proof -
  have trims: "trim (lit ''Buy milk'') = lit ''Buy milk''" "trim (lit ''   '') = []"
    "trim (lit ''Walk dog'') \<noteq> []" "trim (lit ''Temporary'') \<noteq> []" "lit ''Buy milk'' \<noteq> []"
    by (simp_all add: trim_def lit_def is_whitespace_def)
  have "add_creates_todo b"
    by (simp add: add_creates_todo_def runs_first_add trims one_item_snapshot)
  moreover have "empty_add_is_ignored b"
    by (simp add: empty_add_is_ignored_def runs_def todo_add_eq trims)
  moreover have "toggle_flips_completion b"
    by (simp add: toggle_flips_completion_def runs_first_add trims one_item_snapshot runs_toggle
        snapshot_toggle snapshot_todos_ticked can_tick_twice)
  moreover have "delete_removes_todo_from_snapshot b"
    by (simp add: delete_removes_todo_from_snapshot_def runs_first_add trims one_item_snapshot runs_delete
        snapshot_delete snapshot_todos_ticked)
  ultimately show ?thesis by blast
qed

lemma todo_merge_tests: "merge_combines_additions_from_two_replicas b \<and> merge_propagates_deletion b"
proof -
  have trims: "trim (lit ''From A'') \<noteq> []" "trim (lit ''From B'') \<noteq> []" "trim (lit ''Doomed'') \<noteq> []"
    and names: "lit ''peer-a'' \<noteq> lit ''peer-b''"
    by (simp_all add: trim_def lit_def is_whitespace_def)
  have "merge_combines_additions_from_two_replicas b"
    using names
    by (simp add: merge_combines_additions_from_two_replicas_def runs_first_add trims Let_def snapshot_count
        todo_wf_merge one_item_wf visible_def todo_merge_fields(1,2) card_insert_if)
  moreover have "todo_wf (snd (mark_removed (todo_id pid 1) (ticked b (one_item b t pid rid))))" for t pid rid
    using one_item_wf [of b t pid rid] by (simp add: todo_wf_def view_simps)
  then have "merge_propagates_deletion b"
    by (simp add: merge_propagates_deletion_def runs_first_add trims one_item_snapshot Let_def runs_delete
        snapshot_count todo_wf_merge todo_wf_new one_item_wf visible_def
        todo_merge_fields(1,2) mark_removed_fields del: length_0_conv)
  ultimately show ?thesis by blast
qed

subsection \<open>Properties\<close>


end
