(* ===== verification/Cluster.thy ===== *)
theory Cluster
  imports TodoSteps
begin

section \<open>A network of todo servers\<close>

text \<open>
  The whole system: servers numbered by \<open>nat\<close>, each with its todo state, and between any two of them the
  states that have been pushed and not yet merged, in order (one TCP connection per configured peer).
  The steps are those of the components: a server applies a client message
  (\<^verbatim>\<open>apply_and_broadcast\<close>), pushes its serialised state to a configured peer (\<^verbatim>\<open>push_state\<close>, for
  whatever reason), merges the oldest state that is in transit to it (\<^verbatim>\<open>serve_incoming\<close>), or a
  connection breaks and loses what was in transit. Which step comes next is not determined. Servers do not
  restart (\<open>Restarts\<close> adds that). \<open>cluster_run b peers name rid n c\<close>: \<open>c\<close> is reached in \<open>n\<close> steps from servers that have just been
  started with the names \<open>name\<close>.
\<close>

record cluster =
  nodes :: "nat \<Rightarrow> todo_state"
  links :: "nat \<Rightarrow> nat \<Rightarrow> todo_state list"

definition cluster_init :: "(nat \<Rightarrow> rust_string) \<Rightarrow> (nat \<Rightarrow> replica_id) \<Rightarrow> cluster" where
  "cluster_init name rid = \<lparr>nodes = (\<lambda>i. todo_new (name i) (rid i)), links = (\<lambda>_ _. [])\<rparr>"

definition set_link :: "nat \<Rightarrow> nat \<Rightarrow> todo_state list \<Rightarrow> cluster \<Rightarrow> cluster" where
  "set_link i j ss c = c\<lparr>links := (links c)(i := (links c i)(j := ss))\<rparr>"

inductive cluster_step :: "build \<Rightarrow> (nat \<times> nat) set \<Rightarrow> cluster \<Rightarrow> cluster \<Rightarrow> bool" for b peers where
  client: "cluster_step b peers c (c\<lparr>nodes := (nodes c)(i := snd (todo_apply b m (nodes c i)))\<rparr>)"
| push: "(i, j) \<in> peers \<Longrightarrow>
     cluster_step b peers c (set_link i j (links c i j @ [todo_wire (nodes c i)]) c)"
| deliver: "links c i j = s # ss \<Longrightarrow>
     cluster_step b peers c
       (set_link i j ss (c\<lparr>nodes := (nodes c)(j := todo_merge (nodes c j) s)\<rparr>))"
| disconnect: "cluster_step b peers c (set_link i j [] c)"

inductive cluster_run ::
  "build \<Rightarrow> (nat \<times> nat) set \<Rightarrow> (nat \<Rightarrow> rust_string) \<Rightarrow> (nat \<Rightarrow> replica_id) \<Rightarrow> nat \<Rightarrow> cluster \<Rightarrow> bool"
  for b peers name rid where
  start: "cluster_run b peers name rid 0 (cluster_init name rid)"
| step: "cluster_run b peers name rid n c \<Longrightarrow> cluster_step b peers c c' \<Longrightarrow>
     cluster_run b peers name rid (Suc n) c'"

text \<open>All states that exist somewhere in the network.\<close>

definition states :: "cluster \<Rightarrow> todo_state set" where
  "states c = range (nodes c) \<union> (\<Union>i j. set (links c i j))"

lemma nodes_in_states [simp]: "nodes c i \<in> states c"
  by (simp add: states_def)

lemma link_in_states: "s \<in> set (links c i j) \<Longrightarrow> s \<in> states c"
  by (auto simp: states_def)

lemma states_init: "states (cluster_init name rid) = (\<lambda>i. todo_new (name i) (rid i)) ` UNIV"
  by (auto simp: states_def cluster_init_def)

lemma nodes_set_link [simp]: "nodes (set_link i j ss c) = nodes c"
  by (simp add: set_link_def)

lemma states_set_link: "states (set_link i j ss c) \<subseteq> states c \<union> set ss"
  by (auto simp: states_def set_link_def split: if_splits)

lemma states_set_node: "states (c\<lparr>nodes := (nodes c)(i := s)\<rparr>) \<subseteq> insert s (states c)"
  by (auto simp: states_def)

subsection \<open>One consistent history\<close>

text \<open>
  \<open>consistent L name N S\<close>: the states \<open>S\<close> agree with the labels \<open>L\<close>, are well-formed, and every identifier
  in them is \<open>name k\<close> followed by a number that server \<open>k\<close> has used already (\<open>N k\<close> is its counter).
\<close>

definition issued :: "(nat \<Rightarrow> rust_string) \<Rightarrow> (nat \<Rightarrow> nat) \<Rightarrow> rust_string set \<Rightarrow> bool" where
  "issued name N I \<longleftrightarrow> (\<forall>i\<in>I. \<exists>k m. i = todo_id (name k) m \<and> 1 \<le> m \<and> m \<le> N k)"

definition consistent ::
  "labels \<Rightarrow> (nat \<Rightarrow> rust_string) \<Rightarrow> (nat \<Rightarrow> nat) \<Rightarrow> todo_state set \<Rightarrow> bool" where
  "consistent L name N S \<longleftrightarrow>
     (\<forall>k m. snd (L (todo_id (name k) m)) = name k) \<and>
     (\<forall>s\<in>S. todo_agrees L s \<and> todo_wf s \<and> issued name N (gs_view (added s)))"

lemma consistent_subset: "consistent L name N T \<Longrightarrow> S \<subseteq> T \<Longrightarrow> consistent L name N S"
  by (auto simp: consistent_def)

lemma issued_mono: "issued name N I \<Longrightarrow> (\<And>k. N k \<le> N' k) \<Longrightarrow> issued name N' I"
  unfolding issued_def by (meson order_trans)

lemma consistent_mono: "consistent L name N S \<Longrightarrow> (\<And>k. N k \<le> N' k) \<Longrightarrow> consistent L name N' S"
  unfolding consistent_def using issued_mono by blast

lemma consistent_insert:
  "consistent L name N S \<Longrightarrow> todo_agrees L s \<Longrightarrow> todo_wf s \<Longrightarrow> issued name N (gs_view (added s)) \<Longrightarrow>
   consistent L name N (insert s S)"
  by (auto simp: consistent_def)

lemma consistent_wire:
  "consistent L name N S \<Longrightarrow> s \<in> S \<Longrightarrow> consistent L name N (insert (todo_wire s) S)"
  by (rule consistent_insert) (auto simp: consistent_def todo_agrees_def todo_wire_def todo_wf_def)

lemma consistent_merge:
  "consistent L name N S \<Longrightarrow> s \<in> S \<Longrightarrow> t \<in> S \<Longrightarrow> consistent L name N (insert (todo_merge s t) S)"
  by (rule consistent_insert)
    (auto simp: consistent_def todo_agrees_merge todo_wf_merge issued_def todo_merge_fields(1))

text \<open>An identifier that nobody has been given can be labelled at will.\<close>

lemma consistent_relabel:
  assumes ok: "consistent L name N S" and fresh: "\<not> issued name N {i}"
    and label: "i = todo_id (name k) m" "inj name"
  shows "consistent (L(i := (t, name k))) name N S"
  unfolding consistent_def
proof (intro conjI allI ballI)
  fix k' m'
  show "snd ((L(i := (t, name k))) (todo_id (name k') m')) = name k'"
    using ok label by (auto simp: consistent_def)
next
  fix s assume s: "s \<in> S"
  then have *: "todo_agrees L s" "todo_wf s" "issued name N (gs_view (added s))"
    using ok by (auto simp: consistent_def)
  then show "todo_wf s" "issued name N (gs_view (added s))" by simp_all
  have "i \<notin> gs_view (added s)" using *(3) fresh by (auto simp: issued_def)
  then have "hm_get (texts s) i = None" "hm_get (creators s) i = None"
    using *(2) by (auto simp: todo_wf_def)
  then show "todo_agrees (L(i := (t, name k))) s"
    using *(1) by (auto simp: todo_agrees_def)
qed

subsection \<open>A client message\<close>

definition has_room :: "build \<Rightarrow> todo_state \<Rightarrow> bool" where
  "has_room b s \<longleftrightarrow> b = Debug \<or> vc_get (clock s) (replica_id s) \<noteq> - 1 \<and> next_local_id s \<noteq> - 1"

text \<open>A client message leaves the data of items alone, or adds one item with the next number.\<close>

lemma local_step_cases:
  assumes "local_step b s m r s'"
  obtains (same) "added s' = added s" "texts s' = texts s" "creators s' = creators s"
      "next_local_id s' = next_local_id s"
    | (item) t where "s' = with_item b t s" "can_number b s" "can_tick b s"
  using assms by cases auto

lemma local_step_clock: "local_step b s m r s' \<Longrightarrow> clock s' = clock s \<or> clock s' = clock (ticked b s)"
  by (induction rule: local_step.induct) (simp_all add: view_simps)

lemma vc_positive_ticked:
  "has_room b s \<Longrightarrow> vc_positive (clock s) \<Longrightarrow> vc_positive (clock (ticked b s))"
  by (auto simp: has_room_def ticked_def intro!: vc_positive_increment)

lemma local_step_positive:
  "local_step b s m r s' \<Longrightarrow> has_room b s \<Longrightarrow> vc_positive (clock s) \<Longrightarrow> vc_positive (clock s')"
  using local_step_clock [of b s m r s'] vc_positive_ticked [of b s] by metis

lemma can_number_unat:
  "has_room b s \<Longrightarrow> can_number b s \<Longrightarrow> unat (next_local_id s + 1) = unat (next_local_id s) + 1"
  using unat_succ [of "next_local_id s"] by (cases b) (auto simp: has_room_def can_number_def)

lemma agrees_with_item:
  "todo_agrees M s \<Longrightarrow> M (fresh_id s) = (t, peer_id s) \<Longrightarrow> vc_positive (clock (with_item b t s)) \<Longrightarrow>
   todo_agrees M (with_item b t s)"
  by (auto simp: todo_agrees_def view_simps)

lemma consistent_step:
  assumes ok: "consistent L name N S" and s: "s \<in> S" and inj: "inj name"
    and me: "peer_id s = name k" "N k = unat (next_local_id s)"
    and step: "local_step b s m r s'" and room: "has_room b s"
  shows "\<exists>L'. consistent L' name (N(k := unat (next_local_id s'))) (insert s' S)"
  using step
proof (cases rule: local_step_cases)
  case same
  have "todo_agrees L s" "todo_wf s" "issued name N (gs_view (added s))"
    using ok s by (auto simp: consistent_def)
  then have "todo_agrees L s'" "todo_wf s'" "issued name N (gs_view (added s'))"
    using same local_step_positive [OF step room] todo_wf_step [OF step]
    by (simp_all add: todo_agrees_def)
  moreover have "N(k := unat (next_local_id s')) = N" using same me by auto
  ultimately show ?thesis using consistent_insert [OF ok] by auto
next
  case (item t)
  define i where "i = fresh_id s"
  define N' where "N' = N(k := N k + 1)"
  have next_id: "unat (next_local_id s') = N k + 1" and i: "i = todo_id (name k) (N k + 1)"
    using can_number_unat [OF room item(2)] me by (simp_all add: item view_simps i_def fresh_id_def)
  have fresh: "\<not> issued name N {i}"
    using inj by (auto simp: issued_def i inj_eq)
  have "consistent (L(i := (t, name k))) name N S"
    using consistent_relabel [OF ok fresh i inj] .
  then have ok': "consistent (L(i := (t, name k))) name N' S"
    by (rule consistent_mono) (simp add: N'_def)
  have agrees: "todo_agrees (L(i := (t, name k))) s" and wf: "todo_wf s"
    and ids: "issued name N' (gs_view (added s))"
    using ok' s by (auto simp: consistent_def)
  have "todo_agrees (L(i := (t, name k))) s'"
    unfolding item(1) using agrees local_step_positive [OF step room] me
    by (intro agrees_with_item) (auto simp: todo_agrees_def item(1) i_def)
  moreover have "todo_wf s'" using todo_wf_step [OF step wf] .
  moreover have "issued name N' (gs_view (added s'))"
  proof -
    have "issued name N' {i}" unfolding issued_def i by (auto simp: N'_def)
    with ids show ?thesis by (auto simp: issued_def item view_simps i_def)
  qed
  ultimately have "consistent (L(i := (t, name k))) name N' (insert s' S)"
    using consistent_insert [OF ok'] by blast
  then show ?thesis by (auto simp: N'_def next_id)
qed

subsection \<open>The invariant of the network\<close>

definition numbers :: "cluster \<Rightarrow> nat \<Rightarrow> nat" where
  "numbers c k = unat (next_local_id (nodes c k))"

definition cluster_ok :: "(nat \<Rightarrow> rust_string) \<Rightarrow> (nat \<Rightarrow> replica_id) \<Rightarrow> cluster \<Rightarrow> bool" where
  "cluster_ok name rid c \<longleftrightarrow>
     (\<forall>i. peer_id (nodes c i) = name i \<and> replica_id (nodes c i) = rid i) \<and>
     (\<exists>L. consistent L name (numbers c) (states c))"

lemma cluster_ok_init: "cluster_ok name rid (cluster_init name rid)"
proof -
  define L :: labels where "L i = ([], butlast (rev (dropWhile (\<lambda>c. c \<noteq> 45) (rev i))))" for i
  have "snd (L (todo_id (name k) m)) = name k" for k m
  proof -
    have rev_id: "rev (todo_id (name k) m) = rev (dec_digits m) @ 45 # rev (name k)"
      by (simp add: todo_id_def lit_def)
    have "\<And>c. c \<in> set (rev (dec_digits m)) \<Longrightarrow> c \<noteq> 45" using hyphen_not_digit [of m] by auto
    then have "dropWhile (\<lambda>c. c \<noteq> 45) (rev (todo_id (name k) m)) = 45 # rev (name k)"
      unfolding rev_id by (subst dropWhile_append2) auto
    then show ?thesis by (simp add: L_def)
  qed
  then have "consistent L name N (states (cluster_init name rid))" for N
    by (auto simp: consistent_def states_init todo_agrees_def issued_def todo_wf_new)
  then show ?thesis by (auto simp: cluster_ok_def cluster_init_def)
qed

lemma cluster_ok_step:
  assumes step: "cluster_step b peers c c'" and inj: "inj name"
    and ok: "cluster_ok name rid c" and room: "\<forall>i. has_room b (nodes c i)"
  shows "cluster_ok name rid c'"
proof -
  obtain L where L: "consistent L name (numbers c) (states c)"
    and ids: "\<And>i. peer_id (nodes c i) = name i \<and> replica_id (nodes c i) = rid i"
    using ok by (auto simp: cluster_ok_def)
  from step show ?thesis
  proof cases
    case (client i m)
    define s' where "s' = snd (todo_apply b m (nodes c i))"
    have local: "local_step b (nodes c i) m (fst (todo_apply b m (nodes c i))) s'"
      unfolding s'_def by (rule todo_apply_step)
    have "numbers c i = unat (next_local_id (nodes c i))" by (simp add: numbers_def)
    then obtain L' where
      L': "consistent L' name ((numbers c)(i := unat (next_local_id s'))) (insert s' (states c))"
      using consistent_step [OF L nodes_in_states inj _ _ local] ids room by blast
    have "numbers c' = (numbers c)(i := unat (next_local_id s'))"
      by (auto simp: client s'_def numbers_def fun_eq_iff)
    moreover have "states c' \<subseteq> insert s' (states c)"
      unfolding client(1) s'_def by (rule states_set_node)
    ultimately have "consistent L' name (numbers c') (states c')"
      using L' consistent_subset by metis
    moreover have "peer_id (nodes c' j) = name j \<and> replica_id (nodes c' j) = rid j" for j
      using ids local_step_ids [OF local] by (simp add: client s'_def)
    ultimately show ?thesis by (auto simp: cluster_ok_def)
  next
    case (push i j)
    have "states c' \<subseteq> insert (todo_wire (nodes c i)) (states c)"
      using states_set_link [of i j "links c i j @ [todo_wire (nodes c i)]" c]
      by (auto simp: push(1) dest: link_in_states)
    then have "consistent L name (numbers c) (states c')"
      using consistent_wire [OF L nodes_in_states] consistent_subset by blast
    moreover have "numbers c' = numbers c" by (simp add: push(1) numbers_def [abs_def])
    ultimately show ?thesis using ids by (auto simp: cluster_ok_def push(1))
  next
    case (deliver i j s ss)
    let ?t = "todo_merge (nodes c j) s"
    let ?c = "c\<lparr>nodes := (nodes c)(j := ?t)\<rparr>"
    have s: "s \<in> states c" and ss: "set ss \<subseteq> states c"
      using deliver(2) by (auto intro: link_in_states [of _ c i j])
    have "states c' \<subseteq> insert ?t (states c)"
      using states_set_link [of i j ss ?c] states_set_node [of c j ?t] ss
      unfolding deliver(1) by blast
    then have "consistent L name (numbers c) (states c')"
      using consistent_merge [OF L nodes_in_states s] consistent_subset by blast
    moreover have "numbers c' = numbers c" by (auto simp: deliver(1) numbers_def fun_eq_iff)
    ultimately show ?thesis using ids by (auto simp: cluster_ok_def deliver(1))
  next
    case (disconnect i j)
    have "states c' \<subseteq> states c" using states_set_link [of i j "[]" c] by (simp add: disconnect)
    then have "consistent L name (numbers c) (states c')" using L consistent_subset by blast
    moreover have "numbers c' = numbers c" by (simp add: disconnect numbers_def [abs_def])
    ultimately show ?thesis using ids by (auto simp: cluster_ok_def disconnect)
  qed
qed

subsection \<open>No counter outgrows the number of steps\<close>

definition counters_below :: "nat \<Rightarrow> cluster \<Rightarrow> bool" where
  "counters_below n c \<longleftrightarrow>
     (\<forall>i. numbers c i \<le> n) \<and> (\<forall>s\<in>states c. \<forall>r. unat (vc_get (clock s) r) \<le> n)"

lemma counters_below_room:
  assumes below: "counters_below n c" and n: "Suc n < 2 ^ 64"
  shows "has_room b (nodes c i)"
proof -
  have "unat (vc_get (clock (nodes c i)) (replica_id (nodes c i))) \<le> n"
    "unat (next_local_id (nodes c i)) \<le> n"
    using below by (simp_all add: counters_below_def numbers_def)
  moreover have "unat (- 1 :: u64) = 2 ^ 64 - 1"
    by (simp add: unsigned_minus_1_eq_mask mask_eq_exp_minus_1)
  ultimately show ?thesis using n by (auto simp: has_room_def)
qed

lemma local_step_counters:
  assumes step: "local_step b s m r s'" and room: "\<forall>b. has_room b s"
  shows "unat (next_local_id s') \<le> Suc (unat (next_local_id s))"
    and "unat (vc_get (clock s') q) \<le> Suc (unat (vc_get (clock s) q))"
proof -
  have room': "vc_get (clock s) (replica_id s) \<noteq> - 1" "next_local_id s \<noteq> - 1"
    using room [rule_format, of Release] by (simp_all add: has_room_def)
  show "unat (next_local_id s') \<le> Suc (unat (next_local_id s))"
    using step unat_succ [OF room'(2)] by cases (simp_all add: view_simps)
  show "unat (vc_get (clock s') q) \<le> Suc (unat (vc_get (clock s) q))"
    using local_step_clock [OF step] unat_succ [OF room'(1)] room'(1)
    by (auto simp: ticked_def vc_get_increment)
qed

lemma counters_below_step:
  assumes step: "cluster_step b peers c c'" and below: "counters_below n c" and n: "Suc n < 2 ^ 64"
  shows "counters_below (Suc n) c'"
proof -
  have nums: "numbers c i \<le> n" for i using below by (simp add: counters_below_def)
  have clocks: "s \<in> states c \<Longrightarrow> unat (vc_get (clock s) r) \<le> n" for s r
    using below by (simp add: counters_below_def)
  from step have "(\<forall>i. numbers c' i \<le> Suc n) \<and>
      (\<exists>s. states c' \<subseteq> insert s (states c) \<and> (\<forall>r. unat (vc_get (clock s) r) \<le> Suc n))"
  proof cases
    case (client i m)
    define s' where "s' = snd (todo_apply b m (nodes c i))"
    have room: "\<forall>b. has_room b (nodes c i)" using counters_below_room [OF below n] by blast
    have "unat (next_local_id s') \<le> Suc n" "unat (vc_get (clock s') r) \<le> Suc n" for r
      using local_step_counters [OF todo_apply_step room, of b m, folded s'_def]
        nums [of i] clocks [OF nodes_in_states, of i r] unfolding numbers_def
      by (meson Suc_le_mono order_trans)+
    moreover have "states c' \<subseteq> insert s' (states c)"
      unfolding client(1) s'_def by (rule states_set_node)
    ultimately show ?thesis
      using nums by (auto simp: client(1) numbers_def s'_def intro: le_SucI)
  next
    case (push i j)
    have "states c' \<subseteq> insert (todo_wire (nodes c i)) (states c)"
      using states_set_link [of i j "links c i j @ [todo_wire (nodes c i)]" c]
      by (auto simp: push(1) dest: link_in_states)
    moreover have "unat (vc_get (clock (todo_wire (nodes c i))) r) \<le> Suc n" for r
      using clocks [OF nodes_in_states, of i r] by (simp add: todo_wire_def)
    ultimately show ?thesis using nums by (auto simp: push(1) numbers_def intro: le_SucI)
  next
    case (deliver i j s ss)
    let ?t = "todo_merge (nodes c j) s"
    let ?c = "c\<lparr>nodes := (nodes c)(j := ?t)\<rparr>"
    have s: "s \<in> states c" and ss: "set ss \<subseteq> states c"
      using deliver(2) by (auto intro: link_in_states [of _ c i j])
    have "states c' \<subseteq> insert ?t (states c)"
      using states_set_link [of i j ss ?c] states_set_node [of c j ?t] ss
      unfolding deliver(1) by blast
    moreover have "unat (vc_get (clock ?t) r) \<le> Suc n" for r
      using clocks [OF nodes_in_states, of j r] clocks [OF s, of r]
      by (simp add: todo_merge_fields vc_get_merge unat_max)
    ultimately show ?thesis using nums by (auto simp: deliver(1) numbers_def intro: le_SucI)
  next
    case (disconnect i j)
    then show ?thesis
      using states_set_link [of i j "[]" c] nums clocks [OF nodes_in_states]
      by (intro conjI exI [of _ "nodes c 0"]) (auto simp: numbers_def intro: le_SucI)
  qed
  then obtain s where "\<forall>i. numbers c' i \<le> Suc n" and sub: "states c' \<subseteq> insert s (states c)"
    and s: "\<And>r. unat (vc_get (clock s) r) \<le> Suc n" by blast
  moreover have "unat (vc_get (clock t) r) \<le> Suc n" if "t \<in> states c'" for t r
  proof (cases "t = s")
    case False
    then have "t \<in> states c" using that sub by blast
    from clocks [OF this] show ?thesis by (rule le_SucI)
  qed (simp add: s)
  ultimately show ?thesis by (simp add: counters_below_def)
qed

lemma counters_below_init: "counters_below 0 (cluster_init name rid)"
proof -
  have "numbers (cluster_init name rid) i = 0" for i by (simp add: numbers_def cluster_init_def)
  moreover have "unat (vc_get (clock s) r) = 0" if "s \<in> states (cluster_init name rid)" for s r
    using that by (auto simp: states_init)
  ultimately show ?thesis by (simp add: counters_below_def)
qed

lemma cluster_run_counters: "cluster_run b peers name rid n c \<Longrightarrow> n < 2 ^ 64 \<Longrightarrow> counters_below n c"
proof (induction rule: cluster_run.induct)
  case start
  show ?case by (rule counters_below_init)
next
  case (step n c c')
  then show ?case by (intro counters_below_step) auto
qed

lemma cluster_run_room:
  assumes "cluster_run b peers name rid n c" "b = Debug \<or> Suc n < 2 ^ 64"
  shows "has_room b (nodes c i)"
proof (cases b)
  case Debug
  then show ?thesis by (simp add: has_room_def)
next
  case Release
  then show ?thesis
    using assms counters_below_room [OF cluster_run_counters [OF assms(1)]] by simp
qed

lemma cluster_run_ok:
  assumes "cluster_run b peers name rid n c" "inj name" "b = Debug \<or> n < 2 ^ 64"
  shows "cluster_ok name rid c"
  using assms
proof (induction rule: cluster_run.induct)
  case start
  show ?case by (rule cluster_ok_init)
next
  case (step n c c')
  then have "\<forall>i. has_room b (nodes c i)" using cluster_run_room [OF step.hyps(1)] by blast
  then show ?case using step by (intro cluster_ok_step [of b peers c c']) auto
qed

subsection \<open>No copy is ahead of a server's own clock\<close>

definition clock_accurate :: "(nat \<Rightarrow> replica_id) \<Rightarrow> nat \<Rightarrow> cluster \<Rightarrow> bool" where
  "clock_accurate rid k c \<longleftrightarrow>
     (\<forall>s\<in>states c. vc_get (clock s) (rid k) \<le> vc_get (clock (nodes c k)) (rid k))"

lemma clock_accurateD:
  "clock_accurate rid k c \<Longrightarrow> s \<in> states c \<Longrightarrow>
   vc_get (clock s) (rid k) \<le> vc_get (clock (nodes c k)) (rid k)"
  by (simp add: clock_accurate_def)

lemma vc_get_ticked:
  "vc_get (clock (ticked b s)) r =
     (if r = replica_id s \<and> can_tick b s then vc_get (clock s) r + 1 else vc_get (clock s) r)"
  by (cases "can_tick b s"; cases b)
    (auto simp: ticked_def can_tick_def vc_get_increment vc_increment_overflow)

lemma local_step_clock_grows:
  assumes "local_step b s m r s'" "has_room b s"
  shows "vc_get (clock s) q \<le> vc_get (clock s') q"
proof -
  have "vc_get (clock s) q \<le> vc_get (clock (ticked b s)) q"
    using assms(2) word_less_succ [of "vc_get (clock s) q"]
    by (cases b) (auto simp: vc_get_ticked can_tick_def has_room_def)
  then show ?thesis using local_step_clock [OF assms(1)] by auto
qed

lemma local_step_clock_others:
  "local_step b s m r s' \<Longrightarrow> q \<noteq> replica_id s \<Longrightarrow> vc_get (clock s') q = vc_get (clock s) q"
  using local_step_clock [of b s m r s'] by (auto simp: vc_get_ticked)

lemma clock_accurate_step:
  assumes step: "cluster_step b peers c c'" and inj: "\<forall>i. i \<noteq> k \<longrightarrow> rid i \<noteq> rid k" and acc: "clock_accurate rid k c"
    and ids: "\<And>i. replica_id (nodes c i) = rid i" and room: "\<And>i. has_room b (nodes c i)"
  shows "clock_accurate rid k c'"
  using step
proof cases
  case (client i m)
  define s' where "s' = snd (todo_apply b m (nodes c i))"
  have local: "local_step b (nodes c i) m (fst (todo_apply b m (nodes c i))) s'"
    unfolding s'_def by (rule todo_apply_step)
  have grows: "vc_get (clock (nodes c k)) q \<le> vc_get (clock (nodes c' k)) q" for q
    using local_step_clock_grows [OF local room] by (simp add: client s'_def)
  have new: "vc_get (clock s') (rid k) \<le> vc_get (clock (nodes c' k)) (rid k)"
  proof (cases "k = i")
    case False
    then have "vc_get (clock s') (rid k) = vc_get (clock (nodes c i)) (rid k)"
      using inj by (intro local_step_clock_others [OF local]) (auto simp: ids)
    then show ?thesis using clock_accurateD [OF acc nodes_in_states, of i] grows by (metis order_trans)
  qed (simp add: client s'_def)
  have "states c' \<subseteq> insert s' (states c)" unfolding client(1) s'_def by (rule states_set_node)
  then show ?thesis
    unfolding clock_accurate_def using new clock_accurateD [OF acc] grows by (blast intro: order_trans)
next
  case (push i j)
  have "states c' \<subseteq> insert (todo_wire (nodes c i)) (states c)"
    using states_set_link [of i j "links c i j @ [todo_wire (nodes c i)]" c]
    by (auto simp: push(1) dest: link_in_states)
  moreover have "clock (todo_wire (nodes c i)) = clock (nodes c i)" by (simp add: todo_wire_def)
  moreover have "nodes c' = nodes c" by (simp add: push(1))
  ultimately show ?thesis
    unfolding clock_accurate_def using clock_accurateD [OF acc] nodes_in_states by (metis insertE subsetD)
next
  case (deliver i j s ss)
  let ?t = "todo_merge (nodes c j) s"
  let ?c = "c\<lparr>nodes := (nodes c)(j := ?t)\<rparr>"
  have s: "s \<in> states c" and ss: "set ss \<subseteq> states c"
    using deliver(2) by (auto intro: link_in_states [of _ c i j])
  have states: "states c' \<subseteq> insert ?t (states c)"
    using states_set_link [of i j ss ?c] states_set_node [of c j ?t] ss
    unfolding deliver(1) by blast
  have t: "vc_get (clock ?t) q = max (vc_get (clock (nodes c j)) q) (vc_get (clock s) q)" for q
    by (simp add: todo_merge_fields vc_get_merge)
  have nodes: "nodes c' = (nodes c)(j := ?t)" by (simp add: deliver(1))
  have grows: "vc_get (clock (nodes c k)) q \<le> vc_get (clock (nodes c' k)) q" for q
    by (simp add: nodes t)
  have new: "vc_get (clock ?t) (rid k) \<le> vc_get (clock (nodes c' k)) (rid k)"
    using clock_accurateD [OF acc nodes_in_states, of j] clock_accurateD [OF acc s] grows
    by (cases "k = j") (auto simp: nodes t)
  show ?thesis
    unfolding clock_accurate_def using states new clock_accurateD [OF acc] grows by (blast intro: order_trans)
next
  case (disconnect i j)
  then have "states c' \<subseteq> states c" "nodes c' = nodes c"
    using states_set_link [of i j "[]" c] by simp_all
  then show ?thesis using acc by (auto simp: clock_accurate_def)
qed

lemma cluster_run_clock:
  assumes "cluster_run b peers name rid n c" "inj name" "\<forall>i. i \<noteq> k \<longrightarrow> rid i \<noteq> rid k" "b = Debug \<or> n < 2 ^ 64"
  shows "clock_accurate rid k c"
  using assms
proof (induction rule: cluster_run.induct)
  case start
  show ?case by (auto simp: clock_accurate_def states_init)
next
  case (step n c c')
  have "cluster_ok name rid c"
    using step.prems by (intro cluster_run_ok [OF step.hyps(1)]) auto
  then have "replica_id (nodes c i) = rid i" for i by (simp add: cluster_ok_def)
  moreover have "has_room b (nodes c i)" for i
    using cluster_run_room [OF step.hyps(1)] step.prems(3) by blast
  ultimately show ?case
    using step by (intro clock_accurate_step [OF step.hyps(2)]) auto
qed

end
