(* ===== verification/SyncProps.thy ===== *)
theory SyncProps
  imports Sync TodoSteps
begin

section \<open>Properties of the sync layer\<close>

text \<open>
  What a connection writes and what the receiver makes of it, first for any state type, then for the todo
  state: whatever part of a session arrives is merged, a failed write or a broken frame loses only the rest of the
  session, and the next session makes up for everything that was lost before it.
\<close>

subsection \<open>Writing\<close>

text \<open>A session that is cut short by a failing write has sent a prefix of the full session.\<close>

definition extends :: "'b list \<Rightarrow> 'b list \<Rightarrow> bool" where
  "extends xs ys \<longleftrightarrow> (\<exists>zs. xs @ zs = ys)"

lemma extends_refl [simp]: "extends xs xs"
  by (simp add: extends_def)

lemma extends_trans: "extends xs ys \<Longrightarrow> extends ys zs \<Longrightarrow> extends xs zs"
  by (auto simp: extends_def)

lemma extends_Nil [simp]: "extends [] ys"
  by (simp add: extends_def)

lemma send_message_cases:
  obtains (failed) e where "send_message enc wr m out = (Inl e, out)"
  | (sent) x where "enc m = Some x" "send_message enc wr m out = (Inr (), out @ [x])"
      "send_message enc always_writes m out = (Inr (), out @ [x])"
  by (cases "enc m"; cases "wr (length out)") (auto simp: send_message_def)

lemma drive_loop_extends_out: "extends out (snd (drive_loop enc wr ws out))"
proof (induction ws arbitrary: out)
  case (Cons e ws)
  obtain w s where e: "e = (w, s)" by (cases e)
  show ?case
  proof (cases rule: send_message_cases [of enc wr "State s" out])
    case (sent x)
    have "extends out (out @ [x])" by (simp add: extends_def)
    then have "extends out (snd (drive_loop enc wr ws (out @ [x])))" using Cons.IH extends_trans by blast
    then show ?thesis by (simp add: e push_state_def sent)
  qed (simp add: e push_state_def)
qed simp

lemma drive_loop_prefix:
  "extends (snd (drive_loop enc wr ws out)) (snd (drive_loop enc always_writes ws out))"
proof (induction ws arbitrary: out)
  case (Cons e ws)
  obtain w s where e: "e = (w, s)" by (cases e)
  show ?case
  proof (cases rule: send_message_cases [of enc wr "State s" out])
    case failed
    then have "snd (drive_loop enc wr (e # ws) out) = out" by (simp add: e push_state_def)
    then show ?thesis using drive_loop_extends_out by metis
  next
    case (sent x)
    then show ?thesis by (simp add: e push_state_def Cons.IH)
  qed
qed simp

lemma drive_loop_result:
  assumes enc: "\<forall>m. enc m \<noteq> None"
  shows "fst (drive_loop enc always_writes ws out) =
    (if Changed Lagged \<in> fst ` set ws \<or> Changed Closed \<in> fst ` set ws then Some (Inr ()) else None)"
proof (induction ws arbitrary: out)
  case (Cons e ws)
  obtain w s where e: "e = (w, s)" by (cases e)
  obtain x where "enc (State s) = Some x" using enc by blast
  then show ?case by (auto simp: e Cons.IH push_state_def send_message_def)
qed simp

lemma absorb_wire: "absorb todo_merge t (map todo_wire xs) = absorb todo_merge t xs"
  by (induction xs arbitrary: t) (simp_all add: absorb_def todo_merge_wire)

subsection \<open>Properties\<close>

text \<open>C24. The receiving side of a connection merges every state that arrives, in order, up to the first frame
  that is broken or does not decode, and sends one notification per merged state; a broken frame ends the
  task with an error but what was merged before it stays; when its own greeting cannot be written it merges
  nothing.\<close>

theorem serve_incoming_merges_received:
  "serve_incoming enc dec merge wr pid fs s n =
     (case send_message enc wr (Hello pid) [] of
        (Inl e, _) \<Rightarrow> (Inl e, s, n)
      | (Inr _, _) \<Rightarrow>
          (fst (serve_loop dec merge fs s n),
           absorb merge s (received dec fs), n + length (received dec fs))) \<and>
   ((\<exists>e. fst (serve_loop dec merge fs s n) = Inl e) \<longleftrightarrow>
      (\<exists>f\<in>set fs. f = FrameError \<or> (\<exists>x. f = Frame x \<and> dec x = None)))"
proof -
  have "(\<exists>e. fst (serve_loop dec merge fs s n) = Inl e) \<longleftrightarrow>
      (\<exists>f\<in>set fs. f = FrameError \<or> (\<exists>x. f = Frame x \<and> dec x = None))"
  proof (induction fs arbitrary: s n)
    case (Cons f fs)
    then show ?case
      by (cases f) (auto simp: serve_frame_def split: option.split sync_message.split)
  qed simp
  moreover have "serve_loop dec merge fs s n =
      (fst (serve_loop dec merge fs s n), absorb merge s (received dec fs), n + length (received dec fs))"
    using serve_loop_absorb [of dec merge fs s n] by (simp add: prod_eq_iff)
  ultimately show ?thesis by (simp add: serve_incoming_def split: prod.split sum.split)
qed

text \<open>The sending side writes its greeting, the state at the time the connection opened, and then one
  state, the one of that moment, per change notification or tick of the anti-entropy timer; it ends without an
  error at the first error of the change channel (a receiver that has fallen behind counts as one) and otherwise goes on
  for ever. This holds while encoding and writing succeed; a write that fails at any point leaves a prefix of
  that on the wire.\<close>

theorem drive_outgoing_pushes:
  assumes "\<forall>m. enc m \<noteq> None"
  shows "snd (drive_outgoing enc always_writes pid s ws) =
           the (enc (Hello pid)) # map (\<lambda>s. the (enc (State s))) (s # pushed ws) \<and>
         fst (drive_outgoing enc always_writes pid s ws) =
           (if Changed Lagged \<in> fst ` set ws \<or> Changed Closed \<in> fst ` set ws then Some (Inr ()) else None) \<and>
         extends (snd (drive_outgoing enc wr pid s ws)) (snd (drive_outgoing enc always_writes pid s ws))"
proof -
  obtain x y where xy: "enc (Hello pid) = Some x" "enc (State s) = Some y" using assms by blast
  have "extends (snd (drive_outgoing enc wr pid s ws)) (snd (drive_outgoing enc always_writes pid s ws))"
  proof (cases "wr 0 \<and> wr 1")
    case True
    then show ?thesis
      using xy drive_loop_prefix [of enc wr ws "[x, y]"]
      by (simp add: drive_outgoing_def push_state_def send_message_def)
  next
    case False
    have "extends [x] [x, y]" by (simp add: extends_def)
    then have "extends [x] (snd (drive_loop enc always_writes ws [x, y]))"
      using drive_loop_extends_out extends_trans by blast
    then show ?thesis
      using xy False by (auto simp: drive_outgoing_def push_state_def send_message_def)
  qed
  moreover have "fst (drive_outgoing enc always_writes pid s ws) =
      fst (drive_loop enc always_writes ws [x, y])"
    using xy by (simp add: drive_outgoing_def push_state_def send_message_def)
  ultimately show ?thesis
    using drive_outgoing_all_sent [OF assms] drive_loop_result [OF assms] by simp
qed

theorem drive_outgoing_pushes_witness:
  "snd (drive_outgoing Some always_writes [65] (5 :: nat) [(Tick, 6), (Changed Lagged, 7), (Tick, 8)]) =
     [Hello [65], State 5, State 6]"
proof -
  have "\<forall>m :: nat sync_message. Some m \<noteq> None" by simp
  from drive_outgoing_pushes [OF this] show ?thesis by simp
qed

text \<open>C7. End to end: when a connection between two todo servers carries the first \<open>k + 1\<close> frames of a session and
  then ends, the receiver has merged exactly the first \<open>k\<close> states pushed, whole, without an error, and
  has notified its browsers that often; the fields that are not serialised make no difference. It relies on
  the codec returning what was encoded, up to those fields.\<close>

theorem session_delivers:
  assumes codec: "codec_ok enc dec todo_wire"
  shows "serve_loop dec todo_merge
           (map Frame (take (Suc k) (snd (drive_outgoing enc always_writes pid s ws)))) t n =
         (Inr (), absorb todo_merge t (take k (s # pushed ws)), n + length (take k (s # pushed ws)))"
  by (simp only: serve_session [OF codec] absorb_wire)

text \<open>A codec for the witnesses: the bytes are the message itself.\<close>

definition plain_dec :: "todo_state sync_message \<Rightarrow> todo_state sync_message option" where
  "plain_dec m = Some (map_sync_message todo_wire m)"

lemma plain_codec: "codec_ok Some plain_dec todo_wire"
  by (simp add: codec_ok_def plain_dec_def)

theorem session_delivers_witness:
  "serve_loop plain_dec todo_merge
     (map Frame (take 2 (snd (drive_outgoing Some always_writes [65] (todo_new [65] 1) [])))) (todo_new [66] 2) 0 =
   (Inr (), todo_merge (todo_new [66] 2) (todo_new [65] 1), 1)"
  using session_delivers [OF plain_codec, of 1 "[65]" "todo_new [65] 1" "[]" "todo_new [66] 2" 0]
  by (simp add: absorb_def numeral_2_eq_2)

text \<open>C8. A new connection makes up for everything lost before it. Whatever became of the earlier attempts
  (refused, broken by a write, ended by a change channel that fell behind), the outgoing task pauses and connects
  again; and once the second frame of the new session has arrived the receiver's state is above the
  sender's state at the time of the connection. All states are assumed to agree on the data of items, as they do
  in a network whose servers do not restart.\<close>

theorem reconnect_catches_up:
  assumes codec: "codec_ok enc dec todo_wire"
    and ended: "\<forall>a\<in>set earlier. a = Refused \<or>
      (\<exists>wr' s' ws'. a = Session wr' s' ws' \<and> fst (drive_outgoing enc wr' pid s' ws') \<noteq> None)"
    and agrees: "todo_agrees L t" "todo_agrees L s" "\<forall>x\<in>set (pushed ws). todo_agrees L x"
    and run: "outgoing_task enc pid (earlier @ [Session always_writes s ws]) = (outs, slept)"
  shows "merge_le todo_same todo_merge s
           (fst (snd (serve_loop dec todo_merge (map Frame (take (Suc (Suc k)) (last outs))) t n))) \<and>
         reconnect_delay * length earlier \<le> slept"
proof -
  define session where "session = drive_outgoing enc always_writes pid s ws"
  have "\<exists>outs slept. outgoing_task enc pid (earlier @ [Session always_writes s ws]) = (outs, slept) \<and>
      outs \<noteq> [] \<and> last outs = snd session \<and> reconnect_delay * length earlier \<le> slept"
    using ended
  proof (induction earlier)
    case Nil
    then show ?case
      by (cases session; cases "fst session") (auto simp: session_def split: prod.split option.split)
  next
    case (Cons a as)
    then obtain outs' slept' where IH:
      "outgoing_task enc pid (as @ [Session always_writes s ws]) = (outs', slept')"
      "outs' \<noteq> []" "last outs' = snd session" "reconnect_delay * length as \<le> slept'" by auto
    from Cons.prems have "a = Refused \<or>
      (\<exists>wr' s' ws'. a = Session wr' s' ws' \<and> fst (drive_outgoing enc wr' pid s' ws') \<noteq> None)" by simp
    then show ?case
    proof
      assume "a = Refused"
      with IH show ?thesis by simp
    next
      assume "\<exists>wr' s' ws'. a = Session wr' s' ws' \<and> fst (drive_outgoing enc wr' pid s' ws') \<noteq> None"
      then obtain wr' s' ws' r out where "a = Session wr' s' ws'"
        "drive_outgoing enc wr' pid s' ws' = (Some r, out)" by (metis not_None_eq prod.collapse)
      with IH show ?thesis by simp
    qed
  qed
  then have last: "last outs = snd session" "reconnect_delay * length earlier \<le> slept" using run by auto
  define xs where "xs = take k (pushed ws)"
  have "\<forall>x\<in>set (s # xs). todo_agrees L x" using agrees by (auto simp: xs_def dest: in_set_takeD)
  then have "is_join (todo_agrees L) todo_same todo_merge (insert t (set (s # xs)))
      (absorb todo_merge t (s # xs))" by (rule todo.absorb_join [OF agrees(1)])
  then have "merge_le todo_same todo_merge s (absorb todo_merge t (s # xs))" by (simp add: is_join_def)
  then show ?thesis
    using last(2) unfolding last(1) session_def serve_session [OF codec] absorb_wire
    by (simp add: xs_def)
qed

theorem reconnect_catches_up_witness:
  "merge_le todo_same todo_merge (todo_new [65] 1)
     (fst (snd (serve_loop plain_dec todo_merge
        (map Frame [Hello [65], State (todo_new [65] 1)]) (todo_new [66] 2) 0)))"
proof -
  have agrees: "todo_agrees (\<lambda>_. ([], [])) (todo_new pid rid)" for pid rid
    by (simp add: todo_agrees_def)
  have run: "outgoing_task Some [65] ([Refused] @ [Session always_writes (todo_new [65] 1) []]) =
      ([[Hello [65], State (todo_new [65] 1)]], reconnect_delay)"
    by (simp add: drive_outgoing_def push_state_def send_message_def)
  have ended: "\<forall>a\<in>set [Refused]. a = Refused \<or> (\<exists>wr' s' ws'. a = Session wr' s' ws' \<and>
      fst (drive_outgoing Some wr' [65] (s' :: todo_state) ws') \<noteq> None)" by simp
  from reconnect_catches_up [OF plain_codec ended agrees agrees _ run, of 0 "[66]" 2 0]
  show ?thesis by simp
qed

text \<open>Starting a node either fails because its address cannot be bound, before it has connected
  anywhere, or runs one listener and one outgoing task per configured peer; and the listener serves every
  connection it accepts, failed accepts in between costing a pause of 250 milliseconds each.\<close>

theorem sync_run_tasks:
  "sync_run bind_ok (sync_node_new pid s addr peers) =
     (if bind_ok addr then Inr (Listen addr # map Connect peers) else Inl IoError) \<and>
   accept_loop as = (List.map_filter (\<lambda>a. case a of Accepted c \<Rightarrow> Some c | AcceptError \<Rightarrow> None) as,
     250 * length (filter (\<lambda>a. a = AcceptError) as))"
proof -
  have "accept_loop as = (List.map_filter (\<lambda>a. case a of Accepted c \<Rightarrow> Some c | AcceptError \<Rightarrow> None) as,
     250 * length (filter (\<lambda>a. a = AcceptError) as))"
    by (induction as rule: accept_loop.induct) (simp_all add: map_filter_simps accept_error_delay_def)
  then show ?thesis by (simp add: sync_run_def sync_node_new_def)
qed

end
