(* ===== verification/ClusterProps.thy ===== *)
theory ClusterProps
  imports Cluster SyncProps TodoMerge
begin

section \<open>Properties of the network\<close>

text \<open>
  What holds in every state the network can reach, whatever the interleaving of edits, pushes, deliveries
  and broken connections: one history behind all states, convergence of replicas that have
  merged the same states, convergence of a group connected by pushes, and the meaning of the
  vector clock. The hypotheses are the same throughout: the names of the servers differ, none restarts, and in a
  release build fewer than \<open>2 ^ 64\<close> steps have been taken (a debug build panics instead of wrapping a
  counter, so it needs no bound).
\<close>

subsection \<open>A schedule of pushes as steps of the network\<close>

lemma exchange_steps:
  assumes peer: "(i, j) \<in> peers"
  shows "\<exists>c'. (cluster_step b peers ^^ 3) c c' \<and>
    nodes c' = (nodes c)(j := todo_merge (nodes c j) (nodes c i))"
proof -
  define c1 where "c1 = set_link i j [] c"
  define c2 where "c2 = set_link i j (links c1 i j @ [todo_wire (nodes c1 i)]) c1"
  define c3 where "c3 = set_link i j []
    (c2\<lparr>nodes := (nodes c2)(j := todo_merge (nodes c2 j) (todo_wire (nodes c i)))\<rparr>)"
  have link: "links c2 i j = [todo_wire (nodes c i)]"
    by (simp add: c1_def c2_def set_link_def)
  have "cluster_step b peers c c1" unfolding c1_def by (rule cluster_step.disconnect)
  moreover have "cluster_step b peers c1 c2" unfolding c2_def by (rule cluster_step.push [OF peer])
  moreover have "cluster_step b peers c2 c3" unfolding c3_def by (rule cluster_step.deliver [OF link])
  ultimately have "(cluster_step b peers ^^ 3) c c3" by (auto simp: numeral_3_eq_3)
  moreover have "nodes c3 = (nodes c)(j := todo_merge (nodes c j) (nodes c i))"
    by (simp add: c3_def c2_def c1_def todo_merge_wire)
  ultimately show ?thesis by blast
qed

lemma gossip_steps:
  "set es \<subseteq> peers \<Longrightarrow>
   \<exists>c'. (cluster_step b peers ^^ (3 * length es)) c c' \<and> nodes c' = gossip todo_merge es (nodes c)"
proof (induction es arbitrary: c)
  case (Cons e es)
  obtain i j where e: "e = (i, j)" by (cases e)
  have sub: "set es \<subseteq> peers" "(i, j) \<in> peers" using Cons.prems(1) e by auto
  from exchange_steps [OF sub(2), of b c]
  obtain c1 where c1: "(cluster_step b peers ^^ 3) c c1"
    and nodes: "nodes c1 = (nodes c)(j := todo_merge (nodes c j) (nodes c i))" by blast
  from Cons.IH [OF sub(1), of c1] obtain c' where "(cluster_step b peers ^^ (3 * length es)) c1 c'"
    and c': "nodes c' = gossip todo_merge es (nodes c1)" by blast
  then have "(cluster_step b peers ^^ (3 + 3 * length es)) c c'" using c1 by (auto simp only: relpowp_add)
  then show ?case using c' by (intro exI [of _ c']) (simp add: e nodes del: fun_upd_apply)
qed auto

lemma cluster_run_extend:
  "(cluster_step b peers ^^ m) c c' \<Longrightarrow> cluster_run b peers name rid n c \<Longrightarrow>
   cluster_run b peers name rid (n + m) c'"
proof (induction m arbitrary: c')
  case (Suc m)
  then show ?case by (auto intro: cluster_run.step)
qed simp

subsection \<open>A session as steps of the network\<close>

lemma deliver_all:
  "links c i j = ss \<Longrightarrow>
   \<exists>c'. (cluster_step b peers)\<^sup>*\<^sup>* c c' \<and> links c' i j = [] \<and>
     nodes c' = (nodes c)(j := absorb todo_merge (nodes c j) ss)"
proof (induction ss arbitrary: c)
  case Nil
  then show ?case by (intro exI [of _ c]) (simp add: absorb_def)
next
  case (Cons s ss)
  define c1 where "c1 = set_link i j ss (c\<lparr>nodes := (nodes c)(j := todo_merge (nodes c j) s)\<rparr>)"
  have step: "cluster_step b peers c c1" unfolding c1_def by (rule cluster_step.deliver [OF Cons.prems])
  have nodes: "nodes c1 = (nodes c)(j := todo_merge (nodes c j) s)" by (simp add: c1_def)
  have "links c1 i j = ss" by (simp add: c1_def set_link_def)
  from Cons.IH [OF this] obtain c' where c': "(cluster_step b peers)\<^sup>*\<^sup>* c1 c'" "links c' i j = []"
    "nodes c' = (nodes c1)(j := absorb todo_merge (nodes c1 j) ss)" by blast
  have "nodes c' = (nodes c)(j := absorb todo_merge (nodes c j) (s # ss))"
    by (simp add: c'(3) nodes absorb_def)
  with c' step show ?case by (meson converse_rtranclp_into_rtranclp)
qed

subsection \<open>Consequences of consistency\<close>

lemma absorb_wf: "todo_wf s \<Longrightarrow> \<forall>x\<in>set xs. todo_wf x \<Longrightarrow> todo_wf (absorb todo_merge s xs)"
  by (induction xs arbitrary: s) (simp_all add: absorb_def todo_wf_merge)

lemma gossip_wf: "\<forall>n. todo_wf (f n) \<Longrightarrow> todo_wf (gossip todo_merge es f n)"
proof (induction es arbitrary: f)
  case (Cons e es)
  then show ?case by (cases e) (simp add: todo_wf_merge)
qed simp

lemma gossip_ticked:
  "x \<in> set (snapshot_todos (gossip todo_merge es f j)) \<Longrightarrow>
   item_completed x \<longleftrightarrow> (\<exists>k\<in>heard es (\<lambda>n. {n}) j. hm_get (completed (f k)) (item_id x) = Some True)"
proof -
  assume "x \<in> set (snapshot_todos (gossip todo_merge es f j))"
  then have "item_completed x \<longleftrightarrow> item_id x \<in> true_keys (hm_get (completed (gossip todo_merge es f j)))"
    by (simp add: snapshot_flag true_keys_def)
  also have "true_keys (hm_get (completed (gossip todo_merge es f j))) =
      (\<Union>k\<in>heard es (\<lambda>n. {n}) j. true_keys (hm_get (completed (f k))))"
    by (rule gossip_union [where part = "\<lambda>s. true_keys (hm_get (completed s))"]; simp add: true_keys_merge)
  finally show ?thesis by (simp add: true_keys_def)
qed

lemma cluster_step_wf:
  assumes "cluster_step b peers c c'" and wf: "\<forall>s\<in>states c. todo_wf s"
  shows "\<forall>s\<in>states c'. todo_wf s"
  using assms(1)
proof cases
  case (client i m)
  have "todo_wf (snd (todo_apply b m (nodes c i)))"
    using todo_wf_step [OF todo_apply_step] wf by simp
  then show ?thesis using states_set_node wf unfolding client by blast
next
  case (push i j)
  have "todo_wf (todo_wire (nodes c i))" using wf by simp
  moreover have "states c' \<subseteq> insert (todo_wire (nodes c i)) (states c)"
    using states_set_link [of i j "links c i j @ [todo_wire (nodes c i)]" c]
    by (auto simp: push(1) dest: link_in_states)
  ultimately show ?thesis using wf by blast
next
  case (deliver i j s ss)
  have "s \<in> states c" "set ss \<subseteq> states c" using deliver(2) by (auto intro: link_in_states [of _ c i j])
  moreover from this have "todo_wf (todo_merge (nodes c j) s)" using wf by (simp add: todo_wf_merge)
  ultimately show ?thesis
    using states_set_link [of i j ss "c\<lparr>nodes := (nodes c)(j := todo_merge (nodes c j) s)\<rparr>"]
      states_set_node [of c j "todo_merge (nodes c j) s"] wf unfolding deliver(1) by blast
next
  case (disconnect i j)
  then show ?thesis using states_set_link [of i j "[]" c] wf by auto
qed

lemma gossip_visible:
  "visible (gossip todo_merge es f j) =
     (\<Union>k\<in>heard es (\<lambda>n. {n}) j. gs_view (added (f k))) -
     (\<Union>k\<in>heard es (\<lambda>n. {n}) j. gs_view (removed (f k)))"
proof -
  have "gs_view (added (gossip todo_merge es f j)) = (\<Union>k\<in>heard es (\<lambda>n. {n}) j. gs_view (added (f k)))"
    by (rule gossip_union [where part = "\<lambda>s. gs_view (added s)"]; simp add: todo_merge_fields(1))
  moreover have
    "gs_view (removed (gossip todo_merge es f j)) = (\<Union>k\<in>heard es (\<lambda>n. {n}) j. gs_view (removed (f k)))"
    by (rule gossip_union [where part = "\<lambda>s. gs_view (removed s)"]; simp add: todo_merge_fields(2))
  ultimately show ?thesis by (simp add: visible_def)
qed

lemma cluster_run_consistent:
  assumes "cluster_run b peers name rid n c" "inj name" "b = Debug \<or> n < 2 ^ 64"
  obtains L where "\<And>s. s \<in> states c \<Longrightarrow> todo_agrees L s" "\<And>s. s \<in> states c \<Longrightarrow> todo_wf s"
    "\<And>k m. snd (L (todo_id (name k) m)) = name k"
    "\<And>s. s \<in> states c \<Longrightarrow> issued name (numbers c) (gs_view (added s))"
    "\<And>i. peer_id (nodes c i) = name i" "\<And>i. replica_id (nodes c i) = rid i"
  using cluster_run_ok [OF assms] unfolding cluster_ok_def consistent_def by blast

text \<open>A run for the witnesses: the first server adds one item.\<close>

definition first_edit :: cluster where
  "first_edit = (let c = cluster_init dec_digits of_nat
     in c\<lparr>nodes := (nodes c)(0 := snd (todo_apply Debug (Add [66]) (nodes c 0)))\<rparr>)"

lemma first_edit_run: "cluster_run Debug peers dec_digits of_nat 1 first_edit" "inj dec_digits"
proof -
  have "cluster_step Debug peers (cluster_init dec_digits of_nat) first_edit"
    unfolding first_edit_def Let_def by (rule cluster_step.client)
  then show "cluster_run Debug peers dec_digits of_nat 1 first_edit"
    using cluster_run.step [OF cluster_run.start] by simp
qed (simp add: inj_def)

subsection \<open>Properties\<close>

text \<open>C13. The sync layer implements the network's deliveries. When the states in transit to a server are those that a
  session has pushed, serving the frames of that session, in the code's receiving loop, has the effect on the
  receiver that delivering them one by one has in the network, and no effect on any other server.\<close>

theorem session_implements_deliveries:
  assumes codec: "codec_ok enc dec todo_wire"
    and transit: "links c i j = map todo_wire (take k (s # pushed ws))"
  shows "\<exists>c'. (cluster_step b peers)\<^sup>*\<^sup>* c c' \<and> links c' i j = [] \<and>
    nodes c' = (nodes c)(j := fst (snd (serve_loop dec todo_merge
      (map Frame (take (Suc k) (snd (drive_outgoing enc always_writes pid s ws)))) (nodes c j) n)))"
  using deliver_all [OF transit, of b peers] by (simp only: serve_session [OF codec] fst_conv snd_conv)

theorem session_implements_deliveries_witness:
  "\<exists>c'. (cluster_step Debug UNIV)\<^sup>*\<^sup>*
      (set_link 0 1 [todo_wire (nodes first_edit 0)] first_edit) c' \<and>
    nodes c' 1 = todo_merge (nodes first_edit 1) (nodes first_edit 0)"
proof -
  let ?c = "set_link 0 1 [todo_wire (nodes first_edit 0)] first_edit"
  have "links ?c 0 1 = map todo_wire (take 1 (nodes first_edit 0 # pushed []))"
    by (simp add: set_link_def)
  from session_implements_deliveries [OF plain_codec this, of Debug UNIV "[]" 0]
  have "\<exists>c'. (cluster_step Debug UNIV)\<^sup>*\<^sup>* ?c c' \<and>
      nodes c' 1 = fst (snd (serve_loop plain_dec todo_merge
        (map Frame (take (Suc 1) (snd (drive_outgoing Some always_writes [] (nodes first_edit 0) []))))
        (nodes ?c 1) 0))" by (metis fun_upd_same)
  then show ?thesis
    unfolding serve_session [OF plain_codec] by (simp add: absorb_def todo_merge_wire)
qed

text \<open>C3. One history. In every reachable state of the network all copies of the todo list, those in
  transit included, agree on the text of every item; every item was created by one server, is recorded as
  created by it in every copy, and has an identifier made of that server's name and a number it has already
  used; and the sets and maps of every copy fit together.\<close>

theorem cluster_history:
  assumes "cluster_run b peers name rid n c" "inj name" "b = Debug \<or> n < 2 ^ 64"
  shows "(\<forall>s\<in>states c. \<forall>t\<in>states c. \<forall>i x y.
            hm_get (texts s) i = Some x \<and> hm_get (texts t) i = Some y \<longrightarrow> x = y) \<and>
         (\<forall>s\<in>states c. todo_wf s \<and> (\<forall>i\<in>gs_view (added s). \<exists>k m. i = todo_id (name k) m \<and>
            1 \<le> m \<and> m \<le> unat (next_local_id (nodes c k)) \<and> hm_get (creators s) i = Some (name k)))"
proof -
  obtain L where L: "\<And>s. s \<in> states c \<Longrightarrow> todo_agrees L s" "\<And>s. s \<in> states c \<Longrightarrow> todo_wf s"
    "\<And>k m. snd (L (todo_id (name k) m)) = name k"
    "\<And>s. s \<in> states c \<Longrightarrow> issued name (numbers c) (gs_view (added s))"
    using cluster_run_consistent [OF assms] by metis
  have "\<exists>k m. i = todo_id (name k) m \<and> 1 \<le> m \<and> m \<le> unat (next_local_id (nodes c k)) \<and>
      hm_get (creators s) i = Some (name k)" if s: "s \<in> states c" and i: "i \<in> gs_view (added s)" for s i
  proof -
    obtain k m where km: "i = todo_id (name k) m" "1 \<le> m" "m \<le> numbers c k"
      using L(4) [OF s] i by (auto simp: issued_def)
    obtain x where "hm_get (creators s) i = Some x"
      using L(2) [OF s] i unfolding todo_wf_def by blast
    moreover from this have "x = name k" using L(1) [OF s] L(3) [of k m]
      unfolding km(1) todo_agrees_def by metis
    ultimately show ?thesis using km by (auto simp: numbers_def)
  qed
  moreover have "x = y" if "s \<in> states c" "t \<in> states c" "hm_get (texts s) i = Some x"
    "hm_get (texts t) i = Some y" for s t i x y
    using that L(1) unfolding todo_agrees_def by metis
  ultimately show ?thesis using L(2) by blast
qed

theorem cluster_history_witness:
  "todo_wf (nodes first_edit 0) \<and> todo_wf (nodes first_edit 1)"
proof -
  have bound: "Debug = Debug \<or> (1 :: nat) < 2 ^ 64" by simp
  show ?thesis using cluster_history [OF first_edit_run bound] nodes_in_states by blast
qed

text \<open>C2. Strong eventual consistency. Two servers (or one server at two moments) that have merged the same
  states of a reachable network, in any order and however often each was delivered, hold equal
  replicated state and show their browsers the same list.\<close>

theorem cluster_same_states_same_list:
  assumes "cluster_run b peers name rid n c" "inj name" "b = Debug \<or> n < 2 ^ 64"
    and "insert s (set xs) \<subseteq> states c" "insert s (set xs) = insert t (set ys)"
  shows "todo_same (absorb todo_merge s xs) (absorb todo_merge t ys) \<and>
         snapshot_todos (absorb todo_merge s xs) = snapshot_todos (absorb todo_merge t ys)"
proof -
  obtain L where L: "\<And>s. s \<in> states c \<Longrightarrow> todo_agrees L s" "\<And>s. s \<in> states c \<Longrightarrow> todo_wf s"
    using cluster_run_consistent [OF assms(1-3)] by metis
  have in_states: "s \<in> states c" "t \<in> states c" "set xs \<subseteq> states c" "set ys \<subseteq> states c"
    using assms(4,5) by auto
  then have "todo_same (absorb todo_merge s xs) (absorb todo_merge t ys)"
    by (intro todo.absorb_converge [where L = L] assms(5)) (auto intro: L(1))
  moreover have "todo_wf (absorb todo_merge s xs)"
    using in_states by (intro absorb_wf) (auto intro: L(2))
  ultimately show ?thesis using snapshot_same by blast
qed

theorem cluster_same_states_same_list_witness:
  "todo_same (absorb todo_merge (nodes first_edit 0) [nodes first_edit 1])
     (absorb todo_merge (nodes first_edit 1) [nodes first_edit 0, nodes first_edit 1])"
  using cluster_same_states_same_list [OF first_edit_run, of "nodes first_edit 0" "[nodes first_edit 1]"
      "nodes first_edit 1" "[nodes first_edit 0, nodes first_edit 1]"] by auto



text \<open>C15. The vector clock counts what it is meant to count. If no other server has server \<open>k\<close>'s replica id, no copy of
  the state anywhere in a reachable network has a larger entry for it than its own clock has;
  so the clock it has after its next local edit is after or concurrent to the clock of every copy that
  exists, never equal to it or before it.\<close>

theorem cluster_clock_accurate:
  assumes "cluster_run b peers name rid n c" "inj name" "\<forall>i. i \<noteq> k \<longrightarrow> rid i \<noteq> rid k" "b = Debug \<or> Suc n < 2 ^ 64"
    and "s \<in> states c"
  shows "vc_get (clock s) (rid k) \<le> vc_get (clock (nodes c k)) (rid k) \<and>
    (case tick_clock b (nodes c k) of
       (Inr _, ticked_node) \<Rightarrow> vc_partial_cmp (clock ticked_node) (clock s) \<in> {Some Greater, None}
     | (Inl _, _) \<Rightarrow> b = Debug \<and> vc_get (clock (nodes c k)) (rid k) = - 1)"
proof -
  have bound: "b = Debug \<or> n < 2 ^ 64" using assms(4) by auto
  have le: "vc_get (clock s) (rid k) \<le> vc_get (clock (nodes c k)) (rid k)"
    using clock_accurateD [OF cluster_run_clock [OF assms(1-3) bound] assms(5)] .
  have me: "replica_id (nodes c k) = rid k"
    using cluster_run_ok [OF assms(1,2) bound] by (simp add: cluster_ok_def)
  show ?thesis
  proof (cases "can_tick b (nodes c k)")
    case True
    have room: "has_room b (nodes c k)" using cluster_run_room [OF assms(1,4)] .
    have "vc_get (clock (nodes c k)) (rid k) \<noteq> - 1"
      using True room by (cases b) (simp_all add: can_tick_def has_room_def me)
    then have "vc_get (clock s) (rid k) < vc_get (clock (ticked b (nodes c k))) (rid k)"
      using le word_less_succ [of "vc_get (clock (nodes c k)) (rid k)"] True
      by (simp add: vc_get_ticked me)
    then have "\<not> vc_le (clock (ticked b (nodes c k))) (clock s)"
      by (auto simp: vc_le_def not_le)
    then show ?thesis using le tick_clock_ok [OF True] by (simp add: vc_partial_cmp_eq)
  next
    case False
    then show ?thesis
      using le me tick_clock_panic [OF False] by (cases b) (simp_all add: can_tick_def)
  qed
qed

theorem cluster_clock_accurate_witness:
  "vc_get (clock (todo_new (dec_digits 1) 2)) 1 \<le> vc_get (clock (todo_new (dec_digits 0) 1)) 1"
proof -
  define rid :: "nat \<Rightarrow> replica_id" where "rid i = (if i = 0 then 1 else 2)" for i
  define c where "c = cluster_init dec_digits rid"
  have "cluster_run Debug UNIV dec_digits rid 0 c" unfolding c_def by (rule cluster_run.start)
  moreover have "inj dec_digits" by (simp add: inj_def)
  moreover have "\<forall>i. i \<noteq> 0 \<longrightarrow> rid i \<noteq> rid 0" by (simp add: rid_def)
  moreover have "nodes c 1 \<in> states c" by simp
  ultimately have "vc_get (clock (nodes c 1)) (rid 0) \<le> vc_get (clock (nodes c 0)) (rid 0)"
    using cluster_clock_accurate by blast
  then show ?thesis by (simp add: c_def cluster_init_def rid_def)
qed

end
