(* ===== verification/Settling.thy ===== *)
theory Settling
  imports ClusterProps TodoMerge
begin

section \<open>A network that is not edited any more\<close>

text \<open>
  Infinite executions. Once no browser edits the list, the steps that are left are pushes, deliveries and broken
  connections (\<open>sync_step\<close>), or nothing happens for a while. Whatever the order, the servers of a finite group stop changing after finitely many of
  them; and when every connection of a connected group delivers again and again, they stop in equal states. An
  execution is a function from the number of steps to the state of the network.
\<close>

inductive sync_step :: "(nat \<times> nat) set \<Rightarrow> cluster \<Rightarrow> cluster \<Rightarrow> bool" for peers where
  push: "(i, j) \<in> peers \<Longrightarrow> sync_step peers c (set_link i j (links c i j @ [todo_wire (nodes c i)]) c)"
| deliver: "links c i j = s # ss \<Longrightarrow>
     sync_step peers c (set_link i j ss (c\<lparr>nodes := (nodes c)(j := todo_merge (nodes c j) s)\<rparr>))"
| disconnect: "sync_step peers c (set_link i j [] c)"
| stutter: "sync_step peers c c"

lemma sync_step_cluster: "sync_step peers c c' \<Longrightarrow> c' = c \<or> cluster_step b peers c c'"
  by (induction rule: sync_step.induct) (auto intro: cluster_step.intros)

text \<open>The step in which \<open>j\<close> merges what has been in transit from \<open>i\<close> for longest.\<close>

definition delivers :: "nat \<Rightarrow> nat \<Rightarrow> cluster \<Rightarrow> cluster \<Rightarrow> bool" where
  "delivers i j c c' \<longleftrightarrow> (\<exists>s ss. links c i j = s # ss \<and>
     c' = set_link i j ss (c\<lparr>nodes := (nodes c)(j := todo_merge (nodes c j) s)\<rparr>))"

definition sync_execution :: "(nat \<times> nat) set \<Rightarrow> (nat \<Rightarrow> cluster) \<Rightarrow> bool" where
  "sync_execution peers f \<longleftrightarrow> (\<forall>k. sync_step peers (f k) (f (Suc k)))"

definition fair :: "(nat \<times> nat) set \<Rightarrow> (nat \<Rightarrow> cluster) \<Rightarrow> bool" where
  "fair E f \<longleftrightarrow> (\<forall>(i, j)\<in>E. \<forall>n. \<exists>k\<ge>n. delivers i j (f k) (f (Suc k)))"

subsection \<open>What a group of servers holds stays below a bound\<close>

abbreviation todo_le :: "todo_state \<Rightarrow> todo_state \<Rightarrow> bool" where
  "todo_le \<equiv> merge_le todo_same todo_merge"

lemma todo_le_view:
  "todo_agrees L t \<Longrightarrow> todo_le s t \<longleftrightarrow> todo_join (todo_view s) (todo_view t) = todo_view t"
  by (simp add: merge_le_def todo_same_view todo_view_merge)

lemma todo_agrees_wire [simp]: "todo_agrees L (todo_wire s) = todo_agrees L s"
  by (simp add: todo_agrees_def todo_wire_def)

definition group_below :: "labels \<Rightarrow> nat set \<Rightarrow> todo_state \<Rightarrow> cluster \<Rightarrow> bool" where
  "group_below L V u c \<longleftrightarrow>
     (\<forall>j\<in>V. todo_agrees L (nodes c j) \<and> todo_le (nodes c j) u) \<and>
     (\<forall>i j. \<forall>s\<in>set (links c i j). i \<in> V \<and> j \<in> V \<and> todo_agrees L s \<and> todo_le s u)"

lemma links_set_link [simp]:
  "links (set_link i j ss c) k l = (if k = i \<and> l = j then ss else links c k l)"
  by (simp add: set_link_def)

lemma group_below_step:
  assumes step: "sync_step peers c c'" and u: "todo_agrees L u" and peers: "peers \<subseteq> V \<times> V"
    and below: "group_below L V u c"
  shows "group_below L V u c'"
  using step
proof cases
  case (push i j)
  have "i \<in> V" "j \<in> V" using push(2) peers by auto
  then show ?thesis
    using below u by (auto simp: push(1) group_below_def todo_le_view split: if_splits)
next
  case (deliver i j s ss)
  then have s: "j \<in> V" "todo_agrees L s" "todo_le s u"
    using below unfolding group_below_def by (metis list.set_intros(1))+
  have "todo_agrees L (nodes c j)" "todo_le (nodes c j) u"
    using below s(1) by (auto simp: group_below_def)
  then have "todo_agrees L (todo_merge (nodes c j) s)" "todo_le (todo_merge (nodes c j) s) u"
    using s u by (auto intro: todo_agrees_merge todo.merge_least [of L])
  moreover have "\<forall>x\<in>set ss. i \<in> V \<and> j \<in> V \<and> todo_agrees L x \<and> todo_le x u"
    using below deliver(2) unfolding group_below_def by (metis list.set_intros(2))
  ultimately show ?thesis
    using below unfolding deliver(1) group_below_def by (simp split: if_splits)
next
  case (disconnect i j)
  then show ?thesis using below by (auto simp: group_below_def split: if_splits)
qed (use below in simp)

lemma cluster_run_links:
  "cluster_run b peers name rid n c \<Longrightarrow> links c i j \<noteq> [] \<Longrightarrow> (i, j) \<in> peers"
proof (induction rule: cluster_run.induct)
  case start
  then show ?case by (simp add: cluster_init_def)
next
  case (step n c c')
  from step.hyps(2) show ?case
    using step.IH step.prems by cases (auto split: if_splits)
qed

text \<open>In a reachable state of the network everything in a finite group is below some state.\<close>

lemma cluster_run_below:
  assumes "cluster_run b peers name rid n c" "inj name" "b = Debug \<or> n < 2 ^ 64"
    and "finite V" "peers \<subseteq> V \<times> V"
  obtains L u where "todo_agrees L u" "group_below L V u c" "\<forall>s\<in>states c. todo_wf s"
proof -
  obtain L where L: "\<And>s. s \<in> states c \<Longrightarrow> todo_agrees L s" "\<And>s. s \<in> states c \<Longrightarrow> todo_wf s"
    using cluster_run_consistent [OF assms(1-3)] by metis
  have inside: "i \<in> V \<and> j \<in> V" if "s \<in> set (links c i j)" for s i j
  proof -
    have "(i, j) \<in> peers" using that by (intro cluster_run_links [OF assms(1)]) auto
    then show ?thesis using assms(5) by blast
  qed
  let ?S = "nodes c ` V \<union> (\<Union>i\<in>V. \<Union>j\<in>V. set (links c i j))"
  have "finite ?S" using assms(4) by simp
  from finite_list [OF this] obtain xs where xs: "set xs = ?S" by (rule exE)
  have sub: "?S \<subseteq> states c" using link_in_states by auto
  define u where "u = absorb todo_merge (nodes c 0) xs"
  have "\<forall>x\<in>set xs. todo_agrees L x" using sub L(1) unfolding xs by blast
  then have "is_join (todo_agrees L) todo_same todo_merge (insert (nodes c 0) (set xs)) u"
    unfolding u_def by (intro todo.absorb_join L(1)) simp_all
  then have u: "todo_agrees L u" "\<forall>x\<in>?S. todo_le x u" by (auto simp: is_join_def xs)
  have "i \<in> V \<and> j \<in> V \<and> todo_agrees L s \<and> todo_le s u" if s: "s \<in> set (links c i j)" for i j s
    using inside [OF s] u(2) L(1) [OF link_in_states [OF s]] s by blast
  then have "group_below L V u c"
    using u(2) L(1) [OF nodes_in_states] by (simp add: group_below_def)
  moreover have "\<forall>s\<in>states c. todo_wf s" using L(2) by blast
  ultimately show ?thesis by (rule that [OF u(1)])
qed

subsection \<open>The servers stop changing\<close>

definition group_extent :: "nat set \<Rightarrow> cluster \<Rightarrow> nat" where
  "group_extent V c = (\<Sum>j\<in>V. todo_extent (nodes c j))"

lemma todo_extent_merge:
  assumes "todo_agrees L s" "todo_agrees L t"
  shows "todo_extent s \<le> todo_extent (todo_merge s t)"
    and "todo_extent (todo_merge s t) = todo_extent s \<Longrightarrow> todo_same (todo_merge s t) s"
  using assms todo_sized.extent_merge todo_sized.extent_grows by (blast, fastforce)

lemma group_extent_step:
  assumes step: "sync_step peers c c'" and below: "group_below L V u c" and fin: "finite V"
  shows "group_extent V c \<le> group_extent V c'"
    and "group_extent V c' = group_extent V c \<Longrightarrow> todo_same (nodes c' j) (nodes c j)"
proof -
  have "group_extent V c \<le> group_extent V c' \<and>
    (group_extent V c' = group_extent V c \<longrightarrow> (\<forall>j. todo_same (nodes c' j) (nodes c j)))"
    using step
  proof cases
    case (deliver i j s ss)
    let ?m = "todo_merge (nodes c j) s"
    have "j \<in> V" "todo_agrees L s" "todo_agrees L (nodes c j)"
      using below deliver(2) unfolding group_below_def by (metis list.set_intros(1))+
    moreover have "group_extent V c' = todo_extent ?m + (\<Sum>k\<in>V - {j}. todo_extent (nodes c k))"
      using fin \<open>j \<in> V\<close> by (simp add: deliver(1) group_extent_def sum.remove [of V j])
    moreover have "group_extent V c = todo_extent (nodes c j) + (\<Sum>k\<in>V - {j}. todo_extent (nodes c k))"
      using fin \<open>j \<in> V\<close> by (simp add: group_extent_def sum.remove [of V j])
    ultimately show ?thesis
      using todo_extent_merge [of L "nodes c j" s] by (auto simp: deliver(1) todo_same_view)
  qed (simp_all add: group_extent_def todo_same_view)
  then show "group_extent V c \<le> group_extent V c'"
    "group_extent V c' = group_extent V c \<Longrightarrow> todo_same (nodes c' j) (nodes c j)" by blast+
qed

lemma group_extent_bound:
  assumes "group_below L V u c" "todo_agrees L u"
  shows "group_extent V c \<le> card V * todo_extent u"
  unfolding group_extent_def
  using assms by (intro sum_bounded_above [where 'a = nat, simplified])
    (auto simp: group_below_def intro: todo_sized.extent_mono)

text \<open>A nondecreasing bounded sequence of numbers is constant from some point on.\<close>

lemma eventually_constant:
  fixes g :: "nat \<Rightarrow> nat"
  assumes "\<And>k. g k \<le> g (Suc k)" "\<And>k. g k \<le> m"
  obtains N where "\<And>k. N \<le> k \<Longrightarrow> g k = g N"
proof -
  have "finite (range g)" using assms(2) by (auto intro: finite_subset [of _ "{..m}"])
  then have "Max (range g) \<in> range g" by (intro Max_in) auto
  then obtain N where N: "g N = Max (range g)" by auto
  have "g k = g N" if "N \<le> k" for k
    using that lift_Suc_mono_le [of g N k] assms(1) \<open>finite (range g)\<close> N
    by (metis Max_ge order_antisym rangeI)
  then show ?thesis using that by blast
qed

lemma sync_run_settles:
  assumes run: "sync_execution peers f" and fin: "finite V" and peers: "peers \<subseteq> V \<times> V"
    and u: "todo_agrees L u" and below: "group_below L V u (f 0)"
  obtains N where "\<forall>k\<ge>N. \<forall>j. todo_same (nodes (f k) j) (nodes (f N) j)" "\<forall>k. group_below L V u (f k)"
proof -
  have next_step: "sync_step peers (f k) (f (Suc k))" for k using run by (simp add: sync_execution_def)
  have always: "group_below L V u (f k)" for k
  proof (induction k)
    case (Suc k)
    then show ?case by (rule group_below_step [OF next_step u peers])
  qed (rule below)
  define g where "g k = group_extent V (f k)" for k
  have "g k \<le> g (Suc k)" "g k \<le> card V * todo_extent u" for k
    unfolding g_def using group_extent_step(1) [OF next_step always fin] group_extent_bound [OF always u] .
  then obtain N where N: "\<And>k. N \<le> k \<Longrightarrow> g k = g N" using eventually_constant by blast
  have "todo_same (nodes (f k) j) (nodes (f N) j)" if "N \<le> k" for k j
    using that
  proof (induction k rule: dec_induct)
    case (step k)
    then have "todo_same (nodes (f (Suc k)) j) (nodes (f k) j)"
      using N [of k] N [of "Suc k"] by (intro group_extent_step(2) [OF next_step always fin]) (simp add: g_def)
    with step.IH show ?case by (simp add: todo_same_view)
  qed (simp add: todo_same_view)
  then show ?thesis using always by (intro that) blast+
qed

subsection \<open>What is in transit becomes news\<close>

text \<open>All but the oldest \<open>d\<close> states in transit from \<open>i\<close> to \<open>j\<close> have the contents \<open>v\<close>.\<close>

definition news :: "nat \<Rightarrow> nat \<Rightarrow> todo_view \<Rightarrow> nat \<Rightarrow> cluster \<Rightarrow> bool" where
  "news i j v d c \<longleftrightarrow> (\<forall>s\<in>set (drop d (links c i j)). todo_view s = v)"

lemma news_deliver: "delivers i j c c' \<Longrightarrow> news i j v d c \<Longrightarrow> news i j v (d - 1) c'"
  by (cases d) (auto simp: delivers_def news_def)

lemma news_step:
  assumes "sync_step peers c c'" "todo_view (nodes c i) = v" "news i j v d c"
  shows "news i j v d c'"
  using assms(1)
proof cases
  case (push k l)
  then show ?thesis
    using assms(2,3) by (auto simp: news_def dest!: in_set_dropD [of _ "d - length (links c k l)"])
next
  case (deliver k l s ss)
  have "set (drop d ss) \<subseteq> set (drop d (s # ss))" by (cases d) (auto dest: in_set_dropD intro: set_drop_subset_set_drop [THEN subsetD, rotated])
  then show ?thesis using assms(3) deliver by (auto simp: news_def)
next
  case (disconnect k l)
  then show ?thesis using assms(3) by (auto simp: news_def)
qed (use assms(3) in simp)

lemma news_keep:
  assumes run: "sync_execution peers f" and still: "\<And>k. N \<le> k \<Longrightarrow> todo_view (nodes (f k) i) = v"
    and "N \<le> n" and news: "news i j v d (f n)"
  shows "n \<le> k \<Longrightarrow> news i j v d (f k)"
proof (induction k rule: dec_induct)
  case (step k)
  have "sync_step peers (f k) (f (Suc k))" using run by (simp add: sync_execution_def)
  moreover have "todo_view (nodes (f k) i) = v" using assms(3) step.hyps by (intro still) simp
  ultimately show ?case using step.IH by (rule news_step)
qed (rule news)

lemma sync_run_news:
  assumes run: "sync_execution peers f" and fair: "\<And>n. \<exists>k\<ge>n. delivers i j (f k) (f (Suc k))"
    and still: "\<And>k. N \<le> k \<Longrightarrow> todo_view (nodes (f k) i) = v"
  shows "N \<le> n \<Longrightarrow> news i j v d (f n) \<Longrightarrow> \<exists>k\<ge>n. news i j v 0 (f k)"
proof (induction d arbitrary: n)
  case (Suc d)
  obtain k where k: "n \<le> k" "delivers i j (f k) (f (Suc k))" using fair by blast
  have "news i j v (Suc d) (f k)" using run still Suc.prems k(1) by (rule news_keep)
  from news_deliver [OF k(2) this] have "news i j v d (f (Suc k))" by simp
  moreover have "N \<le> Suc k" "n \<le> Suc k" using k(1) Suc.prems(1) by simp_all
  ultimately show ?case using Suc.IH [of "Suc k"] by (meson order_trans)
qed auto

text \<open>Where a connection keeps delivering, the receiver of settled servers knows all that the sender knows.\<close>

lemma fair_link_le:
  assumes run: "sync_execution peers f" and fair: "\<And>n. \<exists>k\<ge>n. delivers i j (f k) (f (Suc k))"
    and still: "\<And>k j. N \<le> k \<Longrightarrow> todo_same (nodes (f k) j) (nodes (f N) j)"
    and below: "\<And>k. group_below L V u (f k)"
  shows "i \<in> V \<and> j \<in> V \<and> todo_le (nodes (f N) i) (nodes (f N) j)"
proof -
  let ?v = "todo_view (nodes (f N) i)" and ?w = "todo_view (nodes (f N) j)"
  have views: "todo_view (nodes (f k) l) = todo_view (nodes (f N) l)" if "N \<le> k" for k l
    using still [OF that, of l] by (simp add: todo_same_view)
  have "news i j ?v (length (links (f N) i j)) (f N)" by (simp add: news_def)
  with run fair views order_refl have "\<exists>m\<ge>N. news i j ?v 0 (f m)" by (rule sync_run_news)
  then obtain m where m: "N \<le> m" "news i j ?v 0 (f m)" by blast
  obtain k where k: "m \<le> k" "delivers i j (f k) (f (Suc k))" using fair by blast
  have "news i j ?v 0 (f k)" using run views m k(1) by (rule news_keep)
  moreover obtain s ss where s: "links (f k) i j = s # ss"
    "nodes (f (Suc k)) j = todo_merge (nodes (f k) j) s"
    using k(2) by (auto simp: delivers_def)
  ultimately have sv: "todo_view s = ?v" by (simp add: news_def)
  have here: "i \<in> V" "j \<in> V" "todo_agrees L s"
    using below [of k] s(1) unfolding group_below_def by (metis list.set_intros(1))+
  have agree: "todo_agrees L (nodes (f k) l)" if "l \<in> V" for k l
    using below [of k] that by (simp add: group_below_def)
  have "todo_join ?w ?v = ?w"
    using todo_view_merge [OF here(3), of "nodes (f k) j"] s(2) sv views [of k j] views [of "Suc k" j] k(1) m(1)
    by simp
  then have "todo_join ?v ?w = ?w" using todo_join_comm [OF agree agree] here by metis
  then show ?thesis using here todo_le_view [OF agree] by blast
qed

lemma sync_run_wf:
  assumes "sync_execution peers f" "\<forall>s\<in>states (f 0). todo_wf s"
  shows "todo_wf (nodes (f k) j)"
proof -
  have "\<forall>s\<in>states (f k). todo_wf s"
  proof (induction k)
    case (Suc k)
    then show ?case
      using assms(1) sync_step_cluster [of peers "f k" "f (Suc k)" Debug] cluster_step_wf [of Debug peers "f k"]
      unfolding sync_execution_def by metis
  qed (rule assms(2))
  then show ?thesis by simp
qed

lemma settling:
  assumes run: "cluster_run b peers name rid n (f 0)" "inj name" "b = Debug \<or> n < 2 ^ 64"
    and group: "finite V" "peers \<subseteq> V \<times> V" and execution: "sync_execution peers f"
  shows "\<exists>N. \<forall>k\<ge>N. \<forall>j. todo_same (nodes (f k) j) (nodes (f N) j) \<and>
    snapshot_todos (nodes (f k) j) = snapshot_todos (nodes (f N) j)"
proof -
  obtain L u where u: "todo_agrees L u" "group_below L V u (f 0)" and wf: "\<forall>s\<in>states (f 0). todo_wf s"
    by (rule cluster_run_below [OF run group])
  obtain N where settled: "\<forall>k\<ge>N. \<forall>j. todo_same (nodes (f k) j) (nodes (f N) j)"
    and "\<forall>k. group_below L V u (f k)" by (rule sync_run_settles [OF execution group u])
  have "snapshot_todos (nodes (f k) j) = snapshot_todos (nodes (f N) j)" if "N \<le> k" for k j
    using that by (intro snapshot_same [OF sync_run_wf [OF execution wf]] settled [rule_format])
  with settled show ?thesis by blast
qed

lemma converging:
  assumes run: "cluster_run b peers name rid n (f 0)" "inj name" "b = Debug \<or> n < 2 ^ 64"
    and group: "finite V" "peers \<subseteq> V \<times> V" and execution: "sync_execution peers f"
    and fair: "fair E f" and connected: "V \<times> V \<subseteq> E\<^sup>*"
  shows "\<exists>N. \<forall>k\<ge>N. \<forall>i\<in>V. \<forall>j\<in>V. todo_same (nodes (f k) i) (nodes (f k) j) \<and>
    snapshot_todos (nodes (f k) i) = snapshot_todos (nodes (f k) j)"
proof -
  obtain L u where u: "todo_agrees L u" "group_below L V u (f 0)" and wf: "\<forall>s\<in>states (f 0). todo_wf s"
    by (rule cluster_run_below [OF run group])
  obtain N where settled: "\<forall>k\<ge>N. \<forall>j. todo_same (nodes (f k) j) (nodes (f N) j)"
    and always: "\<forall>k. group_below L V u (f k)"
    by (rule sync_run_settles [OF execution group u])
  note N = settled [rule_format] and below = always [rule_format]
  have agree: "todo_agrees L (nodes (f N) i)" if "i \<in> V" for i
    using below [of N] that by (simp add: group_below_def)
  have edge: "i \<in> V \<and> j \<in> V \<and> todo_le (nodes (f N) i) (nodes (f N) j)" if "(i, j) \<in> E" for i j
    using fair that by (intro fair_link_le [OF execution _ N below]) (auto simp: fair_def)
  have le: "todo_le (nodes (f N) i) (nodes (f N) j)" if "i \<in> V" "(i, j) \<in> E\<^sup>*" for i j
    using that(2)
  proof (induction rule: rtrancl_induct)
    case base
    show ?case using agree [OF that(1)] by (rule todo.le_refl)
  next
    case (step j k)
    then show ?case
      using edge [OF step.hyps(2)] agree that(1) todo.le_trans [of L] by blast
  qed
  have same: "todo_same (nodes (f k) i) (nodes (f k) j)" if "N \<le> k" "i \<in> V" "j \<in> V" for k i j
  proof -
    have "todo_same (nodes (f N) i) (nodes (f N) j)"
      using that connected by (intro todo.le_antisym [of L] agree le) auto
    then show ?thesis using N [OF that(1), of i] N [OF that(1), of j] by (simp add: todo_same_view)
  qed
  moreover have "snapshot_todos (nodes (f k) i) = snapshot_todos (nodes (f k) j)"
    if "N \<le> k" "i \<in> V" "j \<in> V" for k i j
    using that by (intro snapshot_same [OF sync_run_wf [OF execution wf]] same)
  ultimately show ?thesis by blast
qed

subsection \<open>Properties\<close>

text \<open>C10. The exchange of states comes to an end. In any infinite execution without edits of a finite group of servers,
  started in any reachable state and whatever is pushed, delivered or lost in whichever order, there is a moment after
  which no server's replicated state and no list shown to a browser ever changes again.\<close>

theorem network_settles:
  assumes run: "cluster_run b peers name rid n (f 0)" "inj name" "b = Debug \<or> n < 2 ^ 64"
    and group: "finite V" "peers \<subseteq> V \<times> V" and execution: "sync_execution peers f"
  shows "\<exists>N. \<forall>k\<ge>N. \<forall>j. todo_same (nodes (f k) j) (nodes (f N) j) \<and>
    snapshot_todos (nodes (f k) j) = snapshot_todos (nodes (f N) j)"
  using assms by (rule settling)

text \<open>For the witnesses: the servers 0 and 1 take turns, each pushing to the other, which merges at once.\<close>

definition turn :: "nat \<Rightarrow> nat \<times> nat" where
  "turn k = (if k mod 4 < 2 then (0, 1) else (1, 0))"

fun turns :: "nat \<Rightarrow> cluster" where
  "turns 0 = first_edit"
| "turns (Suc k) =
     (let c = turns k; (i, j) = turn k
      in case links c i j of
           [] \<Rightarrow> set_link i j [todo_wire (nodes c i)] c
         | s # ss \<Rightarrow> set_link i j ss (c\<lparr>nodes := (nodes c)(j := todo_merge (nodes c j) s)\<rparr>))"

lemma turns_links:
  "length (links (turns k) i j) = (if odd k \<and> (i, j) = turn k then 1 else 0)"
proof (induction k arbitrary: i j)
  case 0
  show ?case by (simp add: first_edit_def Let_def cluster_init_def)
next
  case (Suc k)
  obtain a d where t: "turn k = (a, d)" by (cases "turn k")
  show ?case
  proof (cases "even k")
    case True
    then have "turn (Suc k) = turn k" by (auto simp: turn_def) presburger+
    moreover have "links (turns k) a d = []" using Suc [of a d] True by simp
    ultimately show ?thesis using Suc [of i j] True t by (auto simp: Let_def)
  next
    case False
    then have "length (links (turns k) a d) = 1" using Suc [of a d] t by simp
    then obtain s where "links (turns k) a d = [s]" by (auto simp: length_Suc_conv)
    then show ?thesis using Suc [of i j] False t by (auto simp: Let_def)
  qed
qed

lemma turns_run: "sync_execution {(0, 1), (1, 0)} turns"
  unfolding sync_execution_def
proof
  fix k
  obtain i j where t: "turn k = (i, j)" by (cases "turn k")
  then have peer: "(i, j) \<in> {(0, 1), (1, 0)}" by (auto simp: turn_def split: if_splits)
  show "sync_step {(0, 1), (1, 0)} (turns k) (turns (Suc k))"
  proof (cases "links (turns k) i j")
    case Nil
    then show ?thesis using sync_step.push [OF peer, of "turns k"] t by (simp add: Let_def)
  next
    case (Cons s ss)
    then show ?thesis using sync_step.deliver [OF Cons] t by (simp add: Let_def)
  qed
qed

lemma turns_fair: "fair {(0, 1), (1, 0)} turns"
proof -
  have deliver: "delivers i j (turns k) (turns (Suc k))" if "odd k" "turn k = (i, j)" for i j k
  proof -
    have "length (links (turns k) i j) = 1" using turns_links [of k i j] that by simp
    then obtain s where "links (turns k) i j = [s]" by (auto simp: length_Suc_conv)
    then show ?thesis using that by (simp add: delivers_def Let_def)
  qed
  have "delivers 0 1 (turns (4 * n + 1)) (turns (Suc (4 * n + 1)))" for n
    by (rule deliver) (simp_all add: turn_def mod_simps)
  then have "\<exists>k\<ge>n. delivers 0 1 (turns k) (turns (Suc k))" for n
    by (intro exI [of _ "4 * n + 1"] conjI) simp_all
  moreover have "delivers 1 0 (turns (4 * n + 3)) (turns (Suc (4 * n + 3)))" for n
    by (rule deliver) (simp_all add: turn_def mod_simps)
  then have "\<exists>k\<ge>n. delivers 1 0 (turns k) (turns (Suc k))" for n
    by (intro exI [of _ "4 * n + 3"] conjI) simp_all
  ultimately show ?thesis unfolding fair_def by simp
qed

lemma turns_start:
  "cluster_run Debug {(0, 1), (1, 0)} dec_digits of_nat 1 (turns 0)" "inj dec_digits"
  "Debug = Debug \<or> (1 :: nat) < 2 ^ 64" "finite {0, 1 :: nat}" "{(0, 1), (1, 0)} \<subseteq> {0, 1} \<times> {0, 1 :: nat}"
  using first_edit_run by simp_all

theorem network_settles_witness:
  "\<exists>N. \<forall>j. todo_same (nodes (turns (Suc N)) j) (nodes (turns N) j)"
  using network_settles [OF turns_start turns_run] le_SucI [OF order_refl] by blast

text \<open>C9. Eventual consistency. If moreover the connections of a set \<open>E\<close> that connects the whole group each deliver again and
  again, the servers of the group all hold equal replicated state and show the same list from some moment on.\<close>

theorem fair_run_converges:
  assumes run: "cluster_run b peers name rid n (f 0)" "inj name" "b = Debug \<or> n < 2 ^ 64"
    and group: "finite V" "peers \<subseteq> V \<times> V" and execution: "sync_execution peers f"
    and fair: "fair E f" and connected: "V \<times> V \<subseteq> E\<^sup>*"
  shows "\<exists>N. \<forall>k\<ge>N. \<forall>i\<in>V. \<forall>j\<in>V. todo_same (nodes (f k) i) (nodes (f k) j) \<and>
    snapshot_todos (nodes (f k) i) = snapshot_todos (nodes (f k) j)"
  using assms by (rule converging)

theorem fair_run_converges_witness:
  "\<exists>k. todo_same (nodes (turns k) 0) (nodes (turns k) 1)"
proof -
  have "{0, 1} \<times> {0, 1} \<subseteq> {(0, 1), (1, 0 :: nat)}\<^sup>*" by auto
  from fair_run_converges [OF turns_start turns_run turns_fair this] show ?thesis by blast
qed

end
