(* ===== verification/Restarts.thy ===== *)
theory Restarts
  imports ClusterProps TodoMerge
begin

section \<open>A network whose servers restart\<close>

text \<open>
  The state of a server lives in memory: \<^verbatim>\<open>main\<close> starts every time from \<^verbatim>\<open>TodoState::new\<close>. \<open>restart_step\<close>
  adds that step to those of the network. \<open>TodoProps.restart_diverges\<close> shows what it costs: an identifier can be handed
  out twice, with two texts that never agree again. Here is what it does not cost: the invariant of the states, and the
  convergence of everything but the texts and creators of items, with no hypothesis on names or counters.
\<close>

inductive restart_step ::
  "build \<Rightarrow> (nat \<times> nat) set \<Rightarrow> (nat \<Rightarrow> rust_string) \<Rightarrow> (nat \<Rightarrow> replica_id) \<Rightarrow> cluster \<Rightarrow> cluster \<Rightarrow> bool"
  for b peers name rid where
  network: "cluster_step b peers c c' \<Longrightarrow> restart_step b peers name rid c c'"
| restart: "restart_step b peers name rid c (c\<lparr>nodes := (nodes c)(i := todo_new (name i) (rid i))\<rparr>)"

lemma restart_step_wf:
  "restart_step b peers name rid c c' \<Longrightarrow> \<forall>s\<in>states c. todo_wf s \<Longrightarrow> \<forall>s\<in>states c'. todo_wf s"
proof (induction rule: restart_step.induct)
  case (restart c i)
  then show ?case
    using states_set_node [of c i "todo_new (name i) (rid i)"] by (auto simp: todo_wf_new)
qed (rule cluster_step_wf)

lemma restarts_wf:
  "(restart_step b peers name rid)\<^sup>*\<^sup>* (cluster_init name rid) c \<Longrightarrow> \<forall>s\<in>states c. todo_wf s"
proof (induction rule: rtranclp_induct)
  case base
  show ?case by (auto simp: states_init todo_wf_new)
qed (rule restart_step_wf)

text \<open>C11. Servers may crash and restart empty, at any time and as often as they like, and may even share a name. In every
  state the network can then reach, every copy of the list is well-formed; and rounds of pushes between servers that
  are connected by them still make all of these servers list the same identifiers with the same completed flags, and have
  the same sets of added and removed identifiers and the same clock.\<close>

theorem restarts_converge:
  assumes run: "(restart_step b peers name rid)\<^sup>*\<^sup>* (cluster_init name rid) c"
    and es: "set es \<subseteq> peers" "\<forall>(i, j)\<in>set es. i \<in> V" "\<forall>i\<in>V. \<forall>j\<in>V. \<exists>k\<le>r. (i, j) \<in> set es ^^ k"
  shows "(\<forall>s\<in>states c. todo_wf s) \<and>
    (\<exists>c'. (cluster_step b peers ^^ (3 * (r * length es))) c c' \<and>
       (\<forall>i\<in>V. \<forall>j\<in>V. todo_core (nodes c' i) = todo_core (nodes c' j) \<and>
          shown_flags (nodes c' i) = shown_flags (nodes c' j)))"
proof -
  let ?es = "rounds r es"
  have wf: "\<forall>s\<in>states c. todo_wf s" using run by (rule restarts_wf)
  have "set ?es \<subseteq> peers" using es(1) set_rounds by fastforce
  from gossip_steps [OF this, of b c] obtain c'
    where steps: "(cluster_step b peers ^^ (3 * (r * length es))) c c'"
      and nodes: "nodes c' = gossip todo_merge ?es (nodes c)" by auto
  have heard: "heard ?es (\<lambda>n. {n}) j = V" if "j \<in> V" for j
    using es(2,3) that by (rule heard_all)
  have core: "todo_core (nodes c' i) = todo_core (nodes c' j)" if "i \<in> V" "j \<in> V" for i j
    unfolding nodes using heard that by (intro todo_core.gossip_converge) simp_all
  have "todo_wf (nodes c' i)" for i unfolding nodes using wf by (intro gossip_wf) auto
  then have "shown_flags (nodes c' i) = shown_flags (nodes c' j)" if "i \<in> V" "j \<in> V" for i j
    using core [OF that] by (intro shown_flags_core)
  then show ?thesis using wf steps core by blast
qed

text \<open>The first server adds an item and restarts before it has told anybody.\<close>

theorem restarts_converge_witness:
  "\<exists>c c'. (restart_step Debug UNIV dec_digits of_nat)\<^sup>*\<^sup>* (cluster_init dec_digits of_nat) c \<and>
     nodes c 0 = todo_new (dec_digits 0) 0 \<and> (cluster_step Debug UNIV ^^ 6) c c' \<and>
     shown_flags (nodes c' 0) = shown_flags (nodes c' 1)"
proof -
  let ?c = "first_edit\<lparr>nodes := (nodes first_edit)(0 := todo_new (dec_digits 0) (of_nat 0))\<rparr>"
  let ?es = "[(0, 1), (1, 0)] :: (nat \<times> nat) list"
  have "cluster_step Debug UNIV (cluster_init dec_digits of_nat) first_edit"
    unfolding first_edit_def Let_def by (rule cluster_step.client)
  then have "(restart_step Debug UNIV dec_digits of_nat)\<^sup>*\<^sup>* (cluster_init dec_digits of_nat) first_edit"
    by (intro r_into_rtranclp restart_step.network)
  then have run: "(restart_step Debug UNIV dec_digits of_nat)\<^sup>*\<^sup>* (cluster_init dec_digits of_nat) ?c"
    by (rule rtranclp.rtrancl_into_rtrancl) (rule restart_step.restart)
  have "\<exists>k\<le>1. (i, j) \<in> set ?es ^^ k" if "i \<in> {0, 1}" "j \<in> {0, 1}" for i j
    using that by (cases "i = j") (auto intro: exI [of _ 0] exI [of _ 1])
  then have conn: "\<forall>i\<in>{0, 1}. \<forall>j\<in>{0, 1}. \<exists>k\<le>1. (i, j) \<in> set ?es ^^ k" by blast
  have "\<forall>(i, j)\<in>set ?es. i \<in> {0, 1}" by simp
  from restarts_converge [OF run subset_UNIV this conn] obtain c'
    where c': "(cluster_step Debug UNIV ^^ (3 * (1 * length ?es))) ?c c'"
      and same: "\<forall>i\<in>{0, 1}. \<forall>j\<in>{0, 1}. todo_core (nodes c' i) = todo_core (nodes c' j) \<and>
        shown_flags (nodes c' i) = shown_flags (nodes c' j)" by blast
  have "(cluster_step Debug UNIV ^^ 6) ?c c'" using c' by simp
  moreover have "nodes ?c 0 = todo_new (dec_digits 0) 0" by simp
  moreover have "shown_flags (nodes c' 0) = shown_flags (nodes c' 1)" using same by blast
  ultimately show ?thesis using run by blast
qed

end
