(* ===== verification/SocketAddr.thy ===== *)
theory SocketAddr
  imports Prelude
begin

section \<open>Socket addresses of the standard library\<close>

text \<open>
  \<^verbatim>\<open>SocketAddr\<close> and its \<^verbatim>\<open>FromStr\<close>, which reads the peers of the configuration: the parser of
  \<^verbatim>\<open>core::net\<close>, for IPv4 addresses and for bracketed IPv6 addresses with their compressed and mixed forms
  and an optional numeric scope. Every reader takes the rest of the input and returns what it read and the new
  rest, or \<open>None\<close>, in which case the input is as before. The lemmas give the round trips with the usual
  ways to write an address.
\<close>

text \<open>The four octets and the port; the eight groups, the port, the flow information and the scope.\<close>

datatype socket_addr = SocketV4 "nat list" u16 | SocketV6 "nat list" u16 "32 word" "32 word"

subsection \<open>Numbers in a radix\<close>

text \<open>\<^verbatim>\<open>char::to_digit\<close>, for radices up to 16 (all that the parser uses).\<close>

definition digit_value :: "nat \<Rightarrow> nat \<Rightarrow> nat option" where
  "digit_value radix c =
     (let v = (if 48 \<le> c \<and> c \<le> 57 then c - 48
               else if 97 \<le> c \<and> c \<le> 102 then c - 87
               else if 65 \<le> c \<and> c \<le> 70 then c - 55 else 16)
      in if v < radix \<and> v < 16 then Some v else None)"

definition is_digit :: "nat \<Rightarrow> nat \<Rightarrow> bool" where
  "is_digit radix c \<longleftrightarrow> digit_value radix c \<noteq> None"

definition number_of :: "nat \<Rightarrow> rust_string \<Rightarrow> nat" where
  "number_of radix ds = foldl (\<lambda>a c. a * radix + the (digit_value radix c)) 0 ds"

text \<open>\<^verbatim>\<open>read_number\<close>: the leading digits, at least one and, with \<open>max_digits\<close>, no more than that many, no
  superfluous leading zero unless allowed, and a value that fits its type.\<close>

definition read_number ::
  "nat \<Rightarrow> nat \<Rightarrow> nat option \<Rightarrow> bool \<Rightarrow> rust_string \<Rightarrow> (nat \<times> rust_string) option" where
  "read_number radix mx max_digits zero_prefix s =
     (let ds = takeWhile (is_digit radix) s
      in if ds = [] \<or> (case max_digits of None \<Rightarrow> False | Some k \<Rightarrow> k < length ds) \<or>
            (\<not> zero_prefix \<and> hd ds = 48 \<and> 1 < length ds) \<or> mx < number_of radix ds then None
         else Some (number_of radix ds, dropWhile (is_digit radix) s))"

text \<open>\<^verbatim>\<open>read_given_char\<close> and \<^verbatim>\<open>read_separator\<close>: a separator is read before every element but the first.\<close>

fun read_char :: "nat \<Rightarrow> rust_string \<Rightarrow> rust_string option" where
  "read_char c [] = None"
| "read_char c (d # s) = (if c = d then Some s else None)"

definition read_separator ::
  "nat \<Rightarrow> nat \<Rightarrow> (rust_string \<Rightarrow> ('a \<times> rust_string) option) \<Rightarrow> rust_string \<Rightarrow> ('a \<times> rust_string) option" where
  "read_separator sep i inner s =
     (if i = 0 then inner s else case read_char sep s of None \<Rightarrow> None | Some s' \<Rightarrow> inner s')"

subsection \<open>IPv4\<close>

fun read_octets :: "nat \<Rightarrow> nat \<Rightarrow> rust_string \<Rightarrow> (nat list \<times> rust_string) option" where
  "read_octets i 0 s = Some ([], s)"
| "read_octets i (Suc k) s =
     (case read_separator 46 i (read_number 10 255 (Some 3) False) s of
        None \<Rightarrow> None
      | Some (v, s') \<Rightarrow> map_option (apfst ((#) v)) (read_octets (Suc i) k s'))"

definition read_v4 :: "rust_string \<Rightarrow> (nat list \<times> rust_string) option" where
  "read_v4 = read_octets 0 4"

text \<open>\<^verbatim>\<open>read_port\<close>\<close>

definition read_port :: "rust_string \<Rightarrow> (nat \<times> rust_string) option" where
  "read_port s = (case read_char 58 s of None \<Rightarrow> None | Some s' \<Rightarrow> read_number 10 65535 None True s')"

definition read_socket_v4 :: "rust_string \<Rightarrow> (socket_addr \<times> rust_string) option" where
  "read_socket_v4 s =
     (case read_v4 s of
        None \<Rightarrow> None
      | Some (os, s') \<Rightarrow>
          (case read_port s' of None \<Rightarrow> None | Some (p, rest) \<Rightarrow> Some (SocketV4 os (of_nat p), rest)))"

subsection \<open>IPv6\<close>

text \<open>
  \<^verbatim>\<open>read_groups\<close>: up to \<open>i + r\<close> groups of four hexadecimal digits, of which \<open>i\<close> have been read; the last two may
  be written as an IPv4 address, which the flag reports.
\<close>

fun read_groups :: "nat \<Rightarrow> nat \<Rightarrow> rust_string \<Rightarrow> nat list \<times> bool \<times> rust_string" where
  "read_groups i 0 s = ([], False, s)"
| "read_groups i (Suc r) s =
     (case (if 0 < r then read_separator 58 i read_v4 s else None) of
        Some (os, s') \<Rightarrow> ([os ! 0 * 256 + os ! 1, os ! 2 * 256 + os ! 3], True, s')
      | None \<Rightarrow>
          (case read_separator 58 i (read_number 16 65535 (Some 4) True) s of
             None \<Rightarrow> ([], False, s)
           | Some (g, s') \<Rightarrow> (case read_groups (Suc i) r s' of (gs, v4, rest) \<Rightarrow> (g # gs, v4, rest))))"

definition read_v6 :: "rust_string \<Rightarrow> (nat list \<times> rust_string) option" where
  "read_v6 s =
     (case read_groups 0 8 s of
        (head, head_v4, s1) \<Rightarrow>
          if length head = 8 then Some (head, s1)
          else if head_v4 then None
          else
            (case read_char 58 s1 of
               None \<Rightarrow> None
             | Some s2 \<Rightarrow>
                 (case read_char 58 s2 of
                    None \<Rightarrow> None
                  | Some s3 \<Rightarrow>
                      (case read_groups 0 (8 - (length head + 1)) s3 of
                         (tail, _, s4) \<Rightarrow>
                           Some (head @ replicate (8 - length head - length tail) 0 @ tail, s4)))))"

definition read_scope_id :: "rust_string \<Rightarrow> (nat \<times> rust_string) option" where
  "read_scope_id s =
     (case read_char 37 s of None \<Rightarrow> None | Some s' \<Rightarrow> read_number 10 4294967295 None True s')"

definition read_socket_v6 :: "rust_string \<Rightarrow> (socket_addr \<times> rust_string) option" where
  "read_socket_v6 s =
     (case read_char 91 s of
        None \<Rightarrow> None
      | Some s1 \<Rightarrow>
          (case read_v6 s1 of
             None \<Rightarrow> None
           | Some (gs, s2) \<Rightarrow>
               (let (scope, s3) = (case read_scope_id s2 of None \<Rightarrow> (0, s2) | Some x \<Rightarrow> x)
                in case read_char 93 s3 of
                     None \<Rightarrow> None
                   | Some s4 \<Rightarrow>
                       (case read_port s4 of
                          None \<Rightarrow> None
                        | Some (p, rest) \<Rightarrow> Some (SocketV6 gs (of_nat p) 0 (of_nat scope), rest)))))"

text \<open>\<^verbatim>\<open>SocketAddr::from_str\<close>: the whole input has to be an address.\<close>

definition parse_socket_addr :: "rust_string \<Rightarrow> socket_addr option" where
  "parse_socket_addr s =
     (case (case read_socket_v4 s of Some x \<Rightarrow> Some x | None \<Rightarrow> read_socket_v6 s) of
        Some (a, []) \<Rightarrow> Some a
      | _ \<Rightarrow> None)"

subsection \<open>Printing numbers\<close>

definition digit_char :: "nat \<Rightarrow> nat" where
  "digit_char d = (if d < 10 then 48 + d else 87 + d)"

fun radix_digits :: "nat \<Rightarrow> nat \<Rightarrow> rust_string" where
  "radix_digits r n =
     (if r < 2 \<or> n < r then [digit_char n] else radix_digits r (n div r) @ [digit_char (n mod r)])"

declare radix_digits.simps [simp del]

lemma dec_digits_radix: "dec_digits n = radix_digits 10 n"
  by (induction n rule: dec_digits.induct)
    (subst dec_digits.simps, subst radix_digits.simps, simp add: digit_char_def)

lemma digit_value_char: "d < r \<Longrightarrow> r \<le> 16 \<Longrightarrow> digit_value r (digit_char d) = Some d"
  by (auto simp: digit_value_def digit_char_def Let_def)

lemma radix_digits_nonempty [simp]: "radix_digits r n \<noteq> []"
  by (subst radix_digits.simps) simp

lemma radix_digits_are_digits:
  "2 \<le> r \<Longrightarrow> r \<le> 16 \<Longrightarrow> c \<in> set (radix_digits r n) \<Longrightarrow> is_digit r c"
proof (induction r n rule: radix_digits.induct)
  case (1 r n)
  then show ?case
    by (subst (asm) (2) radix_digits.simps) (auto simp: is_digit_def digit_value_char split: if_splits)
qed

lemma number_of_radix: "2 \<le> r \<Longrightarrow> r \<le> 16 \<Longrightarrow> number_of r (radix_digits r n) = n"
proof (induction r n rule: radix_digits.induct)
  case (1 r n)
  show ?case
  proof (cases "n < r")
    case True
    then show ?thesis using "1.prems"
      by (subst radix_digits.simps) (simp add: number_of_def digit_value_char)
  next
    case False
    then have "number_of r (radix_digits r (n div r)) = n div r" using 1 by simp
    then show ?thesis using False "1.prems"
      by (subst radix_digits.simps) (simp add: number_of_def digit_value_char)
  qed
qed

lemma radix_digits_length: "2 \<le> r \<Longrightarrow> 0 < k \<Longrightarrow> n < r ^ k \<Longrightarrow> length (radix_digits r n) \<le> k"
proof (induction r n arbitrary: k rule: radix_digits.induct)
  case (1 r n)
  show ?case
  proof (cases "n < r")
    case True
    then show ?thesis using "1.prems" by (subst radix_digits.simps) simp
  next
    case False
    then obtain j where k: "k = Suc j" "0 < j"
      using "1.prems" by (cases k; cases "k - 1") auto
    then have "n div r < r ^ j" using "1.prems" by (simp add: less_mult_imp_div_less mult.commute)
    then show ?thesis using False "1.IH" "1.prems"(1) k by (subst radix_digits.simps) simp
  qed
qed

lemma radix_digits_hd: "2 \<le> r \<Longrightarrow> r \<le> n \<Longrightarrow> hd (radix_digits r n) \<noteq> 48"
proof (induction r n rule: radix_digits.induct)
  case (1 r n)
  then have "hd (radix_digits r n) = hd (radix_digits r (n div r))"
    by (subst radix_digits.simps) (simp add: hd_append)
  moreover have "hd (radix_digits r (n div r)) \<noteq> 48"
  proof (cases "n div r < r")
    case True
    moreover have "0 < n div r" using "1.prems" by (simp add: div_greater_zero_iff)
    ultimately show ?thesis by (subst radix_digits.simps) (simp add: digit_char_def)
  qed (use 1 in simp)
  ultimately show ?case by simp
qed

lemma radix_digits_no_zero_prefix:
  "2 \<le> r \<Longrightarrow> 1 < length (radix_digits r n) \<Longrightarrow> hd (radix_digits r n) \<noteq> 48"
  using radix_digits_hd [of r n] by (cases "n < r") (auto simp: radix_digits.simps [of r n])

subsection \<open>Reading what was printed\<close>

lemma read_number_radix:
  assumes r: "2 \<le> r" "r \<le> 16" and "n \<le> mx"
    and "case max_digits of None \<Rightarrow> True | Some k \<Rightarrow> length (radix_digits r n) \<le> k"
    and "rest = [] \<or> \<not> is_digit r (hd rest)"
  shows "read_number r mx max_digits z (radix_digits r n @ rest) = Some (n, rest)"
proof -
  have "\<forall>c\<in>set (radix_digits r n). is_digit r c" using radix_digits_are_digits r by blast
  then have "takeWhile (is_digit r) (radix_digits r n @ rest) = radix_digits r n"
    "dropWhile (is_digit r) (radix_digits r n @ rest) = rest"
    using assms(5) by (cases rest; simp)+
  then show ?thesis
    using assms(3,4) number_of_radix [OF r] radix_digits_no_zero_prefix [OF r(1), of n]
    by (auto simp: read_number_def Let_def split: option.splits)
qed

lemma read_number_none: "s = [] \<or> \<not> is_digit r (hd s) \<Longrightarrow> read_number r mx k z s = None"
  by (cases s) (auto simp: read_number_def)

lemma is_digit_10: "is_digit 10 c \<longleftrightarrow> is_ascii_digit c"
  by (auto simp: is_digit_def digit_value_def is_ascii_digit_def Let_def)

lemma is_digit_punctuation [simp]:
  "\<not> is_digit r 46" "\<not> is_digit r 58" "\<not> is_digit r 93" "\<not> is_digit r 37" "\<not> is_digit r 91"
  by (simp_all add: is_digit_def digit_value_def)

lemma read_port_dec:
  "rest = [] \<or> \<not> is_digit 10 (hd rest) \<Longrightarrow> read_port (58 # dec_digits (unat (p :: u16)) @ rest) = Some (unat p, rest)"
proof -
  assume rest: "rest = [] \<or> \<not> is_digit 10 (hd rest)"
  have "unat p < 65536" using unsigned_less [of p] by simp
  then show ?thesis
    unfolding dec_digits_radix read_port_def using rest by (simp add: read_number_radix)
qed

fun print_octets :: "nat list \<Rightarrow> rust_string" where
  "print_octets [] = []"
| "print_octets [v] = dec_digits v"
| "print_octets (v # vs) = dec_digits v @ 46 # print_octets vs"

definition print_v4 :: "nat list \<Rightarrow> u16 \<Rightarrow> rust_string" where
  "print_v4 os p = print_octets os @ 58 # dec_digits (unat p)"

lemma read_octet_dec:
  "v \<le> 255 \<Longrightarrow> rest = [] \<or> \<not> is_digit 10 (hd rest) \<Longrightarrow>
   read_number 10 255 (Some 3) False (dec_digits v @ rest) = Some (v, rest)"
  unfolding dec_digits_radix using radix_digits_length [of 10 3 v] by (intro read_number_radix) auto

lemma read_octets_print:
  "vs \<noteq> [] \<Longrightarrow> \<forall>v\<in>set vs. v \<le> 255 \<Longrightarrow> rest = [] \<or> \<not> is_digit 10 (hd rest) \<Longrightarrow>
   read_octets i (length vs) ((if i = 0 then [] else [46]) @ print_octets vs @ rest) = Some (vs, rest)"
proof (induction vs arbitrary: i rule: print_octets.induct)
  case (2 v)
  then show ?case by (simp add: read_separator_def read_octet_dec)
next
  case (3 v w vs)
  have "read_number 10 255 (Some 3) False (dec_digits v @ 46 # print_octets (w # vs) @ rest) =
      Some (v, 46 # print_octets (w # vs) @ rest)"
    using "3.prems" by (intro read_octet_dec) auto
  moreover have "read_octets (Suc i) (length (w # vs)) (46 # print_octets (w # vs) @ rest) =
      Some (w # vs, rest)"
    using "3.IH" [of "Suc i"] "3.prems" by simp
  moreover have "length (v # w # vs) = Suc (length (w # vs))" by simp
  ultimately show ?case
    by (cases "i = 0") (simp_all add: read_separator_def del: list.size)
qed simp

lemma parse_print_v4:
  "length os = 4 \<Longrightarrow> \<forall>v\<in>set os. v \<le> 255 \<Longrightarrow> parse_socket_addr (print_v4 os p) = Some (SocketV4 os p)"
proof -
  assume os: "length os = 4" "\<forall>v\<in>set os. v \<le> 255"
  then have "os \<noteq> []" by auto
  with os have "read_v4 (print_octets os @ 58 # dec_digits (unat p)) = Some (os, 58 # dec_digits (unat p))"
    using read_octets_print [of os "58 # dec_digits (unat p)" 0] by (simp add: read_v4_def)
  then show ?thesis
    using read_port_dec [of "[]" p] by (simp add: parse_socket_addr_def read_socket_v4_def print_v4_def)
qed

subsection \<open>IPv6 addresses that were printed\<close>

fun print_groups :: "nat \<Rightarrow> nat list \<Rightarrow> rust_string" where
  "print_groups i [] = []"
| "print_groups i (g # gs) = (if i = 0 then [] else [58]) @ radix_digits 16 g @ print_groups (Suc i) gs"

text \<open>What may follow a list of groups: the end of the address, or the double colon.\<close>

definition ends_groups :: "rust_string \<Rightarrow> bool" where
  "ends_groups s \<longleftrightarrow> s = [] \<or> hd s = 93 \<or> hd s = 37 \<or> (\<exists>t. s = 58 # 58 # t)"

lemma ends_groups_hd: "ends_groups s \<Longrightarrow> s = [] \<or> hd s \<in> {93, 37, 58}"
  by (auto simp: ends_groups_def)

lemma read_octets_none:
  assumes "dropWhile (is_digit 10) s = [] \<or> hd (dropWhile (is_digit 10) s) \<noteq> 46"
  shows "read_v4 s = None"
proof -
  have *: "read_octets 1 3 s' = None" if "s' = [] \<or> hd s' \<noteq> 46" for s'
    using that by (cases s') (auto simp: read_separator_def numeral_3_eq_3)
  show ?thesis
  proof (cases "read_number 10 255 (Some 3) False s")
    case None
    then show ?thesis by (simp add: read_v4_def numeral_eq_Suc read_separator_def)
  next
    case (Some x)
    then have "snd x = dropWhile (is_digit 10) s"
      by (auto simp: read_number_def Let_def split: if_splits)
    then have "read_octets 1 3 (snd x) = None" using assms by (intro *) simp
    then show ?thesis using Some
      by (cases x) (simp add: read_v4_def numeral_eq_Suc read_separator_def)
  qed
qed

lemma dropWhile_hd_in: "dropWhile P s \<noteq> [] \<Longrightarrow> hd (dropWhile P s) \<in> set s \<and> \<not> P (hd (dropWhile P s))"
  using hd_dropWhile [of P s] hd_in_set [of "dropWhile P s"] set_dropWhileD by metis

text \<open>A hexadecimal group that is not followed by a dot is never mistaken for an IPv4 address.\<close>

lemma read_v4_group:
  assumes "\<forall>c\<in>set ds. is_digit 16 c" "rest = [] \<or> hd rest \<noteq> 46" "rest = [] \<or> \<not> is_digit 10 (hd rest)"
  shows "read_v4 (ds @ rest) = None"
proof (rule read_octets_none, rule ccontr)
  assume "\<not> (dropWhile (is_digit 10) (ds @ rest) = [] \<or> hd (dropWhile (is_digit 10) (ds @ rest)) \<noteq> 46)"
  then have ne: "dropWhile (is_digit 10) (ds @ rest) \<noteq> []"
    and dot: "hd (dropWhile (is_digit 10) (ds @ rest)) = 46" by simp_all
  show False
  proof (cases "\<forall>c\<in>set ds. is_digit 10 c")
    case True
    then have "dropWhile (is_digit 10) (ds @ rest) = rest"
      using assms(3) by (cases rest) simp_all
    with ne dot assms(2) show False by simp
  next
    case False
    then obtain c where "c \<in> set ds" "\<not> is_digit 10 c" by blast
    then have app: "dropWhile (is_digit 10) (ds @ rest) = dropWhile (is_digit 10) ds @ rest"
      by (rule dropWhile_append1)
    have "dropWhile (is_digit 10) ds \<noteq> []" using False by (simp add: dropWhile_eq_Nil_iff)
    then have "46 \<in> set ds" using dropWhile_hd_in [of "is_digit 10" ds] dot app by simp
    with assms(1) show False by auto
  qed
qed

lemma read_group_hex:
  "g < 65536 \<Longrightarrow> rest = [] \<or> \<not> is_digit 16 (hd rest) \<Longrightarrow>
   read_number 16 65535 (Some 4) True (radix_digits 16 g @ rest) = Some (g, rest)"
  using radix_digits_length [of 16 4 g] by (intro read_number_radix) auto

lemma print_groups_follows:
  "ends_groups rest \<Longrightarrow>
   print_groups (Suc i) gs @ rest = [] \<or> hd (print_groups (Suc i) gs @ rest) \<in> {93, 37, 58}"
  using ends_groups_hd [of rest] by (cases gs) auto

lemma no_group_at_end:
  assumes "ends_groups rest"
  shows "read_separator 58 i read_v4 rest = None"
    and "read_separator 58 i (read_number 16 65535 (Some 4) True) rest = None"
proof -
  have v4: "read_v4 s = None" if "s = [] \<or> hd s \<in> {93, 37, 58}" for s
    using that by (intro read_octets_none) (cases s; auto)
  have hex: "read_number 16 65535 (Some 4) True s = None" if "s = [] \<or> hd s \<in> {93, 37, 58}" for s
    using that by (intro read_number_none) auto
  have next_char: "read_char 58 rest = Some s \<Longrightarrow> s \<noteq> [] \<and> hd s = 58" for s
    using assms by (cases rest) (auto simp: ends_groups_def split: if_splits)
  show "read_separator 58 i read_v4 rest = None"
    using v4 [OF ends_groups_hd [OF assms]] next_char v4
    by (auto simp: read_separator_def split: option.split)
  show "read_separator 58 i (read_number 16 65535 (Some 4) True) rest = None"
    using hex [OF ends_groups_hd [OF assms]] next_char hex
    by (auto simp: read_separator_def split: option.split)
qed

lemma read_groups_print:
  "length gs \<le> r \<Longrightarrow> \<forall>g\<in>set gs. g < 65536 \<Longrightarrow> ends_groups rest \<Longrightarrow>
   read_groups i r (print_groups i gs @ rest) = (gs, False, rest)"
proof (induction gs arbitrary: i r)
  case Nil
  then show ?case using no_group_at_end [of rest i] by (cases r) simp_all
next
  case (Cons g gs)
  then obtain q where r: "r = Suc q" by (cases r) auto
  let ?follow = "print_groups (Suc i) gs @ rest"
  let ?s = "radix_digits 16 g @ ?follow"
  have follow: "?follow = [] \<or> hd ?follow \<in> {93, 37, 58}"
    using Cons.prems(3) by (rule print_groups_follows)
  have sep': "read_separator 58 i inner (print_groups i (g # gs) @ rest) = inner ?s"
    for inner :: "rust_string \<Rightarrow> (nat \<times> rust_string) option"
    by (simp add: read_separator_def)
  have sep'': "read_separator 58 i inner (print_groups i (g # gs) @ rest) = inner ?s"
    for inner :: "rust_string \<Rightarrow> (nat list \<times> rust_string) option"
    by (simp add: read_separator_def)
  have "read_v4 ?s = None"
    using follow radix_digits_are_digits [of 16 _ g] by (intro read_v4_group) auto
  moreover have "read_number 16 65535 (Some 4) True ?s = Some (g, ?follow)"
    using follow Cons.prems(2) by (intro read_group_hex) auto
  moreover have "read_groups (Suc i) q ?follow = (gs, False, rest)"
    using Cons.prems r by (intro Cons.IH) auto
  ultimately show ?case
    unfolding r by (simp only: read_groups.simps sep' sep'') simp
qed

lemma read_v6_full:
  "length gs = 8 \<Longrightarrow> \<forall>g\<in>set gs. g < 65536 \<Longrightarrow> ends_groups rest \<Longrightarrow>
   read_v6 (print_groups 0 gs @ rest) = Some (gs, rest)"
  using read_groups_print [of gs 8 rest 0] by (simp add: read_v6_def)

lemma read_v6_compressed:
  assumes "length hs + length ts \<le> 7" "\<forall>g\<in>set hs \<union> set ts. g < 65536" "ends_groups rest" "rest \<noteq> [] \<longrightarrow> hd rest \<noteq> 58"
  shows "read_v6 (print_groups 0 hs @ 58 # 58 # print_groups 0 ts @ rest) =
    Some (hs @ replicate (8 - length hs - length ts) 0 @ ts, rest)"
proof -
  have "read_groups 0 8 (print_groups 0 hs @ 58 # 58 # print_groups 0 ts @ rest) =
      (hs, False, 58 # 58 # print_groups 0 ts @ rest)"
    using assms by (intro read_groups_print) (auto simp: ends_groups_def)
  moreover have "read_groups 0 (8 - (length hs + 1)) (print_groups 0 ts @ rest) = (ts, False, rest)"
    using assms by (intro read_groups_print) auto
  ultimately show ?thesis using assms(1) by (simp add: read_v6_def)
qed

definition print_v6 :: "rust_string \<Rightarrow> u16 \<Rightarrow> rust_string" where
  "print_v6 addr p = 91 # addr @ 93 # 58 # dec_digits (unat p)"

lemma parse_print_v6:
  assumes "\<And>rest. ends_groups rest \<Longrightarrow> rest \<noteq> [] \<Longrightarrow> hd rest \<noteq> 58 \<Longrightarrow> read_v6 (addr @ rest) = Some (gs, rest)"
  shows "parse_socket_addr (print_v6 addr p) = Some (SocketV6 gs p 0 0)"
proof -
  let ?rest = "93 # 58 # dec_digits (unat p)"
  have "read_socket_v4 (print_v6 addr p) = None"
    using read_octets_none [of "print_v6 addr p"] by (simp add: read_socket_v4_def print_v6_def)
  moreover have "read_v6 (addr @ ?rest) = Some (gs, ?rest)" by (rule assms) (simp_all add: ends_groups_def)
  moreover have "read_scope_id ?rest = None" by (simp add: read_scope_id_def)
  moreover have "read_port (58 # dec_digits (unat p)) = Some (unat p, [])" using read_port_dec [of "[]" p] by simp
  ultimately show ?thesis
    by (simp add: parse_socket_addr_def read_socket_v6_def print_v6_def)
qed

subsection \<open>Text that a list of addresses can be cut at\<close>

lemma dec_digits_ends: "is_ascii_digit (hd (dec_digits n))" "is_ascii_digit (last (dec_digits n))"
  using dec_digits_digits [of _ n] by simp_all

lemma print_octets_chars: "vs \<noteq> [] \<Longrightarrow> c \<in> set (print_octets vs) \<Longrightarrow> is_ascii_digit c \<or> c = 46"
  by (induction vs rule: print_octets.induct) (auto dest: dec_digits_digits)

lemma print_octets_hd: "vs \<noteq> [] \<Longrightarrow> is_ascii_digit (hd (print_octets vs)) \<and> print_octets vs \<noteq> []"
  by (cases vs rule: print_octets.cases) (auto simp: hd_append dec_digits_ends)

lemma print_groups_chars: "c \<in> set (print_groups i gs) \<Longrightarrow> is_digit 16 c \<or> c = 58"
  using radix_digits_are_digits [of 16 c] by (induction gs arbitrary: i) (auto split: if_splits)

text \<open>\<open>token s\<close>: \<open>s\<close> neither contains a comma nor begins or ends with white space.\<close>

definition token :: "rust_string \<Rightarrow> bool" where
  "token s \<longleftrightarrow> s \<noteq> [] \<and> \<not> is_whitespace (hd s) \<and> \<not> is_whitespace (last s) \<and> 44 \<notin> set s"

lemma is_digit_16_token: "is_digit 16 c \<Longrightarrow> \<not> is_whitespace c \<and> c \<noteq> 44"
  by (auto simp: is_digit_def digit_value_def is_whitespace_def Let_def split: if_splits)

lemma ascii_digit_token: "is_ascii_digit c \<Longrightarrow> \<not> is_whitespace c \<and> c \<noteq> 44"
  by (simp add: is_ascii_digit_def is_whitespace_def)

lemma token_v4: "os \<noteq> [] \<Longrightarrow> token (print_v4 os p)"
  using print_octets_hd [of os] print_octets_chars [of os 44] ascii_digit_token
    dec_digits_ends(2) [of "unat p"] dec_digits_digits [of 44 "unat p"]
  by (auto simp: token_def print_v4_def hd_append)

lemma token_v6: "\<forall>c\<in>set addr. is_digit 16 c \<or> c = 58 \<Longrightarrow> token (print_v6 addr p)"
proof -
  assume addr: "\<forall>c\<in>set addr. is_digit 16 c \<or> c = 58"
  have "\<not> is_digit 16 44" using is_digit_16_token [of 44] by blast
  then have "44 \<notin> set addr" using addr by auto
  moreover have "44 \<notin> set (dec_digits (unat p))" "\<not> is_whitespace (last (dec_digits (unat p)))"
    using ascii_digit_token dec_digits_ends(2) [of "unat p"] dec_digits_digits [of 44 "unat p"] by auto
  ultimately show ?thesis by (simp add: token_def print_v6_def is_whitespace_def)
qed

text \<open>\<open>written s a\<close>: \<open>s\<close> is one of the ways to write the address \<open>a\<close> without a scope.\<close>

inductive written :: "rust_string \<Rightarrow> socket_addr \<Rightarrow> bool" where
  v4: "length os = 4 \<Longrightarrow> \<forall>v\<in>set os. v \<le> 255 \<Longrightarrow> written (print_v4 os p) (SocketV4 os p)"
| v6: "length gs = 8 \<Longrightarrow> \<forall>g\<in>set gs. g < 65536 \<Longrightarrow>
     written (print_v6 (print_groups 0 gs) p) (SocketV6 gs p 0 0)"
| v6_compressed: "length hs + length ts \<le> 7 \<Longrightarrow> \<forall>g\<in>set hs \<union> set ts. g < 65536 \<Longrightarrow>
     written (print_v6 (print_groups 0 hs @ 58 # 58 # print_groups 0 ts) p)
       (SocketV6 (hs @ replicate (8 - length hs - length ts) 0 @ ts) p 0 0)"

lemma parse_written: "written s a \<Longrightarrow> parse_socket_addr s = Some a"
proof (induction rule: written.induct)
  case (v4 os p)
  then show ?case by (rule parse_print_v4)
next
  case (v6 gs p)
  then show ?case by (intro parse_print_v6 read_v6_full)
next
  case (v6_compressed hs ts p)
  show ?case
  proof (rule parse_print_v6)
    fix rest assume "ends_groups rest" "rest \<noteq> []" "hd rest \<noteq> 58"
    with v6_compressed show "read_v6 ((print_groups 0 hs @ 58 # 58 # print_groups 0 ts) @ rest) =
        Some (hs @ replicate (8 - length hs - length ts) 0 @ ts, rest)"
      using read_v6_compressed [of hs ts rest] by simp
  qed
qed

lemma token_written: "written s a \<Longrightarrow> token s"
proof (induction rule: written.induct)
  case (v4 os p)
  then show ?case by (intro token_v4) auto
next
  case (v6 gs p)
  then show ?case using print_groups_chars by (intro token_v6) blast
next
  case (v6_compressed hs ts p)
  then show ?case using print_groups_chars by (intro token_v6) auto
qed

end
