(* ===== verification/Config.thy ===== *)
theory Config
  imports VectorClock SocketAddr
begin

section \<open>The configuration\<close>

text \<open>
  \<^verbatim>\<open>Config::from_env\<close> of \<^verbatim>\<open>crates/todo-app/src/main.rs\<close>. The environment is a map from names to
  values; a value that is not Unicode reads like one that is not set.
\<close>

subsection \<open>Reading the environment\<close>

type_synonym env = "rust_string \<Rightarrow> rust_string option"

definition unwrap_or :: "'a \<Rightarrow> 'a option \<Rightarrow> 'a" where
  "unwrap_or d x = (case x of None \<Rightarrow> d | Some y \<Rightarrow> y)"

text \<open>\<^verbatim>\<open>parse_env\<close>, given the parser of its result type.\<close>

definition parse_env :: "(rust_string \<Rightarrow> 'a option) \<Rightarrow> env \<Rightarrow> string \<Rightarrow> 'a option" where
  "parse_env parse env key = (case env (lit key) of None \<Rightarrow> None | Some s \<Rightarrow> parse s)"

definition parse_u16 :: "rust_string \<Rightarrow> u16 option" where
  "parse_u16 s = map_option of_nat (parse_uint 65535 s)"

definition parse_u64 :: "rust_string \<Rightarrow> u64 option" where
  "parse_u64 s = map_option of_nat (parse_uint 18446744073709551615 s)"

definition replica_id_of :: "rust_string \<Rightarrow> replica_id" where
  "replica_id_of peer_id = unwrap_or 1 (parse_u64 (filter is_ascii_digit peer_id))"

text \<open>\<^verbatim>\<open>str::split\<close> at a character: the parts between its occurrences, one if there is none.\<close>

fun split_at_char :: "nat \<Rightarrow> rust_string \<Rightarrow> rust_string list" where
  "split_at_char d [] = [[]]"
| "split_at_char d (c # cs) =
     (if c = d then [] # split_at_char d cs
      else case split_at_char d cs of [] \<Rightarrow> [[c]] | p # ps \<Rightarrow> (c # p) # ps)"

definition parse_peers :: "rust_string \<Rightarrow> socket_addr list" where
  "parse_peers s =
     List.map_filter (\<lambda>p. parse_socket_addr (trim p))
       (filter (\<lambda>p. trim p \<noteq> []) (split_at_char 44 s))"

record config =
  cfg_peer_id :: rust_string
  cfg_replica_id :: replica_id
  cfg_port :: u16
  cfg_static_dir :: rust_string
  cfg_sync_listen :: socket_addr
  cfg_sync_peers :: "socket_addr list"

definition localhost :: "u16 \<Rightarrow> socket_addr" where
  "localhost port = SocketV4 [127, 0, 0, 1] port"

text \<open>The argument of \<^verbatim>\<open>unwrap_or(port + 1000)\<close> is evaluated whether it is needed or not.\<close>

definition from_env ::
  "build \<Rightarrow> env \<Rightarrow> panic + config" where
  "from_env b env =
     (let peer_id = unwrap_or (lit ''peer-1'') (env (lit ''PEER_ID''));
          port = unwrap_or 8080 (parse_env parse_u16 env ''PORT'');
          static_dir = unwrap_or (lit ''crates/todo-app/static'') (env (lit ''STATIC_DIR''));
          replica_id = replica_id_of peer_id;
          given_sync_port = parse_env parse_u16 env ''SYNC_PORT''
      in case add_unsigned b port 1000 of
           Inl e \<Rightarrow> Inl e
         | Inr default_sync_port \<Rightarrow> Inr
             \<lparr>cfg_peer_id = peer_id, cfg_replica_id = replica_id, cfg_port = port,
              cfg_static_dir = static_dir,
              cfg_sync_listen = localhost (unwrap_or default_sync_port given_sync_port),
              cfg_sync_peers = parse_peers (unwrap_or [] (env (lit ''SYNC_PEERS'')))\<rparr>)"

subsection \<open>Splitting\<close>

lemma split_no_sep: "d \<notin> set s \<Longrightarrow> split_at_char d s = [s]"
  by (induction s) auto

lemma split_sep: "d \<notin> set s \<Longrightarrow> split_at_char d (s @ d # t) = s # split_at_char d t"
  by (induction s) auto

subsection \<open>Properties\<close>

fun join_with :: "nat \<Rightarrow> rust_string list \<Rightarrow> rust_string" where
  "join_with d [] = []"
| "join_with d [p] = p"
| "join_with d (p # q # ps) = p @ d # join_with d (q # ps)"

lemma split_join: "ps \<noteq> [] \<Longrightarrow> \<forall>p\<in>set ps. d \<notin> set p \<Longrightarrow> split_at_char d (join_with d ps) = ps"
  by (induction d ps rule: join_with.induct) (simp_all add: split_no_sep split_sep)

definition padded :: "rust_string \<Rightarrow> rust_string \<Rightarrow> rust_string \<Rightarrow> rust_string" where
  "padded l x r = l @ x @ r"

lemma trim_padded:
  assumes "x \<noteq> []" "\<not> is_whitespace (hd x)" "\<not> is_whitespace (last x)"
    and l: "\<forall>c\<in>set l. is_whitespace c" and r: "\<forall>c\<in>set r. is_whitespace c"
  shows "trim (padded l x r) = x"
proof -
  obtain h t where x: "x = h # t" using assms(1) by (cases x) auto
  have "dropWhile is_whitespace (l @ x @ r) = x @ r"
    using l assms(2) by (subst dropWhile_append2) (auto simp: x)
  moreover have "dropWhile is_whitespace (rev r @ rev x) = rev x"
    using r assms(1,3) by (subst dropWhile_append2) (auto simp: dropWhile_eq_self_iff hd_rev)
  ultimately show ?thesis by (simp add: trim_def padded_def)
qed

text \<open>C35. The list of peers can be read back: a \<^verbatim>\<open>SYNC_PEERS\<close> made of IPv4 addresses and of IPv6 addresses in
  brackets, in full or compressed, with their ports, separated by commas and surrounded by any white space, gives
  exactly those addresses in that order.\<close>

theorem sync_peers_roundtrip:
  assumes "addrs \<noteq> []"
    and "\<forall>(l, s, a, r)\<in>set addrs. written s a \<and> (\<forall>c\<in>set l \<union> set r. is_whitespace c)"
  shows "parse_peers (join_with 44 (map (\<lambda>(l, s, a, r). padded l s r) addrs)) =
           map (\<lambda>(l, s, a, r). a) addrs"
proof -
  let ?part = "\<lambda>(l, s, a, r). padded l s r"
  have part: "44 \<notin> set (?part x) \<and> trim (?part x) \<noteq> [] \<and>
      parse_socket_addr (trim (?part x)) = Some ((\<lambda>(l, s, a, r). a) x)"
    if x: "x \<in> set addrs" for x
  proof -
    obtain l s a r where eq: "x = (l, s, a, r)" by (cases x)
    then have *: "written s a" "\<forall>c\<in>set l. is_whitespace c" "\<forall>c\<in>set r. is_whitespace c"
      using x assms(2) by auto
    have token: "token s" using *(1) by (rule token_written)
    have "\<not> is_whitespace 44" by (simp add: is_whitespace_def)
    then have "44 \<notin> set (padded l s r)" using * token by (auto simp: padded_def token_def)
    moreover have "trim (padded l s r) = s"
      using * token by (intro trim_padded) (auto simp: token_def)
    ultimately show ?thesis using token parse_written [OF *(1)] by (simp add: eq token_def)
  qed
  have "split_at_char 44 (join_with 44 (map ?part addrs)) = map ?part addrs"
    using assms(1) part by (intro split_join) auto
  moreover have "filter (\<lambda>p. trim p \<noteq> []) (map ?part addrs) = map ?part addrs"
    using part by (auto intro: filter_True)
  moreover have "List.map_filter (\<lambda>p. parse_socket_addr (trim p)) (map ?part as) =
      map (\<lambda>(l, s, a, r). a) as" if "set as \<subseteq> set addrs" for as
    using that part by (induction as) (simp_all add: map_filter_simps)
  ultimately show ?thesis by (simp add: parse_peers_def)
qed

theorem sync_peers_roundtrip_witness:
  "parse_peers (print_v4 [127, 0, 0, 1] 9081 @ [44, 32] @ print_v6 [58, 58, 49] 9082) =
     [SocketV4 [127, 0, 0, 1] 9081, SocketV6 [0, 0, 0, 0, 0, 0, 0, 1] 9082 0 0]"
proof -
  have "written (print_v4 [127, 0, 0, 1] 9081) (SocketV4 [127, 0, 0, 1] 9081)"
    by (rule written.v4) simp_all
  moreover have "replicate 7 (0 :: nat) = [0, 0, 0, 0, 0, 0, 0]" by (simp add: numeral_eq_Suc)
  then have "written (print_v6 [58, 58, 49] 9082) (SocketV6 [0, 0, 0, 0, 0, 0, 0, 1] 9082 0 0)"
    using written.v6_compressed [of "[]" "[1]" 9082]
    by (simp add: radix_digits.simps [of 16 "Suc 0"] digit_char_def)
  ultimately show ?thesis
    using sync_peers_roundtrip [of "[([], print_v4 [127, 0, 0, 1] 9081, SocketV4 [127, 0, 0, 1] 9081, []),
        ([32], print_v6 [58, 58, 49] 9082, SocketV6 [0, 0, 0, 0, 0, 0, 0, 1] 9082 0 0, [])]"]
    by (simp add: padded_def is_whitespace_def)
qed

text \<open>C36. The sync port. With a \<^verbatim>\<open>PORT\<close> of at most 64535 the configuration listens for peers on \<^verbatim>\<open>SYNC_PORT\<close>,
  or on the port 1000 above. With a larger one a debug build panics, even if \<^verbatim>\<open>SYNC_PORT\<close> is
  given, and a release build falls back to a port below 1000.\<close>

theorem from_env_sync_port:
  assumes port: "env (lit ''PORT'') = Some (dec_digits p)" "p < 65536"
  shows "case from_env b env of
      Inl e \<Rightarrow> b = Debug \<and> 64535 < p
    | Inr c \<Rightarrow> (b = Release \<or> p \<le> 64535) \<and> unat (cfg_port c) = p \<and>
        cfg_sync_listen c = localhost (case parse_env parse_u16 env ''SYNC_PORT'' of
            Some q \<Rightarrow> q | None \<Rightarrow> of_nat ((p + 1000) mod 65536)) \<and>
        (64535 < p \<longrightarrow> (p + 1000) mod 65536 < 1000)"
proof -
  have parse: "parse_env parse_u16 env ''PORT'' = Some (of_nat p)"
    using port parse_uint_dec [of p 65535] by (simp add: parse_env_def parse_u16_def)
  have unat: "unat (of_nat p :: u16) = p" using port(2) by (simp add: unat_of_nat take_bit_nat_eq_self)
  have sum: "of_nat p + (1000 :: u16) = of_nat ((p + 1000) mod 65536)"
    by (simp add: word_unat_eq_iff unat_word_ariths unat_of_nat take_bit_eq_mod mod_simps)
  have "add_unsigned b (of_nat p :: u16) 1000 =
      (if 64535 < p \<and> b = Debug then Inl ArithmeticOverflow else Inr (of_nat ((p + 1000) mod 65536)))"
    unfolding sum [symmetric] using unat by (cases b) (auto simp: add_unsigned_def)
  then show ?thesis
    using unat port(2) by (cases b)
      (auto simp: from_env_def parse unwrap_or_def Let_def mod_if split: option.split)
qed

theorem from_env_sync_port_witness:
  "\<exists>e. from_env Debug [lit ''PORT'' \<mapsto> dec_digits 65000, lit ''SYNC_PORT'' \<mapsto> dec_digits 9080] = Inl e"
proof -
  define env where "env = [lit ''PORT'' \<mapsto> dec_digits 65000, lit ''SYNC_PORT'' \<mapsto> dec_digits 9080]"
  have "lit ''PORT'' \<noteq> lit ''SYNC_PORT''" by (simp add: lit_def)
  then have "env (lit ''PORT'') = Some (dec_digits 65000)" by (simp add: env_def)
  from from_env_sync_port [of env 65000 Debug, OF this]
  have "\<exists>e. from_env Debug env = Inl e" by (auto split: sum.splits)
  then show ?thesis by (simp add: env_def)
qed

lemma filter_digits_suffix:
  "\<forall>c\<in>set name. \<not> is_ascii_digit c \<Longrightarrow> filter is_ascii_digit (name @ dec_digits k) = dec_digits k"
  using dec_digits_digits [of _ k] by (auto simp: filter_empty_conv intro: filter_True)

text \<open>The replica id. A \<^verbatim>\<open>PEER_ID\<close> that ends in a number below \<open>2 ^ 64\<close> and has no other digit gives that
  number, so peers numbered differently get different ids.\<close>

theorem replica_id_of_numbered_peer:
  assumes "\<forall>c\<in>set name. \<not> is_ascii_digit c" "k < 2 ^ 64"
  shows "replica_id_of (name @ dec_digits k) = of_nat k \<and> unat (replica_id_of (name @ dec_digits k)) = k"
  using assms(2) parse_uint_dec [of k 18446744073709551615]
  unfolding replica_id_of_def filter_digits_suffix [OF assms(1)]
  by (simp add: parse_u64_def unwrap_or_def unat_of_nat take_bit_nat_eq_self)

theorem replica_id_of_numbered_peer_witness:
  "unat (replica_id_of (lit ''peer-'' @ dec_digits 12)) = 12"
  using replica_id_of_numbered_peer [of "lit ''peer-''" 12] by (simp add: lit_def is_ascii_digit_def)

text \<open>C39. Peers that are named without digits all get the replica id 1, which is also that of \<^verbatim>\<open>peer-1\<close>; and
  two different replicas with the same id count their edits under one entry, so that two
  concurrent first edits have equal clocks instead of concurrent ones.\<close>

theorem replica_id_collision:
  assumes "\<forall>c\<in>set x. \<not> is_ascii_digit c" "\<forall>c\<in>set y. \<not> is_ascii_digit c"
  shows "replica_id_of x = 1 \<and> replica_id_of y = 1 \<and> replica_id_of (lit ''peer-1'') = 1 \<and>
    vc_partial_cmp (snd (vc_increment b (replica_id_of x) vc_new))
      (snd (vc_increment b (replica_id_of y) vc_new)) = Some Equal"
proof -
  have "replica_id_of x = 1" "replica_id_of y = 1"
    using assms by (simp_all add: replica_id_of_def parse_u64_def unwrap_or_def filter_False)
  moreover have "replica_id_of (lit ''peer-1'') = 1"
    by (simp add: replica_id_of_def parse_u64_def unwrap_or_def lit_def is_ascii_digit_def)
  ultimately show ?thesis by (simp add: vc_partial_cmp_eq)
qed

theorem replica_id_collision_witness:
  "replica_id_of (lit ''alice'') = replica_id_of (lit ''bob'')"
  using replica_id_collision [of "lit ''alice''" "lit ''bob''"] by (simp add: lit_def is_ascii_digit_def)

text \<open>C40. A host name in \<^verbatim>\<open>SYNC_PEERS\<close> is dropped without an error: only numeric addresses parse.\<close>

theorem sync_peers_drop_hostnames:
  assumes "host \<noteq> []" "\<not> is_ascii_digit (hd host)" "hd host \<noteq> 91" "\<not> is_whitespace (hd host)" "44 \<notin> set host"
  shows "parse_peers (host @ 58 # dec_digits p) = []"
proof -
  let ?s = "host @ 58 # dec_digits p"
  have digits: "c \<in> set (dec_digits p) \<Longrightarrow> \<not> is_whitespace c \<and> c \<noteq> 44" for c
    using dec_digits_digits [of c p] ascii_digit_token by blast
  have "\<not> is_whitespace (last ?s)" using digits [of "last (dec_digits p)"] by simp
  then have "trim (padded [] ?s []) = ?s" using assms by (intro trim_padded) auto
  then have "trim ?s = ?s" by (simp add: padded_def)
  moreover have "read_number 10 255 (Some 3) False ?s = None"
    using assms(1,2) by (intro read_number_none) (simp add: is_digit_10)
  then have "read_socket_v4 ?s = None"
    by (simp add: read_socket_v4_def read_v4_def numeral_eq_Suc read_separator_def)
  moreover have "read_socket_v6 ?s = None"
    using assms(1,3) by (cases host) (simp_all add: read_socket_v6_def)
  moreover have "split_at_char 44 ?s = [?s]" using assms(5) digits by (intro split_no_sep) auto
  ultimately show ?thesis
    by (simp add: parse_peers_def parse_socket_addr_def map_filter_simps)
qed

theorem sync_peers_drop_hostnames_witness:
  "parse_peers (lit ''localhost'' @ 58 # dec_digits 9081) = []"
  by (rule sync_peers_drop_hostnames) (simp_all add: lit_def is_ascii_digit_def is_whitespace_def)

end
