(* ===== verification/Server.thy ===== *)
theory Server
  imports TodoSteps
begin

section \<open>The web server's state and its tasks\<close>

text \<open>
  \<^verbatim>\<open>crates/todo-app/src/server.rs\<close> and the forwarding task of \<^verbatim>\<open>main\<close>. The JSON printer and parser that
  serde derives are the parameters \<open>to_json\<close> and \<open>from_json\<close>. The two broadcast channels are seen from their sending
  side, as what has been sent on them so far; what a receiver gets is an input (\<open>recv\<close>), because a receiver
  that falls behind the channel's capacity misses messages. Sending to a channel without receivers fails and
  is ignored by the code.
\<close>

record app_state =
  inner :: todo_state
  ws_sent :: "rust_string list"
  sync_notify :: "nat option"

definition app_new :: "todo_state \<Rightarrow> app_state" where
  "app_new s = \<lparr>inner = s, ws_sent = [], sync_notify = None\<rparr>"

text \<open>\<open>sync_notify\<close> counts the notifications sent to the sync layer, once its sender is attached.\<close>

definition with_sync_notifier :: "app_state \<Rightarrow> app_state" where
  "with_sync_notifier a = a\<lparr>sync_notify := Some 0\<rparr>"

subsection \<open>Broadcasting\<close>

definition send_ws :: "rust_string option \<Rightarrow> app_state \<Rightarrow> app_state" where
  "send_ws json a = (case json of None \<Rightarrow> a | Some j \<Rightarrow> a\<lparr>ws_sent := ws_sent a @ [j]\<rparr>)"

definition broadcast_snapshot ::
  "(server_message \<Rightarrow> rust_string option) \<Rightarrow> app_state \<Rightarrow> app_state" where
  "broadcast_snapshot to_json a = send_ws (to_json (snapshot (inner a))) a"

definition notify_sync :: "app_state \<Rightarrow> app_state" where
  "notify_sync a = a\<lparr>sync_notify := map_option Suc (sync_notify a)\<rparr>"

text \<open>When applying the message panics, the task ends there: the state it left behind stays, and nobody
  is told about it.\<close>

definition apply_and_broadcast ::
  "build \<Rightarrow> (server_message \<Rightarrow> rust_string option) \<Rightarrow> client_message \<Rightarrow> (app_state, unit) run" where
  "apply_and_broadcast b to_json msg a =
     (case todo_apply b msg (inner a) of
        (Inl e, s') \<Rightarrow> (Inl e, a\<lparr>inner := s'\<rparr>)
      | (Inr _, s') \<Rightarrow> (Inr (), broadcast_snapshot to_json (notify_sync (a\<lparr>inner := s'\<rparr>))))"

subsection \<open>One WebSocket\<close>

text \<open>What the receiving task of a socket gets: a message, or an error or the end of the stream.\<close>

datatype ws_message = Text rust_string | Close | Other

datatype ws_input = Message ws_message | Broken

text \<open>One turn of the receiving task. The first component says that the task has ended.\<close>

definition recv_step ::
  "build \<Rightarrow> (server_message \<Rightarrow> rust_string option) \<Rightarrow> (rust_string \<Rightarrow> client_message option) \<Rightarrow>
   ws_input \<Rightarrow> app_state \<Rightarrow> bool \<times> app_state" where
  "recv_step b to_json from_json x a =
     (case x of
        Broken \<Rightarrow> (True, a)
      | Message msg \<Rightarrow>
          (case msg of
             Text t \<Rightarrow>
               (case from_json t of
                  Some client_msg \<Rightarrow>
                    (case apply_and_broadcast b to_json client_msg a of
                       (Inl _, a') \<Rightarrow> (True, a')
                     | (Inr _, a') \<Rightarrow> (False, a'))
                | None \<Rightarrow> (False, a))
           | Close \<Rightarrow> (True, a)
           | Other \<Rightarrow> (False, a)))"

text \<open>One turn of the sending task: \<open>ok\<close> says whether the write succeeds.\<close>

definition send_step :: "rust_string recv \<Rightarrow> bool \<Rightarrow> rust_string list \<Rightarrow> bool \<times> rust_string list" where
  "send_step r ok out =
     (case r of
        Received json \<Rightarrow> if ok then (False, out @ [json]) else (True, out)
      | Lagged \<Rightarrow> (True, out)
      | Closed \<Rightarrow> (True, out))"

text \<open>
  The two tasks of a socket run interleaved with each other and with everything else that changes the shared
  state; \<open>Elsewhere\<close> is such a change. As soon as one of the two ends, \<^verbatim>\<open>select!\<close> aborts
  the other. The result says whether the socket is still served, what the browser was sent, and the
  shared state.
\<close>

datatype socket_event =
    Incoming ws_input
  | Outgoing "rust_string recv" bool
  | Elsewhere "app_state \<Rightarrow> app_state"

fun socket_loop ::
  "build \<Rightarrow> (server_message \<Rightarrow> rust_string option) \<Rightarrow> (rust_string \<Rightarrow> client_message option) \<Rightarrow>
   socket_event list \<Rightarrow> rust_string list \<Rightarrow> app_state \<Rightarrow> bool \<times> rust_string list \<times> app_state" where
  "socket_loop b to_json from_json [] out a = (True, out, a)"
| "socket_loop b to_json from_json (Incoming x # es) out a =
     (case recv_step b to_json from_json x a of
        (True, a') \<Rightarrow> (False, out, a')
      | (False, a') \<Rightarrow> socket_loop b to_json from_json es out a')"
| "socket_loop b to_json from_json (Outgoing r ok # es) out a =
     (case send_step r ok out of
        (True, out') \<Rightarrow> (False, out', a)
      | (False, out') \<Rightarrow> socket_loop b to_json from_json es out' a)"
| "socket_loop b to_json from_json (Elsewhere f # es) out a =
     socket_loop b to_json from_json es out (f a)"

definition send_current_snapshot ::
  "(server_message \<Rightarrow> rust_string option) \<Rightarrow> bool \<Rightarrow> app_state \<Rightarrow> unit + rust_string list" where
  "send_current_snapshot to_json ok a =
     (case to_json (snapshot (inner a)) of
        Some json \<Rightarrow> if ok then Inr [json] else Inl ()
      | None \<Rightarrow> Inl ())"

definition handle_socket ::
  "build \<Rightarrow> (server_message \<Rightarrow> rust_string option) \<Rightarrow> (rust_string \<Rightarrow> client_message option) \<Rightarrow>
   bool \<Rightarrow> socket_event list \<Rightarrow> app_state \<Rightarrow> bool \<times> rust_string list \<times> app_state" where
  "handle_socket b to_json from_json ok es a =
     (case send_current_snapshot to_json ok a of
        Inl _ \<Rightarrow> (False, [], a)
      | Inr out \<Rightarrow> socket_loop b to_json from_json es out a)"

subsection \<open>Forwarding remote updates\<close>

text \<open>The task of \<^verbatim>\<open>main\<close> that turns notifications of the sync layer into broadcasts; each notification comes with
  the shared state at the moment of the broadcast.\<close>

fun forward_updates ::
  "(server_message \<Rightarrow> rust_string option) \<Rightarrow> (unit recv \<times> todo_state) list \<Rightarrow> app_state \<Rightarrow> app_state" where
  "forward_updates to_json [] a = a"
| "forward_updates to_json ((r, s) # rs) a =
     (case r of
        Received _ \<Rightarrow> forward_updates to_json rs (broadcast_snapshot to_json (a\<lparr>inner := s\<rparr>))
      | Lagged \<Rightarrow> a
      | Closed \<Rightarrow> a)"

subsection \<open>Tasks side by side\<close>

text \<open>
  \<open>apply_and_broadcast\<close> is not atomic: the lock is released after the mutation, and taken again to read the
  snapshot, which is sent after the second release. The tasks of all sockets, and the forwarding task with one turn
  per remote update, as threads numbered by \<open>nat\<close> that interleave at these points. A remote update is a merge by
  the sync layer whose notification reaches the forwarding task.
\<close>

datatype phase = Idle | Mutated | Notified | Holding "rust_string option"

record server_sys =
  app :: app_state
  phases :: "nat \<Rightarrow> phase"

text \<open>The steps by kind: a client message is applied, a peer's state is merged, or a task goes on telling what has
  happened.\<close>

inductive edit_step :: "build \<Rightarrow> client_message \<Rightarrow> server_sys \<Rightarrow> server_sys \<Rightarrow> bool" for b m where
  mutate: "ph t = Idle \<Longrightarrow> todo_apply b m (inner a) = (Inr (), s') \<Longrightarrow>
     edit_step b m \<lparr>app = a, phases = ph\<rparr> \<lparr>app = a\<lparr>inner := s'\<rparr>, phases = ph(t := Mutated)\<rparr>"
| panics: "ph t = Idle \<Longrightarrow> todo_apply b m (inner a) = (Inl e, s') \<Longrightarrow>
     edit_step b m \<lparr>app = a, phases = ph\<rparr> \<lparr>app = a\<lparr>inner := s'\<rparr>, phases = ph\<rparr>"

inductive merge_step :: "todo_state \<Rightarrow> server_sys \<Rightarrow> server_sys \<Rightarrow> bool" for r where
  remote: "ph t = Idle \<Longrightarrow>
     merge_step r \<lparr>app = a, phases = ph\<rparr>
       \<lparr>app = a\<lparr>inner := todo_merge (inner a) r\<rparr>, phases = ph(t := Notified)\<rparr>"

inductive task_step ::
  "(server_message \<Rightarrow> rust_string option) \<Rightarrow> server_sys \<Rightarrow> server_sys \<Rightarrow> bool" for to_json where
  notify: "ph t = Mutated \<Longrightarrow>
     task_step to_json \<lparr>app = a, phases = ph\<rparr> \<lparr>app = notify_sync a, phases = ph(t := Notified)\<rparr>"
| read: "ph t = Notified \<Longrightarrow>
     task_step to_json \<lparr>app = a, phases = ph\<rparr>
       \<lparr>app = a, phases = ph(t := Holding (to_json (snapshot (inner a))))\<rparr>"
| send: "ph t = Holding j \<Longrightarrow>
     task_step to_json \<lparr>app = a, phases = ph\<rparr> \<lparr>app = send_ws j a, phases = ph(t := Idle)\<rparr>"

inductive server_step ::
  "build \<Rightarrow> (server_message \<Rightarrow> rust_string option) \<Rightarrow> server_sys \<Rightarrow> server_sys \<Rightarrow> bool" for b to_json where
  edit: "edit_step b m x y \<Longrightarrow> server_step b to_json x y"
| merge: "merge_step r x y \<Longrightarrow> server_step b to_json x y"
| task: "task_step to_json x y \<Longrightarrow> server_step b to_json x y"

lemmas server_step_rules = edit_step.mutate [THEN server_step.edit] edit_step.panics [THEN server_step.edit]
  merge_step.remote [THEN server_step.merge] task_step.notify [THEN server_step.task]
  task_step.read [THEN server_step.task] task_step.send [THEN server_step.task]

lemmas server_mutate = server_step_rules(1) and server_remote = server_step_rules(3) and
  server_notify = server_step_rules(4) and server_read = server_step_rules(5) and
  server_send = server_step_rules(6)

lemma server_step_induct [consumes 1, case_names mutate panics remote notify read send]:
  assumes "server_step b to_json x y"
    and "\<And>ph t m a s'. ph t = Idle \<Longrightarrow> todo_apply b m (inner a) = (Inr (), s') \<Longrightarrow>
      P \<lparr>app = a, phases = ph\<rparr> \<lparr>app = a\<lparr>inner := s'\<rparr>, phases = ph(t := Mutated)\<rparr>"
    and "\<And>ph t m a e s'. ph t = Idle \<Longrightarrow> todo_apply b m (inner a) = (Inl e, s') \<Longrightarrow>
      P \<lparr>app = a, phases = ph\<rparr> \<lparr>app = a\<lparr>inner := s'\<rparr>, phases = ph\<rparr>"
    and "\<And>ph t a r. ph t = Idle \<Longrightarrow>
      P \<lparr>app = a, phases = ph\<rparr> \<lparr>app = a\<lparr>inner := todo_merge (inner a) r\<rparr>, phases = ph(t := Notified)\<rparr>"
    and "\<And>ph t a. ph t = Mutated \<Longrightarrow>
      P \<lparr>app = a, phases = ph\<rparr> \<lparr>app = notify_sync a, phases = ph(t := Notified)\<rparr>"
    and "\<And>ph t a. ph t = Notified \<Longrightarrow>
      P \<lparr>app = a, phases = ph\<rparr> \<lparr>app = a, phases = ph(t := Holding (to_json (snapshot (inner a))))\<rparr>"
    and "\<And>ph t j a. ph t = Holding j \<Longrightarrow>
      P \<lparr>app = a, phases = ph\<rparr> \<lparr>app = send_ws j a, phases = ph(t := Idle)\<rparr>"
  shows "P x y"
  using assms(1) by cases (auto elim!: edit_step.cases merge_step.cases task_step.cases intro: assms(2-))

abbreviation server_steps where
  "server_steps b to_json \<equiv> (server_step b to_json)\<^sup>*\<^sup>*"

abbreviation all_idle :: "nat \<Rightarrow> phase" where
  "all_idle \<equiv> \<lambda>_. Idle"

lemma steps_trans:
  "server_step b to_json x y \<Longrightarrow> server_steps b to_json y z \<Longrightarrow> server_steps b to_json x z"
  by (rule converse_rtranclp_into_rtranclp)

lemma send_ws_frame [simp]:
  "inner (send_ws j a) = inner a" "sync_notify (send_ws j a) = sync_notify a"
  "inner (notify_sync a) = inner a" "ws_sent (notify_sync a) = ws_sent a"
  by (auto simp: send_ws_def notify_sync_def split: option.split)

lemma ws_sent_send [simp]:
  "ws_sent (send_ws j a) = ws_sent a @ (case j of None \<Rightarrow> [] | Some x \<Rightarrow> [x])"
  by (auto simp: send_ws_def split: option.split)

text \<open>\<open>shown n\<close>: the list that a browser should see now has been broadcast after the first \<open>n\<close> messages, or
  is about to be.\<close>

definition fresh_json :: "(server_message \<Rightarrow> rust_string option) \<Rightarrow> todo_state \<Rightarrow> rust_string option \<Rightarrow> bool" where
  "fresh_json to_json s j \<longleftrightarrow>
     (\<exists>s'. j = to_json (snapshot s') \<and> snapshot_todos s' = snapshot_todos s)"

definition shown :: "(server_message \<Rightarrow> rust_string option) \<Rightarrow> nat \<Rightarrow> server_sys \<Rightarrow> bool" where
  "shown to_json n x \<longleftrightarrow>
     n \<le> length (ws_sent (app x)) \<and>
     ((\<exists>j\<in>set (drop n (ws_sent (app x))). fresh_json to_json (inner (app x)) (Some j)) \<or>
      (\<exists>t. phases x t \<in> {Mutated, Notified} \<or>
         (\<exists>j. phases x t = Holding j \<and> fresh_json to_json (inner (app x)) j)))"

lemma fresh_json_same:
  "snapshot_todos s = snapshot_todos s' \<Longrightarrow> fresh_json to_json s j = fresh_json to_json s' j"
  by (simp add: fresh_json_def)

lemma fresh_json_now: "fresh_json to_json s (to_json (snapshot s))"
  by (auto simp: fresh_json_def)

end
