(* ===== verification/ServerProps.thy ===== *)
theory ServerProps
  imports Server TodoProps
begin

section \<open>Properties of the web server\<close>

text \<open>
  What a browser is told: the effect of one client message, the life of one socket, and the broadcasts of tasks
  that run side by side, where no update is lost but two broadcasts can overtake each other; and the task
  that forwards remote updates, which does not survive its first missed notification.
\<close>

subsection \<open>Lemmas\<close>

lemma panic_keeps_todos:
  "todo_apply b m s = (Inl e, s') \<Longrightarrow> snapshot_todos s' = snapshot_todos s"
  by (cases m) (auto simp: todo_op_eqs snapshot_todos_ticked split: if_splits)

lemma shown_step:
  assumes "server_step b to_json x y" "\<forall>m. to_json m \<noteq> None" "shown to_json n x"
  shows "shown to_json n y"
  using assms
proof (induction rule: server_step_induct)
  case (panics ph t m a e s')
  have "snapshot_todos s' = snapshot_todos (inner a)" using panics(2) by (rule panic_keeps_todos)
  from this fresh_json_same [OF this] panics(4) show ?case by (simp add: shown_def)
next
  case (read ph t a)
  have "fresh_json to_json (inner a) (to_json (snapshot (inner a)))" by (rule fresh_json_now)
  then show ?case using read(3) by (auto simp: shown_def)
next
  case (send ph t j a)
  have total: "fresh_json to_json s j' \<Longrightarrow> j' \<noteq> None" for s j' using send(2) by (auto simp: fresh_json_def)
  have n: "n \<le> length (ws_sent a)" using send(3) by (simp add: shown_def)
  from send(3) consider (sent) x where "x \<in> set (drop n (ws_sent a))" "fresh_json to_json (inner a) (Some x)"
    | (thread) u where "ph u \<in> {Mutated, Notified}"
    | (held) u j' where "ph u = Holding j'" "fresh_json to_json (inner a) j'"
    by (auto simp: shown_def)
  then show ?case
  proof cases
    case (held u j')
    then show ?thesis
    proof (cases "u = t")
      case True
      then have "j' = j" using held send(1) by simp
      then obtain x where "j = Some x" using total [OF held(2)] by auto
      then show ?thesis using held \<open>j' = j\<close> n by (simp add: shown_def)
    qed (use held n in \<open>auto simp: shown_def\<close>)
  next
    case (thread u)
    then have "u \<noteq> t" using send(1) by auto
    then show ?thesis using thread n by (auto simp: shown_def)
  qed (use n in \<open>auto simp: shown_def\<close>)
qed (auto simp: shown_def)

lemma shown_steps:
  "server_steps b to_json x y \<Longrightarrow> \<forall>m. to_json m \<noteq> None \<Longrightarrow> shown to_json n x \<Longrightarrow> shown to_json n y"
  by (induction rule: rtranclp_induct) (auto intro: shown_step)

text \<open>The messages a socket hands to its browser, and the client messages it accepts.\<close>

definition outgoing_jsons :: "socket_event list \<Rightarrow> rust_string list" where
  "outgoing_jsons es = List.map_filter (\<lambda>e. case e of Outgoing (Received j) ok \<Rightarrow> Some j | _ \<Rightarrow> None) es"

definition accepted ::
  "(rust_string \<Rightarrow> client_message option) \<Rightarrow> socket_event list \<Rightarrow> client_message list" where
  "accepted from_json es =
     List.map_filter (\<lambda>e. case e of Incoming (Message (Text t)) \<Rightarrow> from_json t | _ \<Rightarrow> None) es"

lemma outgoing_jsons_simps [simp]:
  "outgoing_jsons [] = []"
  "outgoing_jsons (e # es) =
     (case e of Outgoing (Received j) ok \<Rightarrow> j # outgoing_jsons es | _ \<Rightarrow> outgoing_jsons es)"
  by (auto simp: outgoing_jsons_def map_filter_simps split: socket_event.split recv.split)

lemma accepted_simps [simp]:
  "accepted from_json [] = []"
  "accepted from_json (e # es) =
     (case e of Incoming (Message (Text t)) \<Rightarrow>
        (case from_json t of None \<Rightarrow> accepted from_json es | Some m \<Rightarrow> m # accepted from_json es)
      | _ \<Rightarrow> accepted from_json es)"
  by (auto simp: accepted_def map_filter_simps split: socket_event.split ws_input.split ws_message.split
      option.split)

lemma apply_and_broadcast_inner:
  "inner (snd (apply_and_broadcast b to_json m a)) = snd (todo_apply b m (inner a))"
  by (auto simp: apply_and_broadcast_def broadcast_snapshot_def split: prod.split sum.split)

lemma recv_step_inner:
  "inner (snd (recv_step b to_json from_json x a)) =
     (case x of Message (Text t) \<Rightarrow>
        (case from_json t of None \<Rightarrow> inner a | Some m \<Rightarrow> snd (todo_apply b m (inner a)))
      | _ \<Rightarrow> inner a)"
  using apply_and_broadcast_inner [of b to_json _ a]
  by (auto simp: recv_step_def split: ws_input.split ws_message.split option.split prod.split sum.split)
    (metis snd_conv)+

lemma socket_loop_out:
  "\<exists>k. fst (snd (socket_loop b to_json from_json es out a)) = out @ take k (outgoing_jsons es) \<and>
     (fst (socket_loop b to_json from_json es out a) \<longrightarrow> k = length (outgoing_jsons es))"
proof (induction es arbitrary: out a)
  case (Cons e es)
  show ?case
  proof (cases e)
    case (Incoming x)
    obtain d a' where "recv_step b to_json from_json x a = (d, a')" by (cases "recv_step b to_json from_json x a")
    then show ?thesis using Cons.IH [of out a'] Incoming
      by (cases d) (auto intro: exI [of _ 0] split: ws_input.split)
  next
    case (Outgoing r ok)
    show ?thesis
    proof (cases "\<exists>j. r = Received j \<and> ok")
      case True
      then obtain j where r: "r = Received j" "ok" by blast
      obtain k where "fst (snd (socket_loop b to_json from_json es (out @ [j]) a)) =
          (out @ [j]) @ take k (outgoing_jsons es)"
        "fst (socket_loop b to_json from_json es (out @ [j]) a) \<longrightarrow> k = length (outgoing_jsons es)"
        using Cons.IH by blast
      then show ?thesis using Outgoing r by (intro exI [of _ "Suc k"]) (simp add: send_step_def)
    next
      case False
      then show ?thesis using Outgoing
        by (intro exI [of _ 0]) (auto simp: send_step_def split: recv.splits)
    qed
  next
    case (Elsewhere f)
    then show ?thesis using Cons.IH [of out "f a"] by simp
  qed
qed simp

lemma socket_loop_inner:
  assumes "\<forall>e\<in>set es. \<forall>f. e \<noteq> Elsewhere f"
  shows "\<exists>k. inner (snd (snd (socket_loop b to_json from_json es out a))) =
      todo_run b (map Local (take k (accepted from_json es))) (inner a) \<and>
    (fst (socket_loop b to_json from_json es out a) \<longrightarrow> k = length (accepted from_json es))"
  using assms
proof (induction es arbitrary: out a)
  case (Cons e es)
  show ?case
  proof (cases e)
    case (Incoming x)
    obtain d a' where step: "recv_step b to_json from_json x a = (d, a')"
      by (cases "recv_step b to_json from_json x a")
    obtain k where k: "inner (snd (snd (socket_loop b to_json from_json es out a'))) =
        todo_run b (map Local (take k (accepted from_json es))) (inner a')"
      "fst (socket_loop b to_json from_json es out a') \<longrightarrow> k = length (accepted from_json es)"
      using Cons.IH [of out a'] Cons.prems by auto
    show ?thesis
    proof (cases "\<exists>t m. x = Message (Text t) \<and> from_json t = Some m")
      case True
      then obtain t m where x: "x = Message (Text t)" "from_json t = Some m" by blast
      then have "inner a' = snd (todo_apply b m (inner a))"
        using recv_step_inner [of b to_json from_json x a] step by simp
      then show ?thesis using Incoming step k x
        by (cases d) (auto intro: exI [of _ "Suc 0"] exI [of _ "Suc k"])
    next
      case False
      then have "inner a' = inner a"
        using recv_step_inner [of b to_json from_json x a] step
        by (cases x) (auto split: ws_message.splits option.splits)
      moreover have "accepted from_json (e # es) = accepted from_json es"
        using False Incoming by (auto split: ws_input.split ws_message.split option.split)
      ultimately show ?thesis using Incoming step k
        by (cases d) (auto simp del: accepted_simps(2) intro: exI [of _ 0])
    qed
  next
    case (Outgoing r ok)
    obtain d out' where "send_step r ok out = (d, out')" by (cases "send_step r ok out")
    then show ?thesis using Cons.IH [of out' a] Cons.prems Outgoing
      by (cases d) (auto intro: exI [of _ 0])
  qed (use Cons.prems in auto)
qed simp

lemma apply_and_broadcast_steps:
  assumes idle: "ph t = Idle" and ok: "todo_apply b m (inner a) = (Inr (), s')"
  shows "server_steps b to_json \<lparr>app = a, phases = ph\<rparr>
    \<lparr>app = snd (apply_and_broadcast b to_json m a), phases = ph\<rparr>"
proof -
  let ?a1 = "a\<lparr>inner := s'\<rparr>"
  let ?a2 = "notify_sync ?a1"
  let ?json = "to_json (snapshot (inner ?a2))"
  have 1: "server_step b to_json \<lparr>app = a, phases = ph\<rparr> \<lparr>app = ?a1, phases = ph(t := Mutated)\<rparr>"
    using idle ok by (rule server_mutate)
  have 2: "server_step b to_json \<lparr>app = ?a1, phases = ph(t := Mutated)\<rparr>
      \<lparr>app = ?a2, phases = ph(t := Notified)\<rparr>"
    using server_notify [of "ph(t := Mutated)" t b to_json ?a1] by simp
  have 3: "server_step b to_json \<lparr>app = ?a2, phases = ph(t := Notified)\<rparr>
      \<lparr>app = ?a2, phases = ph(t := Holding ?json)\<rparr>"
    using server_read [of "ph(t := Notified)" t b to_json ?a2] by simp
  have "ph(t := Idle) = ph" using idle by auto
  then have 4: "server_step b to_json \<lparr>app = ?a2, phases = ph(t := Holding ?json)\<rparr>
      \<lparr>app = send_ws ?json ?a2, phases = ph\<rparr>"
    using server_send [of "ph(t := Holding ?json)" t ?json b to_json ?a2]
    by (simp del: send_ws_frame)
  have "send_ws ?json ?a2 = snd (apply_and_broadcast b to_json m a)"
    by (simp add: apply_and_broadcast_def ok broadcast_snapshot_def)
  with 1 2 3 4 show ?thesis by (metis (no_types, lifting) steps_trans rtranclp.rtrancl_refl)
qed

subsection \<open>Properties\<close>

text \<open>C20. A client message, once applied, is told to everybody: one notification goes to the sync layer if it is
  attached, and one broadcast, the snapshot of the new state, to the browsers; and this is a run of the
  interleaving model by one task alone. If applying it panics nothing is sent and the list is as before.\<close>

theorem apply_and_broadcast_tells:
  "case todo_apply b m (inner a) of
     (Inl e, s') \<Rightarrow> apply_and_broadcast b to_json m a = (Inl e, a\<lparr>inner := s'\<rparr>) \<and>
       snapshot_todos s' = snapshot_todos (inner a)
   | (Inr _, s') \<Rightarrow> (\<exists>a'. apply_and_broadcast b to_json m a = (Inr (), a') \<and> inner a' = s' \<and>
       sync_notify a' = map_option Suc (sync_notify a) \<and>
       ws_sent a' = ws_sent a @ (case to_json (snapshot s') of None \<Rightarrow> [] | Some j \<Rightarrow> [j]) \<and>
       server_steps b to_json \<lparr>app = a, phases = all_idle\<rparr> \<lparr>app = a', phases = all_idle\<rparr>)"
proof (cases "todo_apply b m (inner a)")
  case (Pair r s')
  show ?thesis
  proof (cases r)
    case (Inl e)
    then show ?thesis using Pair panic_keeps_todos [of b m "inner a" e s']
      by (simp add: apply_and_broadcast_def)
  next
    case (Inr u)
    define a' where "a' = snd (apply_and_broadcast b to_json m a)"
    have ok: "todo_apply b m (inner a) = (Inr (), s')" using Pair Inr by simp
    then have steps: "server_steps b to_json \<lparr>app = a, phases = all_idle\<rparr> \<lparr>app = a', phases = all_idle\<rparr>"
      using apply_and_broadcast_steps [of all_idle 0 b m a s' to_json] by (simp add: a'_def)
    have eq: "apply_and_broadcast b to_json m a = (Inr (), a')"
      "a' = broadcast_snapshot to_json (notify_sync (a\<lparr>inner := s'\<rparr>))"
      by (simp_all add: a'_def apply_and_broadcast_def ok)
    have "inner a' = s'" "ws_sent a' = ws_sent a @ (case to_json (snapshot s') of None \<Rightarrow> [] | Some j \<Rightarrow> [j])"
      "sync_notify a' = map_option Suc (sync_notify a)"
      by (simp_all add: eq(2) broadcast_snapshot_def) (simp add: notify_sync_def)
    with eq(1) steps show ?thesis by (simp add: ok)
  qed
qed



text \<open>C21. But two broadcasts can overtake each other. Whatever two messages are applied one after the other by two
  tasks, there is an interleaving after which all tasks are at rest and the snapshot broadcast last, which
  is what every browser shows, is that of the state before the second message.\<close>

theorem broadcasts_overtake:
  assumes first: "todo_apply b m1 (inner a) = (Inr (), s1)" and second: "todo_apply b m2 s1 = (Inr (), s2)"
    and json: "to_json (snapshot s1) = Some j1" "to_json (snapshot s2) = Some j2"
  shows "\<exists>a'. server_steps b to_json \<lparr>app = a, phases = all_idle\<rparr> \<lparr>app = a', phases = all_idle\<rparr> \<and>
    inner a' = s2 \<and> ws_sent a' = ws_sent a @ [j2, j1]"
proof -
  let ?a1 = "a\<lparr>inner := s1\<rparr>"
  let ?a2 = "notify_sync ?a1"
  let ?held = "all_idle(0 := Holding (Some j1))"
  let ?a3 = "snd (apply_and_broadcast b to_json m2 ?a2)"
  let ?a4 = "send_ws (Some j1) ?a3"
  have "server_step b to_json \<lparr>app = a, phases = all_idle\<rparr> \<lparr>app = ?a1, phases = all_idle(0 := Mutated)\<rparr>"
    using first by (intro server_mutate) simp_all
  moreover have "server_step b to_json \<lparr>app = ?a1, phases = all_idle(0 := Mutated)\<rparr>
      \<lparr>app = ?a2, phases = all_idle(0 := Notified)\<rparr>"
    using server_notify [of "all_idle(0 := Mutated)" 0 b to_json ?a1] by simp
  moreover have "server_step b to_json \<lparr>app = ?a2, phases = all_idle(0 := Notified)\<rparr>
      \<lparr>app = ?a2, phases = ?held\<rparr>"
    using server_read [of "all_idle(0 := Notified)" 0 b to_json ?a2] by (simp add: json)
  moreover have "server_steps b to_json \<lparr>app = ?a2, phases = ?held\<rparr> \<lparr>app = ?a3, phases = ?held\<rparr>"
    using second by (intro apply_and_broadcast_steps [of _ 1]) simp_all
  moreover have "server_step b to_json \<lparr>app = ?a3, phases = ?held\<rparr> \<lparr>app = ?a4, phases = all_idle\<rparr>"
  proof -
    have "?held(0 := Idle) = all_idle" by auto
    with server_send [of ?held 0 "Some j1" b to_json ?a3] show ?thesis by simp
  qed
  ultimately have "server_steps b to_json \<lparr>app = a, phases = all_idle\<rparr> \<lparr>app = ?a4, phases = all_idle\<rparr>"
    by (meson steps_trans rtranclp.rtrancl_into_rtrancl)
  moreover have "inner ?a4 = s2" using apply_and_broadcast_inner [of b to_json m2 ?a2] second by simp
  moreover have "ws_sent ?a4 = ws_sent a @ [j2, j1]"
    using second json by (simp add: apply_and_broadcast_def broadcast_snapshot_def)
  ultimately show ?thesis by blast
qed

text \<open>For the witness: snapshots printed as their number of items.\<close>

fun count_json :: "server_message \<Rightarrow> rust_string option" where
  "count_json (Snapshot me ps) = Some (map (\<lambda>p. length (snap_todos p)) ps)"

lemma count_json_snapshot: "count_json (snapshot s) = Some [length (snapshot_todos s)]"
  by (simp add: snapshot_def)

lemma add_shows_one_more:
  assumes "can_tick b s" "can_number b s" "todo_wf s" "fresh_id s \<notin> gs_view (added s)" "trim x \<noteq> []"
  shows "todo_apply b (Add x) s = (Inr (), with_item b (trim x) s)"
    "length (snapshot_todos (with_item b (trim x) s)) = Suc (length (snapshot_todos s))"
  using assms snapshot_add [OF assms(4,3), of b "trim x"] by (simp_all add: todo_add_eq)

theorem broadcasts_overtake_witness:
  "\<exists>a' s2. server_steps Release count_json
      \<lparr>app = app_new (todo_new [65] 1), phases = all_idle\<rparr> \<lparr>app = a', phases = all_idle\<rparr> \<and>
    length (snapshot_todos (inner a')) = 2 \<and> ws_sent a' = [[2], [1]]"
proof -
  let ?s0 = "todo_new [65] 1"
  let ?s1 = "with_item Release (trim [66]) ?s0"
  let ?s2 = "with_item Release (trim [67]) ?s1"
  have x: "trim [66] \<noteq> []" "trim [67] \<noteq> []" by (simp_all add: trim_def is_whitespace_def)
  have s0: "fresh_id ?s0 \<notin> gs_view (added ?s0)" "todo_wf ?s0" "snapshot_todos ?s0 = []"
    by (simp_all add: todo_wf_new) (simp add: snapshot_todos_def todo_new_def gs_iter_def gs_new_def
        hs_iter_def hs_new_def)
  note one = add_shows_one_more [OF can_tick_new can_number_new s0(2,1) x(1), of Release]
  have "todo_wf ?s1"
    using todo_wf_step [OF todo_apply_step s0(2), of Release "Add [66]"] one(1) by simp
  moreover have "fresh_id ?s1 \<notin> gs_view (added ?s1)"
    by (simp add: view_simps fresh_id_def word_unat_eq_iff)
  moreover have "can_tick Release ?s1" "can_number Release ?s1"
    by (simp_all add: can_tick_def can_number_def)
  ultimately have two: "todo_apply Release (Add [67]) ?s1 = (Inr (), ?s2)"
    "length (snapshot_todos ?s2) = Suc (length (snapshot_todos ?s1))"
    using x(2) by (blast intro: add_shows_one_more)+
  have "todo_apply Release (Add [66]) (inner (app_new ?s0)) = (Inr (), ?s1)"
    using one(1) by (simp add: app_new_def)
  from broadcasts_overtake [where to_json = count_json, OF this two(1) count_json_snapshot count_json_snapshot] show ?thesis
    using one(2) two(2) s0(3) by (auto simp: app_new_def numeral_2_eq_2)
qed




lemma forward_all:
  "\<forall>(r, s)\<in>set rs. r = Received () \<Longrightarrow>
   ws_sent (forward_updates to_json rs a) =
     ws_sent a @ List.map_filter (\<lambda>(r, s). to_json (snapshot s)) rs"
  by (induction rs arbitrary: a) (auto simp: broadcast_snapshot_def map_filter_simps split: option.split)

text \<open>C38. The task that forwards remote updates to the browsers broadcasts one snapshot per notification, and
  stops for good at the first notification it missed because it had fallen behind: nothing that
  the sync layer merges later is broadcast by it.\<close>

theorem forwarding_stops_when_lagged:
  "forward_updates to_json (map (Pair (Received ())) ss @ (Lagged, s) # rest) a =
     forward_updates to_json (map (Pair (Received ())) ss) a \<and>
   ws_sent (forward_updates to_json (map (Pair (Received ())) ss @ (Lagged, s) # rest) a) =
     ws_sent a @ List.map_filter (\<lambda>s. to_json (snapshot s)) ss"
proof -
  have "forward_updates to_json (map (Pair (Received ())) ss @ (Lagged, s) # rest) a =
     forward_updates to_json (map (Pair (Received ())) ss) a"
    by (induction ss arbitrary: a) simp_all
  moreover have "List.map_filter (\<lambda>(r, s). to_json (snapshot s)) (map (Pair (Received ())) ss) =
      List.map_filter (\<lambda>s. to_json (snapshot s)) ss"
    by (induction ss) (simp_all add: map_filter_simps split: option.split)
  ultimately show ?thesis using forward_all [of "map (Pair (Received ())) ss" to_json a] by auto
qed

end
