(* ===== verification/System.thy ===== *)
theory System
  imports Settling ServerProps
begin

section \<open>The whole system: browsers, tasks and network together\<close>

text \<open>
  Every server of the network with the tasks that serve its browsers (\<open>server_sys\<close>), joined by the states in transit.
  What a task does is a step of its server (\<open>edit_step\<close>, \<open>task_step\<close>); the sync layer pushes the serialised state of a
  server, and merging what arrives wakes the task that broadcasts to the browsers (\<open>merge_step\<close>). Forgetting the tasks
  and the broadcasts gives a network of \<open>Cluster\<close>, so everything proved there holds for the whole system; what is
  added is that the browsers are told.
\<close>

record system =
  servers :: "nat \<Rightarrow> server_sys"
  wires :: "nat \<Rightarrow> nat \<Rightarrow> todo_state list"

abbreviation state_of :: "system \<Rightarrow> nat \<Rightarrow> todo_state" where
  "state_of y i \<equiv> inner (app (servers y i))"

abbreviation sent_by :: "system \<Rightarrow> nat \<Rightarrow> rust_string list" where
  "sent_by y i \<equiv> ws_sent (app (servers y i))"

definition system_init :: "(nat \<Rightarrow> rust_string) \<Rightarrow> (nat \<Rightarrow> replica_id) \<Rightarrow> system" where
  "system_init name rid =
     \<lparr>servers = (\<lambda>i. \<lparr>app = with_sync_notifier (app_new (todo_new (name i) (rid i))), phases = all_idle\<rparr>),
      wires = (\<lambda>_ _. [])\<rparr>"

definition set_server :: "nat \<Rightarrow> server_sys \<Rightarrow> system \<Rightarrow> system" where
  "set_server i x y = y\<lparr>servers := (servers y)(i := x)\<rparr>"

definition set_wire :: "nat \<Rightarrow> nat \<Rightarrow> todo_state list \<Rightarrow> system \<Rightarrow> system" where
  "set_wire i j ss y = y\<lparr>wires := (wires y)(i := (wires y i)(j := ss))\<rparr>"

text \<open>The steps that no browser causes.\<close>

inductive quiet_step ::
  "(server_message \<Rightarrow> rust_string option) \<Rightarrow> (nat \<times> nat) set \<Rightarrow> system \<Rightarrow> system \<Rightarrow> bool" for to_json peers where
  task: "task_step to_json (servers y i) x \<Longrightarrow> quiet_step to_json peers y (set_server i x y)"
| push: "(i, j) \<in> peers \<Longrightarrow>
     quiet_step to_json peers y (set_wire i j (wires y i j @ [todo_wire (state_of y i)]) y)"
| deliver: "wires y i j = s # ss \<Longrightarrow> merge_step s (servers y j) x \<Longrightarrow>
     quiet_step to_json peers y (set_wire i j ss (set_server j x y))"
| disconnect: "quiet_step to_json peers y (set_wire i j [] y)"

inductive system_step ::
  "build \<Rightarrow> (server_message \<Rightarrow> rust_string option) \<Rightarrow> (nat \<times> nat) set \<Rightarrow> system \<Rightarrow> system \<Rightarrow> bool"
  for b to_json peers where
  edit: "edit_step b m (servers y i) x \<Longrightarrow> system_step b to_json peers y (set_server i x y)"
| quiet: "quiet_step to_json peers y y' \<Longrightarrow> system_step b to_json peers y y'"

subsection \<open>It refines the network\<close>

definition network_of :: "system \<Rightarrow> cluster" where
  "network_of y = \<lparr>nodes = (\<lambda>i. state_of y i), links = wires y\<rparr>"

lemma network_of_simps [simp]:
  "nodes (network_of y) = (\<lambda>i. state_of y i)" "links (network_of y) = wires y"
  by (simp_all add: network_of_def)

lemma network_of_server [simp]:
  "network_of (set_server i x y) = (network_of y)\<lparr>nodes := (nodes (network_of y))(i := inner (app x))\<rparr>"
  by (auto simp: network_of_def set_server_def fun_eq_iff)

lemma network_of_wire [simp]: "network_of (set_wire i j ss y) = set_link i j ss (network_of y)"
  by (simp add: network_of_def set_wire_def set_link_def)

lemma edit_step_inner: "edit_step b m x x' \<Longrightarrow> inner (app x') = snd (todo_apply b m (inner (app x)))"
  by (auto elim!: edit_step.cases)

lemma merge_step_inner: "merge_step r x x' \<Longrightarrow> inner (app x') = todo_merge (inner (app x)) r"
  by (auto elim!: merge_step.cases)

lemma task_step_inner: "task_step to_json x x' \<Longrightarrow> inner (app x') = inner (app x)"
  by (auto elim!: task_step.cases)

lemma network_of_init: "network_of (system_init name rid) = cluster_init name rid"
  by (simp add: network_of_def system_init_def cluster_init_def app_new_def with_sync_notifier_def)

lemma quiet_step_sync: "quiet_step to_json peers y y' \<Longrightarrow> sync_step peers (network_of y) (network_of y')"
proof (induction rule: quiet_step.induct)
  case (task y i x)
  then have "network_of (set_server i x y) = network_of y"
    by (auto simp: network_of_def set_server_def task_step_inner)
  then show ?case by (simp only: sync_step.stutter)
next
  case (push i j y)
  then show ?case using sync_step.push [OF push, of "network_of y"] by simp
next
  case (deliver y i j s ss x)
  then have "links (network_of y) i j = s # ss" by simp
  from sync_step.deliver [OF this, of peers] show ?case by (simp add: merge_step_inner [OF deliver(2)])
next
  case (disconnect y i j)
  then show ?case using sync_step.disconnect [of peers "network_of y" i j] by simp
qed

lemma system_step_network:
  assumes "system_step b to_json peers y y'"
  shows "network_of y' = network_of y \<or> cluster_step b peers (network_of y) (network_of y')"
  using assms
proof cases
  case (edit m i x)
  then have "network_of y' = (network_of y)\<lparr>nodes := (nodes (network_of y))(i :=
      snd (todo_apply b m (nodes (network_of y) i)))\<rparr>"
    using edit_step_inner [OF edit(2)] by simp
  then show ?thesis using cluster_step.client by metis
next
  case quiet
  then show ?thesis by (intro sync_step_cluster quiet_step_sync)
qed

lemma system_run_network:
  "(system_step b to_json peers ^^ n) (system_init name rid) y \<Longrightarrow>
   \<exists>m\<le>n. cluster_run b peers name rid m (network_of y)"
proof (induction n arbitrary: y)
  case 0
  then show ?case using cluster_run.start by (auto simp: network_of_init)
next
  case (Suc n)
  then obtain x where "(system_step b to_json peers ^^ n) (system_init name rid) x"
    and step: "system_step b to_json peers x y" by auto
  with Suc.IH obtain m where "m \<le> n" "cluster_run b peers name rid m (network_of x)" by blast
  then show ?case using system_step_network [OF step] cluster_run.step le_SucI Suc_le_mono by metis
qed

subsection \<open>What a server does while nothing is edited\<close>

lemma quiet_step_server:
  assumes "quiet_step to_json peers y y'"
  shows "servers y' i = servers y i \<or> server_step b to_json (servers y i) (servers y' i)"
  using assms by cases (auto simp: set_server_def set_wire_def intro: server_step.intros)

text \<open>A list that changes has been changed by a merge, which wakes a task.\<close>

lemma quiet_step_notifies:
  assumes "quiet_step to_json peers y y'" "state_of y' i \<noteq> state_of y i"
  shows "\<exists>t. phases (servers y' i) t = Notified"
  using assms(1)
proof cases
  case (task k x)
  then show ?thesis using assms(2) task_step_inner [OF task(2)] by (auto simp: set_server_def split: if_splits)
next
  case (deliver k j s ss x)
  then have "servers y' i = (if i = j then x else servers y i)" by (simp add: set_server_def set_wire_def)
  then have "i = j" "servers y' i = x" using assms(2) by (auto split: if_splits)
  then show ?thesis using deliver(3) by (auto elim!: merge_step.cases)
qed (use assms(2) in \<open>simp_all add: set_wire_def\<close>)

lemma server_step_sent: "server_step b to_json x y \<Longrightarrow> \<exists>js. ws_sent (app y) = ws_sent (app x) @ js"
  by (induction rule: server_step_induct) auto

definition quiet_run ::
  "(server_message \<Rightarrow> rust_string option) \<Rightarrow> (nat \<times> nat) set \<Rightarrow> (nat \<Rightarrow> system) \<Rightarrow> bool" where
  "quiet_run to_json peers f \<longleftrightarrow> (\<forall>k. quiet_step to_json peers (f k) (f (Suc k)))"

lemma quiet_run_sync: "quiet_run to_json peers f \<Longrightarrow> sync_execution peers (\<lambda>k. network_of (f k))"
  using quiet_step_sync unfolding quiet_run_def sync_execution_def by blast

lemma quiet_run_steps:
  assumes "quiet_run to_json peers f"
  shows "k \<le> l \<Longrightarrow> server_steps b to_json (servers (f k) i) (servers (f l) i)"
proof (induction l rule: dec_induct)
  case (step l)
  have "quiet_step to_json peers (f l) (f (Suc l))" using assms by (simp add: quiet_run_def)
  from quiet_step_server [OF this, of i b] step.IH show ?case
    by (metis rtranclp.rtrancl_into_rtrancl)
qed simp

lemma server_steps_sent: "server_steps b to_json x y \<Longrightarrow> \<exists>js. ws_sent (app y) = ws_sent (app x) @ js"
proof (induction rule: rtranclp_induct)
  case (step y z)
  then show ?case using server_step_sent [OF step.hyps(2)] by force
qed simp

lemma quiet_run_sent:
  assumes "quiet_run to_json peers f" "k \<le> l"
  shows "length (sent_by (f k) i) \<le> length (sent_by (f l) i)"
    and "set (drop n (sent_by (f k) i)) \<subseteq> set (drop n (sent_by (f l) i))"
  using server_steps_sent [OF quiet_run_steps [OF assms, of Debug i]] by auto

text \<open>If the state of a server changes after step \<open>k\<close>, or a task had something to tell then, at every later rest of its
  tasks the list it then has was broadcast since.\<close>

definition untold :: "server_sys \<Rightarrow> bool" where
  "untold x \<longleftrightarrow> (\<exists>t. phases x t \<in> {Mutated, Notified})"

lemma quiet_run_tells:
  assumes run: "quiet_run to_json peers f" and total: "\<forall>m. to_json m \<noteq> None"
    and changed: "k \<le> l" "state_of (f l) i \<noteq> state_of (f k) i \<or> untold (servers (f k) i)" and rest: "\<forall>t. phases (servers (f l) i) t = Idle"
  shows "\<exists>j\<in>set (drop (length (sent_by (f k) i)) (sent_by (f l) i)).
    \<exists>s. to_json (snapshot s) = Some j \<and> snapshot_todos s = snapshot_todos (state_of (f l) i)"
proof -
  let ?n = "length (sent_by (f k) i)"
  obtain m where m: "k \<le> m" "m \<le> l" "untold (servers (f m) i)"
  proof (cases "untold (servers (f k) i)")
    case False
    then have "state_of (f l) i \<noteq> state_of (f k) i" using changed(2) by blast
    from changed(1) this have "\<exists>m\<ge>k. m < l \<and> state_of (f (Suc m)) i \<noteq> state_of (f m) i"
    proof (induction l rule: dec_induct)
      case (step l)
      then show ?case by (cases "state_of (f l) i = state_of (f k) i") (auto intro: less_SucI)
    qed simp
    then obtain m where m: "k \<le> m" "m < l" "state_of (f (Suc m)) i \<noteq> state_of (f m) i" by blast
    have "quiet_step to_json peers (f m) (f (Suc m))" using run by (simp add: quiet_run_def)
    then have "untold (servers (f (Suc m)) i)" using m(3) quiet_step_notifies unfolding untold_def by blast
    then show ?thesis using m by (intro that [of "Suc m"]) simp_all
  qed (use that [of k] changed(1) in simp)
  have "?n \<le> length (sent_by (f m) i)" using run m(1) by (rule quiet_run_sent(1))
  then have "shown to_json ?n (servers (f m) i)" using m(3) unfolding shown_def untold_def by blast
  moreover have "server_steps Debug to_json (servers (f m) i) (servers (f l) i)"
    using run m(2) by (rule quiet_run_steps)
  ultimately have "shown to_json ?n (servers (f l) i)" using shown_steps total by blast
  then show ?thesis using rest by (auto simp: shown_def fresh_json_def) metis
qed

subsection \<open>An execution for the witness\<close>

text \<open>Server 0 has applied an edit and notified its sync layer. Then, for ever: the task that is awake broadcasts, the
  server whose turn it is pushes, the other one merges, and so on, in turns of four steps.\<close>

definition on_turn :: "nat \<Rightarrow> nat \<times> nat" where
  "on_turn d = (if d mod 8 < 4 then (0, 1) else (1, 0))"

definition next_system :: "(server_message \<Rightarrow> rust_string option) \<Rightarrow> nat \<Rightarrow> system \<Rightarrow> system" where
  "next_system to_json d y =
     (let (i, j) = on_turn d; x = servers y j
      in if d mod 4 = 0 then set_wire i j [todo_wire (state_of y i)] y
         else if d mod 4 = 1 then
           (case wires y i j of [] \<Rightarrow> y
            | s # ss \<Rightarrow> set_wire i j ss (set_server j
                (x\<lparr>app := (app x)\<lparr>inner := todo_merge (inner (app x)) s\<rparr>, phases := (phases x)(0 := Notified)\<rparr>) y))
         else if d mod 4 = 2 then
           set_server j (x\<lparr>phases := (phases x)(0 := Holding (to_json (snapshot (inner (app x)))))\<rparr>) y
         else (case phases x 0 of
             Holding json \<Rightarrow> set_server j (x\<lparr>app := send_ws json (app x), phases := (phases x)(0 := Idle)\<rparr>) y
           | _ \<Rightarrow> y))"

definition edited :: "(server_message \<Rightarrow> rust_string option) \<Rightarrow> system" where
  "edited to_json =
     (let y = system_init dec_digits of_nat; x = servers y 0;
          a = notify_sync ((app x)\<lparr>inner := snd (todo_apply Debug (Add [66]) (inner (app x)))\<rparr>)
      in set_server 0 \<lparr>app = a, phases = all_idle(0 := Notified)\<rparr> y)"

fun system_turns :: "(server_message \<Rightarrow> rust_string option) \<Rightarrow> nat \<Rightarrow> system" where
  "system_turns to_json 0 = edited to_json"
| "system_turns to_json (Suc k) = next_system to_json (k + 6) (system_turns to_json k)"

text \<open>Before step \<open>d\<close> only the wire and the task whose turn it is are busy.\<close>

definition in_turn :: "nat \<Rightarrow> system \<Rightarrow> bool" where
  "in_turn d y \<longleftrightarrow> (let (i, j) = on_turn d in
     (\<forall>k l. length (wires y k l) = (if d mod 4 = 1 \<and> k = i \<and> l = j then 1 else 0)) \<and>
     (\<forall>k t. phases (servers y k) t \<noteq> Idle \<longrightarrow> k = j \<and> t = 0 \<and> 2 \<le> d mod 4) \<and>
     (d mod 4 = 2 \<longrightarrow> phases (servers y j) 0 = Notified) \<and>
     (d mod 4 = 3 \<longrightarrow> (\<exists>json. phases (servers y j) 0 = Holding json)))"

lemma on_turn_Suc: "d mod 4 \<noteq> 3 \<Longrightarrow> on_turn (Suc d) = on_turn d"
  unfolding on_turn_def by (rule if_cong) presburger+

lemma on_turn_cases: "on_turn d \<in> {(0, 1), (1, 0)}"
  by (simp add: on_turn_def)

lemma step_forms:
  "phases x t = Idle \<Longrightarrow> merge_step s x
     (x\<lparr>app := (app x)\<lparr>inner := todo_merge (inner (app x)) s\<rparr>, phases := (phases x)(t := Notified)\<rparr>)"
  "phases x t = Notified \<Longrightarrow> task_step to_json x
     (x\<lparr>phases := (phases x)(t := Holding (to_json (snapshot (inner (app x)))))\<rparr>)"
  "phases x t = Holding json \<Longrightarrow> task_step to_json x
     (x\<lparr>app := send_ws json (app x), phases := (phases x)(t := Idle)\<rparr>)"
  by (cases x; simp add: merge_step.remote task_step.read task_step.send)+

lemma next_system_step:
  assumes turn: "in_turn d y"
  shows "quiet_step to_json {(0, 1), (1, 0)} y (next_system to_json d y) \<and>
    in_turn (Suc d) (next_system to_json d y)"
proof -
  obtain i j where ij: "on_turn d = (i, j)" by (cases "on_turn d")
  then have peer: "(i, j) \<in> {(0, 1), (1, 0)}" and ne: "i \<noteq> j" using on_turn_cases [of d] by auto
  have wires: "length (wires y k l) = (if d mod 4 = 1 \<and> k = i \<and> l = j then 1 else 0)" for k l
    using turn ij by (simp add: in_turn_def)
  have idle: "phases (servers y k) t = Idle" if "\<not> (k = j \<and> t = 0 \<and> 2 \<le> d mod 4)" for k t
    using turn ij that by (auto simp: in_turn_def)
  have "d mod 4 < 4" by simp
  then consider "d mod 4 = 0" | "d mod 4 = 1" | "d mod 4 = 2" | "d mod 4 = 3" by linarith
  then show ?thesis
  proof cases
    case 1
    then have after: "on_turn (Suc d) = (i, j)" "Suc d mod 4 = 1" "wires y i j = []"
      using on_turn_Suc [of d] ij wires [of i j] by (simp_all add: mod_Suc)
    then have "quiet_step to_json {(0, 1), (1, 0)} y (next_system to_json d y)"
      using quiet_step.push [OF peer, of to_json y] 1 ij by (simp add: next_system_def Let_def)
    then show ?thesis using 1 ij after wires idle by (simp add: next_system_def in_turn_def Let_def set_wire_def)
  next
    case 2
    then have after: "on_turn (Suc d) = (i, j)" "Suc d mod 4 = 2" using on_turn_Suc [of d] ij by (simp_all add: mod_Suc)
    obtain s where s: "wires y i j = [s]" using wires [of i j] 2 by (auto simp: length_Suc_conv)
    have "phases (servers y j) 0 = Idle" using idle 2 by simp
    from quiet_step.deliver [OF s step_forms(1) [OF this], of to_json "{(0, 1), (1, 0)}"]
    have "quiet_step to_json {(0, 1), (1, 0)} y (next_system to_json d y)"
      using 2 ij s by (simp add: next_system_def Let_def)
    moreover have "wires y k l = []" if "k = i \<Longrightarrow> l \<noteq> j" for k l
    proof -
      have "\<not> (k = i \<and> l = j)" using that by blast
      then have "length (wires y k l) = 0" unfolding wires by simp
      then show ?thesis by simp
    qed
    ultimately show ?thesis
      using 2 ij after idle s by (simp add: next_system_def in_turn_def Let_def set_wire_def set_server_def)
  next
    case 3
    then have after: "on_turn (Suc d) = (i, j)" "Suc d mod 4 = 3" using on_turn_Suc [of d] ij by (simp_all add: mod_Suc)
    have "phases (servers y j) 0 = Notified" using turn ij 3 by (simp add: in_turn_def)
    from quiet_step.task [OF step_forms(2) [OF this], of to_json "{(0, 1), (1, 0)}"]
    have "quiet_step to_json {(0, 1), (1, 0)} y (next_system to_json d y)"
      using 3 ij by (simp add: next_system_def Let_def)
    then show ?thesis
      using 3 ij after wires idle by (simp add: next_system_def in_turn_def Let_def set_server_def)
  next
    case 4
    then have after: "Suc d mod 4 = 0" by (simp add: mod_Suc)
    obtain json where json: "phases (servers y j) 0 = Holding json" using turn ij 4 by (auto simp: in_turn_def)
    from quiet_step.task [OF step_forms(3) [OF this], of to_json "{(0, 1), (1, 0)}"]
    have "quiet_step to_json {(0, 1), (1, 0)} y (next_system to_json d y)"
      using 4 ij json by (simp add: next_system_def Let_def)
    then show ?thesis
      using 4 ij after wires idle json
      by (simp add: next_system_def in_turn_def Let_def set_server_def split_beta)
  qed
qed

lemma edited_in_turn: "in_turn 6 (edited to_json)"
  by (simp add: in_turn_def on_turn_def edited_def Let_def set_server_def system_init_def)

lemma edited_reached:
  "(system_step Debug to_json peers ^^ 2) (system_init dec_digits of_nat) (edited to_json)"
proof -
  let ?y = "system_init dec_digits of_nat"
  let ?a = "app (servers ?y 0)"
  let ?s = "snd (todo_apply Debug (Add [66]) (inner ?a))"
  let ?x = "\<lparr>app = ?a\<lparr>inner := ?s\<rparr>, phases = all_idle(0 := Mutated)\<rparr>"
  have "trim [66] = [66]" by (simp add: trim_def is_whitespace_def)
  then have "todo_apply Debug (Add [66]) (inner ?a) = (Inr (), ?s)"
    by (simp add: todo_add_eq system_init_def app_new_def with_sync_notifier_def)
  then have "edit_step Debug (Add [66]) \<lparr>app = ?a, phases = all_idle\<rparr> ?x" by (intro edit_step.mutate) simp_all
  moreover have "servers ?y 0 = \<lparr>app = ?a, phases = all_idle\<rparr>" by (simp add: system_init_def)
  ultimately have "edit_step Debug (Add [66]) (servers ?y 0) ?x" by simp
  then have 1: "system_step Debug to_json peers ?y (set_server 0 ?x ?y)" by (rule system_step.edit)
  have "task_step to_json ?x \<lparr>app = notify_sync (?a\<lparr>inner := ?s\<rparr>), phases = (all_idle(0 := Mutated))(0 := Notified)\<rparr>"
    by (rule task_step.notify) simp
  then have "task_step to_json (servers (set_server 0 ?x ?y) 0)
      \<lparr>app = notify_sync (?a\<lparr>inner := ?s\<rparr>), phases = all_idle(0 := Notified)\<rparr>"
    by (simp add: set_server_def)
  from quiet_step.task [OF this, THEN system_step.quiet]
  have "system_step Debug to_json peers (set_server 0 ?x ?y) (edited to_json)"
    by (simp add: set_server_def edited_def Let_def)
  with 1 show ?thesis by (auto simp: numeral_2_eq_2)
qed

lemma system_turns_in_turn: "in_turn (k + 6) (system_turns to_json k)"
proof (induction k)
  case (Suc k)
  then show ?case using next_system_step [of "k + 6"] by simp
qed (simp add: edited_in_turn)

lemma system_turns_run: "quiet_run to_json {(0, 1), (1, 0)} (system_turns to_json)"
  unfolding quiet_run_def using next_system_step [OF system_turns_in_turn] by simp

lemma system_turns_fair: "fair {(0, 1), (1, 0)} (\<lambda>k. network_of (system_turns to_json k))"
proof -
  have deliver: "delivers i j (network_of (system_turns to_json k)) (network_of (system_turns to_json (Suc k)))"
    if k: "(k + 6) mod 4 = 1" and ij: "on_turn (k + 6) = (i, j)" for i j k
  proof -
    let ?y = "system_turns to_json k"
    have "length (wires ?y i j) = 1" using system_turns_in_turn [of k to_json] k ij by (simp add: in_turn_def)
    then obtain s where "wires ?y i j = [s]" by (auto simp: length_Suc_conv)
    then show ?thesis using k ij by (simp add: delivers_def next_system_def Let_def)
  qed
  have "delivers 0 1 (network_of (system_turns to_json (8 * n + 3))) (network_of (system_turns to_json (Suc (8 * n + 3))))"
    for n
  proof (rule deliver)
    have "(8 * n + 3 + 6) mod 8 = 1" by presburger
    then show "on_turn (8 * n + 3 + 6) = (0, 1)" by (simp only: on_turn_def) simp
  qed presburger
  then have "\<exists>k\<ge>n. delivers 0 1 (network_of (system_turns to_json k)) (network_of (system_turns to_json (Suc k)))" for n
    by (intro exI [of _ "8 * n + 3"] conjI) simp_all
  moreover have "delivers 1 0 (network_of (system_turns to_json (8 * n + 7)))
      (network_of (system_turns to_json (Suc (8 * n + 7))))" for n
  proof (rule deliver)
    have "(8 * n + 7 + 6) mod 8 = 5" by presburger
    then show "on_turn (8 * n + 7 + 6) = (1, 0)" by (simp only: on_turn_def) simp
  qed presburger
  then have "\<exists>k\<ge>n. delivers 1 0 (network_of (system_turns to_json k)) (network_of (system_turns to_json (Suc k)))" for n
    by (intro exI [of _ "8 * n + 7"] conjI) simp_all
  ultimately show ?thesis unfolding fair_def by simp
qed

lemma system_turns_rest: "\<exists>k\<ge>n. \<forall>t. phases (servers (system_turns to_json k) i) t = Idle"
proof -
  have "(8 * n + 2 + 6) mod 4 = (0 :: nat)" by presburger
  then have "\<forall>t. phases (servers (system_turns to_json (8 * n + 2)) i) t = Idle"
    using system_turns_in_turn [of "8 * n + 2" to_json] by (auto simp: in_turn_def split: prod.splits)
  then show ?thesis by (intro exI [of _ "8 * n + 2"]) simp
qed

subsection \<open>Properties\<close>





end
