(* ===== verification/Bootstrap.thy ===== *)
theory Bootstrap
  imports Config Server SyncProps
begin

section \<open>Starting the program\<close>

text \<open>
  \<^verbatim>\<open>main\<close> of \<^verbatim>\<open>crates/todo-app/src/main.rs\<close> up to the point where it serves requests. Whether an
  address can be bound is an input; an address that is taken already cannot, unless its port is 0, which stands for a
  free one. The result says how far it got: a panic in the configuration, the listener of
  the sync layer or of the web server that cannot be bound, or a running server with its shared state, its sync
  tasks and its web address. When the web server's address is taken the sync tasks have been started, but the
  process ends.
\<close>

datatype startup =
    Panicked panic
  | SyncBindFailed
  | WebBindFailed
  | Serving app_state "socket_addr task list" socket_addr rust_string

definition server_main ::
  "build \<Rightarrow> (socket_addr \<Rightarrow> bool) \<Rightarrow> env \<Rightarrow> startup" where
  "server_main b bind_ok env =
     (case from_env b env of
        Inl e \<Rightarrow> Panicked e
      | Inr cfg \<Rightarrow>
          (let app_state = app_new (todo_new (cfg_peer_id cfg) (cfg_replica_id cfg));
               sync_node = sync_node_new (cfg_peer_id cfg) (inner app_state) (cfg_sync_listen cfg)
                 (cfg_sync_peers cfg);
               app_state = with_sync_notifier app_state
           in case sync_run bind_ok sync_node of
                Inl _ \<Rightarrow> SyncBindFailed
              | Inr tasks \<Rightarrow>
                  (let addr = localhost (cfg_port cfg)
                   in if bind_ok addr \<and> (addr \<noteq> cfg_sync_listen cfg \<or> cfg_port cfg = 0)
                      then Serving app_state tasks addr (cfg_static_dir cfg) else WebBindFailed)))"

subsection \<open>Properties\<close>

text \<open>Without any configuration the program serves the web on port 8080 of the loopback interface and
  listens for peers on port 9080, as peer-1 with replica id 1, an empty list and no peers to connect to, with the
  sync layer attached and nothing sent yet.\<close>

theorem default_startup:
  "server_main b (\<lambda>_. True) Map.empty =
     Serving \<lparr>inner = todo_new (lit ''peer-1'') 1, ws_sent = [], sync_notify = Some 0\<rparr>
       [Listen (SocketV4 [127, 0, 0, 1] 9080)] (SocketV4 [127, 0, 0, 1] 8080) (lit ''crates/todo-app/static'')"
proof -
  have "replica_id_of (lit ''peer-1'') = 1"
    by (simp add: replica_id_of_def parse_u64_def unwrap_or_def lit_def is_ascii_digit_def)
  moreover have "add_unsigned b (8080 :: u16) 1000 = Inr 9080" by (simp add: add_unsigned_def)
  moreover have "parse_peers [] = []"
    by (simp add: parse_peers_def trim_def map_filter_simps)
  ultimately have "from_env b Map.empty = Inr
      \<lparr>cfg_peer_id = lit ''peer-1'', cfg_replica_id = 1, cfg_port = 8080,
       cfg_static_dir = lit ''crates/todo-app/static'', cfg_sync_listen = localhost 9080, cfg_sync_peers = []\<rparr>"
    by (simp add: from_env_def parse_env_def unwrap_or_def Let_def)
  then show ?thesis
    by (simp add: server_main_def Let_def app_new_def with_sync_notifier_def sync_run_def
        sync_node_new_def localhost_def)
qed


end
