(* ===== verification/Spec2Isabelle.thy ===== *)
theory Spec2Isabelle
  imports Prelude Collections CvRDT Clock GCounter PNCounter GSet VectorClock CoreTests Sync Protocol TodoState
    TodoSteps TodoProps TodoMerge TodoTests Cluster ClusterProps Settling Restarts SyncProps SocketAddr Config
    Server ServerProps System Bootstrap
begin

text \<open>
  A replicated todo list: \<^verbatim>\<open>crates/crdt-core\<close> (state-based CRDTs), \<^verbatim>\<open>crates/crdt-sync\<close> (a peer-to-peer
  layer that exchanges whole states) and \<^verbatim>\<open>crates/todo-app\<close> (the todo list made of the CRDTs, and the web server
  around it). This development models all three crates and proves what makes them correct.

  \<^bold>\<open>The program.\<close> Each server process holds one \<^verbatim>\<open>TodoState\<close> behind a lock. Browsers send it client messages over
  WebSockets; each is applied to the state, wakes the sync layer and is answered by a snapshot to all
  browsers. The sync layer keeps an outgoing connection to every configured peer, on which it pushes the whole
  state when it is opened, when woken and every five seconds; the listener of the peer merges what arrives
  and wakes the browsers' side. Merging is the join of the CRDT, so the order, the repetition and the loss of pushes
  should not matter.

  \<^bold>\<open>The theories\<close>, in the order in which they build on one another:
  \<^item> \<open>Prelude\<close>: machine words and the overflow of debug and release builds, operations that may panic
    (\<open>('s, 'a) run\<close>), strings, \<^verbatim>\<open>trim\<close>, decimal printing and parsing, and joins of optional values.
  \<^item> \<open>Collections\<close>: \<^verbatim>\<open>HashMap\<close> and \<^verbatim>\<open>HashSet\<close>, with an unspecified order of iteration; the locale
    \<open>pointwise_loop\<close> is the contract of the loops over a map of the source, and yields that the order does
    not matter.
  \<^item> \<open>CvRDT\<close>: the trait of \<^verbatim>\<open>traits.rs\<close> as the locale \<open>cvrdt\<close>, with what follows from its laws: the order of
    states, least upper bounds, convergence of replicas that absorb the same states (\<open>absorb\<close>), and of groups
    that push to each other (\<open>gossip\<close>, \<open>heard\<close>, \<open>rounds\<close>). \<open>cvrdt_view\<close> derives the contract from a view on which
    merge is a join; \<open>cvrdt_sized\<close> adds a size that every change makes larger, which bounds how often
    merging can change a state. Every implementor interprets them on its own definitions.
  \<^item> \<open>Clock\<close>, \<open>GCounter\<close>, \<open>PNCounter\<close>, \<open>GSet\<close>, \<open>VectorClock\<close>: one per module of \<^verbatim>\<open>crdt-core\<close> (\<^verbatim>\<open>clock.rs\<close>,
    \<^verbatim>\<open>counter.rs\<close>, \<^verbatim>\<open>pn_counter.rs\<close>, \<^verbatim>\<open>g_set.rs\<close>, \<^verbatim>\<open>vector_clock.rs\<close>). Records and operations have the names of the
    source with the prefixes \<open>gc_\<close>, \<open>pn_\<close>, \<open>gs_\<close>, \<open>vc_\<close>. The lemmas give the values of the counters with their
    bounds, the refinement of finite sets, the causal order that the comparison loop decides, and the merge laws.
  \<^item> \<open>CoreTests\<close>: the \<^verbatim>\<open>tests\<close> modules of these files, unit tests as truth values and property tests as predicates on
    what their generators produce, with the proof that all of them pass.
  \<^item> \<open>Sync\<close>, \<open>SyncProps\<close>: \<^verbatim>\<open>crdt-sync/src/lib.rs\<close>, generic in the state: what a connection writes
    (\<open>drive_outgoing\<close>), the reconnecting task (\<open>outgoing_task\<close>) and the receiver (\<open>serve_incoming\<close>). The lemmas show
    which states arrive and are merged, on every error path, and that a new connection makes up for what the
    earlier ones lost.
  \<^item> \<open>Protocol\<close>, \<open>TodoState\<close>, \<open>TodoSteps\<close>, \<open>TodoProps\<close>, \<open>TodoMerge\<close>, \<open>TodoTests\<close>: \<^verbatim>\<open>protocol.rs\<close> and \<^verbatim>\<open>state.rs\<close>. \<open>todo_apply\<close> and
    \<open>todo_merge\<close> are \<^verbatim>\<open>apply\<close> and \<^verbatim>\<open>merge\<close>, \<open>snapshot\<close> is what browsers see, \<open>todo_wire\<close> what serialisation
    keeps. \<open>local_step\<close> is the step relation of one replica, \<open>todo_wf\<close> its invariant, \<open>todo_agrees\<close> the
    condition under which its first-writer-wins maps merge, and \<open>spec_apply\<close> the abstract list it refines.
    \<open>TodoMerge\<close> has two more contracts of the merge: \<open>todo_core\<close>, the part of the state that converges without
    agreement, and \<open>todo_extent\<close>, its size. \<open>TodoTests\<close> has the unit tests of \<^verbatim>\<open>state.rs\<close>.
  \<^item> \<open>Cluster\<close>, \<open>ClusterProps\<close>: servers and the states in transit between them as a transition system
    (\<open>cluster_step\<close>: an edit, a push, a delivery, a broken connection), its invariants by induction over the reachable
    states, convergence, and that the sync layer implements its deliveries. \<open>Settling\<close> is about its infinite
    executions without edits (\<open>sync_execution\<close>, \<open>fair\<close>): the servers stop changing, and in equal states if connections
    keep delivering. \<open>Restarts\<close> adds servers that crash and start again empty (\<open>restart_step\<close>).
  \<^item> \<open>Server\<close>, \<open>ServerProps\<close>: \<^verbatim>\<open>server.rs\<close> and the forwarding task of \<^verbatim>\<open>main.rs\<close>: one client message
    (\<open>apply_and_broadcast\<close>), one socket (\<open>handle_socket\<close>), and the tasks interleaved at the points where
    the code releases the lock (\<open>server_step\<close>).
  \<^item> \<open>System\<close>: the servers with these tasks, joined by the network (\<open>system_step\<close>). It refines \<open>Cluster\<close>
    (\<open>network_of\<close>), and every edit reaches every browser.
  \<^item> \<open>SocketAddr\<close>, \<open>Config\<close>, \<open>Bootstrap\<close>: the standard library's parser of socket addresses with a printer,
    \<^verbatim>\<open>Config::from_env\<close> and \<^verbatim>\<open>main\<close> of \<^verbatim>\<open>main.rs\<close>.

  \<^bold>\<open>What is shown.\<close> In a network whose servers have different names and do not restart, every reachable
  set of states has one consistent history; replicas that have merged the same states are equal and show the
  same list, and rounds of pushes within a connected group make its members equal (\<open>ClusterProps\<close>). Without edits
  the exchange comes to an end, and where connections keep delivering it ends in equal lists (\<open>Settling\<close>). With
  restarts the identifiers, the flags and the clock still converge (\<open>Restarts\<close>). This rests on the
  refinement of an abstract list and the merge laws (\<open>TodoProps\<close>) and on the delivery of sessions (\<open>SyncProps\<close>).
  The vector clock of a server is exact (\<open>ClusterProps\<close>), and its comparison is the causal order (\<open>VectorClock\<close>). On
  the web side no update is lost between tasks (\<open>ServerProps\<close>), and all of it together brings every edit to every
  browser of a connected group (\<open>System\<close>). All tests of the repository are theorems (\<open>CoreTests\<close>,
  \<open>TodoTests\<close>). The other properties give the behaviour of
  each operation on each branch, errors and overflow included.

  \<^bold>\<open>What the code does not do.\<close> Some theorems state behaviour that falls short of the documentation or of the evident
  intention: a restarted replica reuses identifiers and diverges for good, and an item that has been unticked is
  ticked again by a merge, which the module documents (\<open>TodoProps\<close>); two broadcasts can overtake each other,
  and the forwarding task ends when it falls behind (\<open>ServerProps\<close>); the default sync port overflows,
  replica ids collide, and host names of peers are dropped (\<open>Config\<close>); and an exhausted clock wraps in a
  release build (\<open>VectorClock\<close>).

  \<^bold>\<open>Conventions and bounds.\<close> \<open>build\<close> selects the overflow checks: a debug build panics, a release build wraps; results are
  sums with a panic on the left, together with the state left behind. The network theorems bound the number of steps
  below \<open>2 ^ 64\<close> in a release build because the counters advance by at most one per step, so no counter can
  wrap within the bound; in a debug build none is needed. No definition runs on fuel: every loop of the source
  that runs for ever is driven by the finite list of its inputs so far, and its result says whether it is
  still waiting.

  \<^bold>\<open>Parameters.\<close> \<open>enc\<close> and \<open>dec\<close> stand for bincode (\<open>codec_ok\<close>: what was encoded decodes, up to the fields that
  are not serialised), \<open>to_json\<close> and \<open>from_json\<close> for serde's JSON, \<open>bind_ok\<close>
  for the operating system, and the results of writes and the contents of channels and sockets are inputs.

  \<^bold>\<open>Not modelled.\<close> The browser's JavaScript, the axum router and the static files, logging, and the times between events;
  a channel's capacity appears only as the possibility of a \<open>Lagged\<close> receiver.
\<close>

end
